(* ===== verification/Prelude.thy ===== *)
theory Prelude
  imports Main "HOL-Library.Word" "HOL-Library.Product_Lexorder"
begin

text \<open>
  What every component of the development shares.

  \<^item> The machine integers of the kernel. All three targets (x86-64, AArch64, RISC-V 64) are
    64-bit, so \<open>usize\<close> is \<open>u64\<close>. Atomic counters (\<open>fetch_add\<close>, \<open>fetch_sub\<close>) wrap, as words do; plain
    arithmetic is that of the release profile of \<open>src/Cargo.toml\<close>, which has no overflow checks.
  \<^item> \<open>result\<close>, Rust's \<open>Result<T, E>\<close>.
  \<^item> Rust's ordered collections. A \<open>BTreeMap<K, V>\<close> is the list of its bindings in key order,
    which is the order in which the kernel iterates over it, and a \<open>BTreeSet<K>\<close> the list of its
    elements in order. The laws that clients use are stated as the locales \<open>ordered_map\<close> and
    \<open>ordered_set\<close> and interpreted on these lists.
  \<^item> Generic facts on words and lists.
\<close>

unbundle bit_operations_syntax

section \<open>Machine integers and results\<close>

type_synonym u8 = "8 word"
type_synonym u16 = "16 word"
type_synonym u32 = "32 word"
type_synonym u64 = "64 word"
type_synonym usize = "64 word"

datatype ('a, 'e) result = Ok 'a | Err 'e

definition is_ok :: "('a, 'e) result \<Rightarrow> bool" where
  "is_ok r = (case r of Ok _ \<Rightarrow> True | Err _ \<Rightarrow> False)"

lemma is_ok_simps [simp]: "is_ok (Ok x)" "\<not> is_ok (Err e)"
  by (simp_all add: is_ok_def)

lemma is_ok_conv: "is_ok r \<longleftrightarrow> (\<exists>x. r = Ok x)"
  by (cases r) auto

text \<open>A call that may panic: an array access out of range ends the kernel (\<open>panic = "abort"\<close>).\<close>

datatype 'a outcome = Done 'a | Panic

lemma map_int_upt: "map int [0..<n] = [0..int n - 1]"
proof (induction n)
  case (Suc n)
  then show ?case using upto_rec2 [of 0 "int n"] by (simp)
qed simp

lemma okI: "fst p = Ok x \<Longrightarrow> p = (Ok x, snd p)"
  by (cases p) simp

lemma unat_inc:
  assumes "(w :: 'a::len word) < v"
  shows "unat (w + 1) = Suc (unat w)"
proof -
  have "unat w < unat v" using assms by (simp add: word_less_nat_alt)
  moreover have "unat v < 2 ^ LENGTH('a)" by (rule unsigned_less)
  ultimately have "Suc (unat w) < 2 ^ LENGTH('a)" by linarith
  then show ?thesis by (simp add: unat_word_ariths)
qed

section \<open>Ordered maps\<close>

type_synonym ('k, 'v) btree_map = "('k \<times> 'v) list"

definition bt_get :: "('k, 'v) btree_map \<Rightarrow> 'k \<Rightarrow> 'v option" where
  "bt_get m k = map_of m k"

fun bt_insert :: "'k::linorder \<Rightarrow> 'v \<Rightarrow> ('k, 'v) btree_map \<Rightarrow> ('k, 'v) btree_map" where
  "bt_insert k v [] = [(k, v)]"
| "bt_insert k v ((k', v') # m) =
     (if k < k' then (k, v) # (k', v') # m
      else if k = k' then (k, v) # m
      else (k', v') # bt_insert k v m)"

definition bt_remove :: "'k \<Rightarrow> ('k, 'v) btree_map \<Rightarrow> ('k, 'v) btree_map" where
  "bt_remove k m = filter (\<lambda>b. fst b \<noteq> k) m"

definition bt_wf :: "('k::linorder, 'v) btree_map \<Rightarrow> bool" where
  "bt_wf m = sorted_wrt (<) (map fst m)"

locale ordered_map =
  fixes empty :: "'m"
    and get :: "'m \<Rightarrow> 'k::linorder \<Rightarrow> 'v option"
    and insert :: "'k \<Rightarrow> 'v \<Rightarrow> 'm \<Rightarrow> 'm"
    and remove :: "'k \<Rightarrow> 'm \<Rightarrow> 'm"
    and bindings :: "'m \<Rightarrow> ('k \<times> 'v) list"
    and wf :: "'m \<Rightarrow> bool"
  assumes get_empty: "get empty k = None"
    and get_insert: "get (insert k v m) k' = (if k' = k then Some v else get m k')"
    and get_remove: "get (remove k m) k' = (if k' = k then None else get m k')"
    and wf_empty: "wf empty"
    and wf_insert: "wf m \<Longrightarrow> wf (insert k v m)"
    and wf_remove: "wf m \<Longrightarrow> wf (remove k m)"
    and wf_bindings: "wf m \<Longrightarrow> sorted_wrt (<) (map fst (bindings m))"
    and get_bindings: "wf m \<Longrightarrow> get m k = Some v \<longleftrightarrow> (k, v) \<in> set (bindings m)"
begin

lemma get_insert_remove: "get (insert k v (remove k m)) = get (insert k v m)"
  by (rule ext) (simp add: get_insert get_remove)

lemma get_insert_same [simp]: "get (insert k v m) k = Some v"
  by (simp add: get_insert)

lemma get_remove_same [simp]: "get (remove k m) k = None"
  by (simp add: get_remove)

lemma distinct_bindings: "wf m \<Longrightarrow> distinct (map fst (bindings m))"
  using wf_bindings [of m] strict_sorted_iff by blast

end

lemma bt_get_insert: "bt_get (bt_insert k v m) k' = (if k' = k then Some v else bt_get m k')"
  unfolding bt_get_def by (induction k v m rule: bt_insert.induct) auto

lemma bt_get_remove: "bt_get (bt_remove k m) k' = (if k' = k then None else bt_get m k')"
  unfolding bt_get_def bt_remove_def by (induction m) auto

lemma bt_keys_insert: "fst ` set (bt_insert k v m) = insert k (fst ` set m)"
  by (induction k v m rule: bt_insert.induct) auto

lemma bt_wf_insert: "bt_wf m \<Longrightarrow> bt_wf (bt_insert k v m)"
proof (induction k v m rule: bt_insert.induct)
  case (1 k v)
  then show ?case by (simp add: bt_wf_def)
next
  case (2 k v k' v' m)
  then have tl: "bt_wf m" and hd: "\<forall>x \<in> fst ` set m. k' < x"
    by (auto simp: bt_wf_def)
  show ?case
  proof (cases "k < k' \<or> k = k'")
    case True
    with 2 hd show ?thesis by (force simp: bt_wf_def)
  next
    case False
    then have "k' < k" by auto
    with 2 tl have "bt_wf (bt_insert k v m)" by simp
    moreover have "\<forall>x \<in> fst ` set (bt_insert k v m). k' < x"
      using hd \<open>k' < k\<close> by (simp add: bt_keys_insert)
    ultimately show ?thesis using False by (auto simp: bt_wf_def)
  qed
qed

lemma bt_wf_remove: "bt_wf m \<Longrightarrow> bt_wf (bt_remove k m)"
  by (induction m) (auto simp: bt_wf_def bt_remove_def)

lemma bt_get_in: "bt_get m k = Some v \<Longrightarrow> (k, v) \<in> set m"
  unfolding bt_get_def by (rule map_of_SomeD)

lemma bt_get_iff: "bt_wf m \<Longrightarrow> bt_get m k = Some v \<longleftrightarrow> (k, v) \<in> set m"
  unfolding bt_get_def bt_wf_def using strict_sorted_iff [of "map fst m"]
  by (simp add: map_of_eq_Some_iff)

lemma bt_get_Cons: "bt_get ((k, v) # m) k' = (if k' = k then Some v else bt_get m k')"
  by (simp add: bt_get_def)

lemma bt_insert_idem [simp]: "bt_insert k v (bt_insert k v' m) = bt_insert k v m"
  by (induction k v m rule: bt_insert.induct) auto

lemma set_bt_insert: "set (bt_insert k v m) \<subseteq> insert (k, v) (set m)"
  by (induction k v m rule: bt_insert.induct) auto

lemma set_bt_remove: "set (bt_remove k m) \<subseteq> set m"
  by (auto simp: bt_remove_def)

lemma fold_bt_remove: "fold bt_remove ks m = filter (\<lambda>b. fst b \<notin> set ks) m"
  by (induction ks arbitrary: m) (auto simp: bt_remove_def intro: filter_cong)

lemma length_bt_insert:
  "bt_wf m \<Longrightarrow> length (bt_insert k v m) = (if bt_get m k = None then Suc (length m) else length m)"
proof (induction k v m rule: bt_insert.induct)
  case (2 k v k' v' m)
  have wf: "bt_wf m" and nin: "k < k' \<Longrightarrow> k \<notin> fst ` set m" using 2(2) by (auto simp: bt_wf_def)
  show ?case using 2(1) wf nin by (auto simp: bt_get_def map_of_eq_None_iff)
qed (simp add: bt_get_def)

lemma length_bt_remove:
  assumes "bt_wf m" and "b \<in> set m"
  shows "Suc (length (bt_remove (fst b) m)) = length m"
proof -
  have "distinct (map fst m)" using assms(1) by (simp add: bt_wf_def strict_sorted_iff)
  then show ?thesis using assms(2)
  proof (induction m)
    case (Cons a m)
    then show ?case
    proof (cases "a = b")
      case True
      then have "filter (\<lambda>c. fst c \<noteq> fst b) m = m" using Cons.prems(1)
        by (intro filter_True) (metis distinct.simps(2) image_eqI list.set_map list.simps(9))
      then show ?thesis using True by (simp add: bt_remove_def)
    next
      case False
      then have "b \<in> set m" using Cons.prems by simp
      then have "fst a \<noteq> fst b" using Cons.prems(1) by auto
      then show ?thesis using Cons \<open>b \<in> set m\<close> by (simp add: bt_remove_def)
    qed
  qed simp
qed

interpretation bt: ordered_map "[]" bt_get bt_insert bt_remove "\<lambda>m. m" bt_wf
proof
  show "bt_get [] k = None" for k :: 'a by (simp add: bt_get_def)
  show "bt_wf []" by (simp add: bt_wf_def)
  show "bt_wf m \<Longrightarrow> sorted_wrt (<) (map fst m)" for m :: "('a, 'b) btree_map"
    by (simp add: bt_wf_def)
qed (simp_all add: bt_get_insert bt_get_remove bt_wf_insert bt_wf_remove bt_get_iff)

lemmas bt_simps = bt_get_insert bt_get_remove bt.get_empty

section \<open>Ordered sets\<close>

type_synonym 'k btree_set = "'k list"

fun bs_insert :: "'k::linorder \<Rightarrow> 'k btree_set \<Rightarrow> 'k btree_set" where
  "bs_insert k [] = [k]"
| "bs_insert k (k' # s) =
     (if k < k' then k # k' # s else if k = k' then k # s else k' # bs_insert k s)"

definition bs_remove :: "'k \<Rightarrow> 'k btree_set \<Rightarrow> 'k btree_set" where
  "bs_remove k s = filter (\<lambda>x. x \<noteq> k) s"

definition bs_contains :: "'k btree_set \<Rightarrow> 'k \<Rightarrow> bool" where
  "bs_contains s k = (k \<in> set s)"

locale ordered_set =
  fixes empty :: "'s"
    and insert :: "'k::linorder \<Rightarrow> 's \<Rightarrow> 's"
    and remove :: "'k \<Rightarrow> 's \<Rightarrow> 's"
    and contains :: "'s \<Rightarrow> 'k \<Rightarrow> bool"
    and elems :: "'s \<Rightarrow> 'k list"
    and wf :: "'s \<Rightarrow> bool"
  assumes contains_empty: "\<not> contains empty k"
    and contains_insert: "contains (insert k s) k' \<longleftrightarrow> k' = k \<or> contains s k'"
    and contains_remove: "contains (remove k s) k' \<longleftrightarrow> k' \<noteq> k \<and> contains s k'"
    and contains_elems: "contains s k \<longleftrightarrow> k \<in> List.set (elems s)"
    and wf_empty: "wf empty"
    and wf_insert: "wf s \<Longrightarrow> wf (insert k s)"
    and wf_remove: "wf s \<Longrightarrow> wf (remove k s)"
    and wf_elems: "wf s \<Longrightarrow> sorted_wrt (<) (elems s)"
begin

lemma contains_insert_same [simp]: "contains (insert k s) k"
  by (simp add: contains_insert)

lemma elems_insert: "List.set (elems (insert k s)) = {k} \<union> List.set (elems s)"
  using contains_insert contains_elems by fastforce

lemma elems_remove: "List.set (elems (remove k s)) = List.set (elems s) - {k}"
  using contains_remove contains_elems by fastforce

lemma distinct_elems: "wf s \<Longrightarrow> distinct (elems s)"
  using wf_elems [of s] strict_sorted_iff by blast

end

lemma set_bs_insert: "set (bs_insert k s) = insert k (set s)"
  by (induction k s rule: bs_insert.induct) auto

lemma bs_wf_insert: "sorted_wrt (<) s \<Longrightarrow> sorted_wrt (<) (bs_insert k s)"
  by (induction k s rule: bs_insert.induct) (auto simp: set_bs_insert)

lemma bs_wf_remove: "sorted_wrt (<) s \<Longrightarrow> sorted_wrt (<) (bs_remove k s)"
  by (induction s) (auto simp: bs_remove_def)

interpretation bs: ordered_set "[]" bs_insert bs_remove bs_contains "\<lambda>s. s" "sorted_wrt (<)"
  by unfold_locales
    (auto simp: bs_contains_def set_bs_insert bs_remove_def bs_wf_insert
      intro: bs_wf_remove [unfolded bs_remove_def])

end
