(* ===== verification/Cap_Token.thy ===== *)
theory Cap_Token
  imports Prelude
begin

text \<open>
  The packed 64-bit capability token and the rights masks of
  \<open>src/kernel/src/cap/token.rs\<close>.

  A token packs, from the low end, a 48-bit identifier, an 8-bit generation, a 4-bit object type
  and 4 permission flags. The lemmas show that packing and unpacking are inverse where the
  \<open>debug_assert!\<close> of the constructor hold, which field each bit belongs to, and that the rights
  form the lattice of bit sets that delegation and inheritance rely on.
\<close>

section \<open>Tokens\<close>

type_synonym capability_token = u64

definition token_new :: "u64 \<Rightarrow> u8 \<Rightarrow> u8 \<Rightarrow> u8 \<Rightarrow> capability_token" where
  "token_new cid generation cap_type flags =
     (cid AND 0xFFFFFFFFFFFF)
       OR push_bit 48 (ucast generation)
       OR push_bit 56 (ucast cap_type)
       OR push_bit 60 (ucast flags)"

text \<open>The three \<open>debug_assert!\<close> of the constructor; a debug build panics where they fail.\<close>

definition token_new_asserts :: "u64 \<Rightarrow> u8 \<Rightarrow> u8 \<Rightarrow> bool" where
  "token_new_asserts cid cap_type flags =
     (cid \<le> 0xFFFFFFFFFFFF \<and> cap_type \<le> 0xF \<and> flags \<le> 0xF)"

definition token_id :: "capability_token \<Rightarrow> u64" where
  "token_id t = t AND 0xFFFFFFFFFFFF"

definition token_generation :: "capability_token \<Rightarrow> u8" where
  "token_generation t = ucast (drop_bit 48 t AND 0xFF)"

definition token_cap_type :: "capability_token \<Rightarrow> u8" where
  "token_cap_type t = ucast (drop_bit 56 t AND 0xF)"

definition token_flags :: "capability_token \<Rightarrow> u8" where
  "token_flags t = ucast (drop_bit 60 t AND 0xF)"

definition from_id_and_generation :: "u64 \<Rightarrow> u8 \<Rightarrow> capability_token" where
  "from_id_and_generation cid generation = token_new cid generation 0 0"

definition token_to_u64 :: "capability_token \<Rightarrow> u64" where
  "token_to_u64 t = t"

definition token_from_u64 :: "u64 \<Rightarrow> capability_token" where
  "token_from_u64 v = v"

definition token_is_null :: "capability_token \<Rightarrow> bool" where
  "token_is_null t = (t = 0)"

definition token_null :: capability_token where
  "token_null = 0"

definition from_parts :: "u64 \<Rightarrow> u64 \<Rightarrow> u8 \<Rightarrow> u8 \<Rightarrow> capability_token" where
  "from_parts cid object_id generation metadata = token_new cid generation 0 0"

lemmas token_defs = token_new_def token_id_def token_generation_def token_cap_type_def
  token_flags_def

lemma mask48: "(0xFFFFFFFFFFFF :: u64) = mask 48"
  by (simp add: mask_eq_exp_minus_1)

lemma mask8: "(0xFF :: u64) = mask 8"
  by (simp add: mask_eq_exp_minus_1)

lemma mask4: "(0xF :: u64) = mask 4"
  by (simp add: mask_eq_exp_minus_1)

lemma mask4_u8: "(0xF :: u8) = mask 4"
  by (simp add: mask_eq_exp_minus_1)

lemmas token_masks = mask48 mask8 mask4 mask4_u8

lemma le_mask_bitD:
  assumes le: "(w :: 'a::len word) \<le> mask n" and bit: "bit w i"
  shows "i < n"
proof -
  have "uint w \<le> uint (mask n :: 'a word)" using le by (simp add: word_le_def)
  also have "\<dots> = mask (min LENGTH('a) n)" by (rule uint_mask_eq)
  also have "\<dots> \<le> mask n"
    unfolding mask_eq_exp_minus_1
    using power_increasing [of "min LENGTH('a) n" n "2 :: int", OF min.cobounded2]
    by linarith
  finally have "take_bit n (uint w) = uint w"
    by (simp add: take_bit_int_eq_self_iff mask_eq_exp_minus_1)
  moreover have "Bit_Operations.bit (uint w) i" using bit by (simp add: bit_uint_iff bit_imp_le_length)
  ultimately show ?thesis by (metis bit_take_bit_iff)
qed

lemma token_id_new: "token_id (token_new cid g t f) = cid AND 0xFFFFFFFFFFFF"
  unfolding token_defs token_masks by (rule bit_eqI) (auto simp: bit_simps)

lemma token_generation_new [simp]: "token_generation (token_new cid g t f) = g"
  unfolding token_defs token_masks
  by (rule bit_eqI) (auto simp: bit_simps dest: bit_imp_le_length)

lemma token_cap_type_new: "t \<le> 0xF \<Longrightarrow> token_cap_type (token_new cid g t f) = t"
  unfolding token_defs token_masks
  by (rule bit_eqI) (auto simp: bit_simps dest: bit_imp_le_length le_mask_bitD)

lemma token_flags_new:
  assumes "t \<le> 0xF" "f \<le> 0xF"
  shows "token_flags (token_new cid g t f) = f"
  using assms unfolding token_defs token_masks
  by (intro bit_eqI) (auto simp: bit_simps dest!: le_mask_bitD dest: bit_imp_le_length)

text \<open>Conversely a token is rebuilt from its fields: the packing loses nothing.\<close>

lemma token_rebuild:
  "token_new (token_id t) (token_generation t) (token_cap_type t) (token_flags t) = t"
proof (rule bit_eqI)
  fix n
  assume "possible_bit TYPE(u64) n"
  then have "n < 64" by simp
  then consider "n < 48" | "48 \<le> n" "n < 56" | "56 \<le> n" "n < 60" | "60 \<le> n" "n < 64"
    by linarith
  then show "bit (token_new (token_id t) (token_generation t) (token_cap_type t) (token_flags t)) n
      = bit t n"
    unfolding token_defs token_masks by cases (auto simp: bit_simps)
qed

lemma token_id_bound: "token_id t \<le> 0xFFFFFFFFFFFF"
  by (simp add: token_id_def word_and_le1)

lemma token_id_new_small: "cid \<le> 0xFFFFFFFFFFFF \<Longrightarrow> token_id (token_new cid g t f) = cid"
  unfolding token_id_new token_masks
  by (intro bit_eqI) (auto simp: bit_simps dest: le_mask_bitD)

section \<open>Flags and rights\<close>

datatype capability_flags = FRead | FWrite | FExecute | FGrant

fun flag_bits :: "capability_flags \<Rightarrow> u8" where
  "flag_bits FRead = 0b0001"
| "flag_bits FWrite = 0b0010"
| "flag_bits FExecute = 0b0100"
| "flag_bits FGrant = 0b1000"

definition flags_has :: "u8 \<Rightarrow> capability_flags \<Rightarrow> bool" where
  "flags_has flags perm = (flags AND flag_bits perm \<noteq> 0)"

definition flags_combine :: "capability_flags list \<Rightarrow> u8" where
  "flags_combine flags = fold (\<lambda>f acc. acc OR flag_bits f) flags 0"

type_synonym rights = u32

definition READ :: rights where "READ = push_bit 0 1"
definition WRITE :: rights where "WRITE = push_bit 1 1"
definition EXECUTE :: rights where "EXECUTE = push_bit 2 1"
definition GRANT :: rights where "GRANT = push_bit 3 1"
definition REVOKE :: rights where "REVOKE = push_bit 4 1"
definition DELETE :: rights where "DELETE = push_bit 5 1"
definition MODIFY :: rights where "MODIFY = push_bit 6 1"
definition CREATE :: rights where "CREATE = push_bit 7 1"
definition RIGHTS_ALL :: rights where "RIGHTS_ALL = 0xFF"

definition rights_contains :: "rights \<Rightarrow> rights \<Rightarrow> bool" where
  "rights_contains r other = (r AND other = other)"

definition rights_intersection :: "rights \<Rightarrow> rights \<Rightarrow> rights" where
  "rights_intersection r other = r AND other"

definition rights_union :: "rights \<Rightarrow> rights \<Rightarrow> rights" where
  "rights_union r other = r OR other"

definition rights_remove :: "rights \<Rightarrow> rights \<Rightarrow> rights" where
  "rights_remove r other = r AND NOT other"

definition rights_difference :: "rights \<Rightarrow> rights \<Rightarrow> rights" where
  "rights_difference r other = r AND NOT other"

definition rights_bits :: "rights \<Rightarrow> u16" where
  "rights_bits r = ucast r"

definition rights_is_empty :: "rights \<Rightarrow> bool" where
  "rights_is_empty r = (r = 0)"

definition rights_empty :: rights where
  "rights_empty = 0"

definition rights_to_flags :: "rights \<Rightarrow> u8" where
  "rights_to_flags r =
     (let flags = 0;
          flags = (if rights_contains r READ then flags OR flag_bits FRead else flags);
          flags = (if rights_contains r WRITE then flags OR flag_bits FWrite else flags);
          flags = (if rights_contains r EXECUTE then flags OR flag_bits FExecute else flags);
          flags = (if rights_contains r GRANT then flags OR flag_bits FGrant else flags)
      in flags)"

lemmas rights_consts = READ_def WRITE_def EXECUTE_def GRANT_def REVOKE_def DELETE_def
  MODIFY_def CREATE_def RIGHTS_ALL_def

lemma rights_contains_bits: "rights_contains r other \<longleftrightarrow> (\<forall>n. bit other n \<longrightarrow> bit r n)"
  unfolding rights_contains_def
  by (subst bit_eq_iff) (use bit_imp_le_length [of other] in \<open>auto simp: bit_simps\<close>)

lemma rights_contains_refl [simp, intro]: "rights_contains r r"
  by (simp add: rights_contains_def)

lemma rights_contains_trans: "rights_contains a b \<Longrightarrow> rights_contains b c \<Longrightarrow> rights_contains a c"
  by (auto simp: rights_contains_bits)

lemma rights_contains_intersection [intro]:
  "rights_contains a (rights_intersection a b)"
  "rights_contains b (rights_intersection a b)"
  by (auto simp: rights_contains_bits rights_intersection_def bit_simps)

lemma rights_contains_remove [intro]: "rights_contains a (rights_remove a b)"
  by (auto simp: rights_contains_bits rights_remove_def bit_simps)

lemma rights_contains_one: "n < 32 \<Longrightarrow> rights_contains r (push_bit n 1) \<longleftrightarrow> bit r n"
  by (auto simp: rights_contains_bits bit_simps)

lemma rights_contains_flag:
  "rights_contains r READ \<longleftrightarrow> bit r 0" "rights_contains r WRITE \<longleftrightarrow> bit r 1"
  "rights_contains r EXECUTE \<longleftrightarrow> bit r 2" "rights_contains r GRANT \<longleftrightarrow> bit r 3"
  "rights_contains r REVOKE \<longleftrightarrow> bit r 4"
  unfolding rights_consts by (rule rights_contains_one, simp)+

lemma rights_to_flags_bound: "rights_to_flags r \<le> 0xF"
  unfolding rights_to_flags_def Let_def
  by (cases "bit r 0"; cases "bit r 1"; cases "bit r 2"; cases "bit r 3")
    (simp_all add: rights_contains_flag)

lemma rights_to_flags_bits:
  assumes "n < 8"
  shows "bit (rights_to_flags r) n \<longleftrightarrow> n < 4 \<and> bit r n"
proof -
  consider "n = 0" | "n = 1" | "n = 2" | "n = 3" | "4 \<le> n" by linarith
  then show ?thesis
  proof cases
    case 5
    with rights_to_flags_bound [of r] show ?thesis
      by (auto simp: mask4_u8 dest: le_mask_bitD)
  qed (simp_all add: rights_to_flags_def Let_def rights_contains_flag bit_simps bit_numeral_rec)
qed

section \<open>The global identifier allocator\<close>

text \<open>
  \<open>GLOBAL_CAP_ID\<close> and \<open>alloc_cap_id\<close>. The compare-exchange loop retries only when another
  processor has moved the counter; the step that returns is the atomic read-and-increment
  modelled here.
\<close>

datatype cap_alloc_error = IdExhausted

definition MAX_CAP_ID :: u64 where
  "MAX_CAP_ID = push_bit 48 1 - 1"

definition alloc_cap_id :: "u64 \<Rightarrow> (u64, cap_alloc_error) result \<times> u64" where
  "alloc_cap_id current =
     (if current > MAX_CAP_ID then (Err IdExhausted, current) else (Ok current, current + 1))"

lemma MAX_CAP_ID_eq: "MAX_CAP_ID = 0xFFFFFFFFFFFF"
  by (simp add: MAX_CAP_ID_def push_bit_eq_mult)

lemma alloc_cap_id_Ok:
  assumes "alloc_cap_id c = (Ok i, c')"
  shows "i = c" "i \<le> 0xFFFFFFFFFFFF" "i < c'"
proof -
  from assms have *: "i = c" "c' = c + 1" "c \<le> 0xFFFFFFFFFFFF"
    by (auto simp: alloc_cap_id_def MAX_CAP_ID_eq not_less split: if_splits)
  then show "i = c" "i \<le> 0xFFFFFFFFFFFF" by auto
  have "unat c \<le> unat (0xFFFFFFFFFFFF :: u64)" using *(3) by (simp only: word_le_nat_alt)
  then have "unat (c + 1) = unat c + 1" by (simp add: unat_word_ariths)
  with * show "i < c'" by (simp add: word_less_nat_alt)
qed

end
