(* ===== verification/Cap_Object.thy ===== *)
theory Cap_Object
  imports Cap_Token
begin

text \<open>
  The kernel objects a capability can name (\<open>src/kernel/src/cap/object.rs\<close>).

  An \<open>Arc<Endpoint>\<close> is compared by address (\<open>Arc::ptr_eq\<close>), so an endpoint object is the address of
  its allocation. Equality of \<open>object_ref\<close> is then the \<open>PartialEq\<close> of the source.
\<close>

record memory_attributes =
  ma_readable :: bool
  ma_writable :: bool
  ma_executable :: bool
  ma_cacheable :: bool
  ma_device :: bool

definition attributes_normal :: memory_attributes where
  "attributes_normal =
     \<lparr>ma_readable = True, ma_writable = True, ma_executable = False, ma_cacheable = True,
      ma_device = False\<rparr>"

definition attributes_device :: memory_attributes where
  "attributes_device =
     \<lparr>ma_readable = True, ma_writable = True, ma_executable = False, ma_cacheable = False,
      ma_device = True\<rparr>"

datatype object_ref =
    ObjMemory usize usize memory_attributes
  | ObjProcess u64
  | ObjThread u64
  | ObjEndpoint u64
  | ObjInterrupt u32
  | ObjIoPort u16 u16
  | ObjPageTable usize u16
  | ObjCapabilitySpace u64
  | ObjDevice u64

fun type_code :: "object_ref \<Rightarrow> u8" where
  "type_code (ObjMemory _ _ _) = 0"
| "type_code (ObjProcess _) = 1"
| "type_code (ObjThread _) = 2"
| "type_code (ObjEndpoint _) = 3"
| "type_code (ObjInterrupt _) = 4"
| "type_code (ObjIoPort _ _) = 5"
| "type_code (ObjPageTable _ _) = 6"
| "type_code (ObjCapabilitySpace _) = 7"
| "type_code (ObjDevice _) = 8"

fun object_is_valid :: "object_ref \<Rightarrow> bool" where
  "object_is_valid (ObjMemory _ sz _) = (sz > 0)"
| "object_is_valid (ObjProcess pid) = (pid > 0)"
| "object_is_valid (ObjThread tid) = (tid > 0)"
| "object_is_valid (ObjEndpoint _) = True"
| "object_is_valid (ObjInterrupt irq) = (irq < 256)"
| "object_is_valid (ObjIoPort _ sz) = (sz > 0)"
| "object_is_valid (ObjPageTable _ _) = True"
| "object_is_valid (ObjCapabilitySpace pid) = (pid > 0)"
| "object_is_valid (ObjDevice _) = True"

definition object_eq :: "object_ref \<Rightarrow> object_ref \<Rightarrow> bool" where
  "object_eq a b =
     (case a of
        ObjMemory b1 s1 a1 \<Rightarrow>
          (case b of ObjMemory b2 s2 a2 \<Rightarrow> b1 = b2 \<and> s1 = s2 \<and> a1 = a2 | _ \<Rightarrow> False)
      | ObjProcess p1 \<Rightarrow> (case b of ObjProcess p2 \<Rightarrow> p1 = p2 | _ \<Rightarrow> False)
      | ObjThread t1 \<Rightarrow> (case b of ObjThread t2 \<Rightarrow> t1 = t2 | _ \<Rightarrow> False)
      | ObjEndpoint e1 \<Rightarrow> (case b of ObjEndpoint e2 \<Rightarrow> e1 = e2 | _ \<Rightarrow> False)
      | ObjInterrupt i1 \<Rightarrow> (case b of ObjInterrupt i2 \<Rightarrow> i1 = i2 | _ \<Rightarrow> False)
      | ObjIoPort b1 s1 \<Rightarrow> (case b of ObjIoPort b2 s2 \<Rightarrow> b1 = b2 \<and> s1 = s2 | _ \<Rightarrow> False)
      | ObjPageTable r1 a1 \<Rightarrow> (case b of ObjPageTable r2 a2 \<Rightarrow> r1 = r2 \<and> a1 = a2 | _ \<Rightarrow> False)
      | ObjCapabilitySpace p1 \<Rightarrow> (case b of ObjCapabilitySpace p2 \<Rightarrow> p1 = p2 | _ \<Rightarrow> False)
      | ObjDevice d1 \<Rightarrow> (case b of ObjDevice d2 \<Rightarrow> d1 = d2 | _ \<Rightarrow> False))"

datatype access = ARead | AWrite | AExecute | AGrant | ARevoke

fun to_rights_bit :: "access \<Rightarrow> u32" where
  "to_rights_bit ARead = push_bit 0 1"
| "to_rights_bit AWrite = push_bit 1 1"
| "to_rights_bit AExecute = push_bit 2 1"
| "to_rights_bit AGrant = push_bit 3 1"
| "to_rights_bit ARevoke = push_bit 4 1"

lemma object_eq_iff [simp]: "object_eq a b \<longleftrightarrow> a = b"
  by (cases a; cases b) (simp_all add: object_eq_def)

lemma type_code_bound: "type_code obj \<le> 0xF"
  by (cases obj) simp_all

end
