(* ===== verification/Kernel_Error.thy ===== *)
theory Kernel_Error
  imports Prelude
begin

text \<open>
  The error values of the kernel: \<open>KernelError\<close> and the enumerations it wraps
  (\<open>src/kernel/src/error.rs\<close>). A constructor carries the prefix of its enumeration, since the
  source uses the same variant names in several of them: \<open>Kc\<close> for \<open>error::CapError\<close>, \<open>Ki\<close> for
  \<open>error::IpcError\<close>, \<open>Ks\<close> for \<open>SchedError\<close>, \<open>Ksys\<close> for \<open>SyscallError\<close>, \<open>Kfs\<close> for \<open>FsError\<close> and \<open>Ke\<close>
  for \<open>KernelError\<close>. String payloads are kept, since callers compare whole values.
\<close>

datatype kernel_cap_error =
    KcInvalidCapability | KcInsufficientRights | KcCapabilityRevoked | KcInvalidObject
  | KcPermissionDenied | KcAlreadyExists | KcNotFound | KcIdExhausted

datatype kernel_ipc_error =
    KiInvalidEndpoint u64 | KiInvalidChannel u64 | KiMessageTooLarge usize usize
  | KiQueueFull usize | KiQueueEmpty | KiInvalidCapability | KiProcessNotFound u64
  | KiEndpointNotFound u64 | KiPermissionDenied | KiWouldBlock | KiTimeout

datatype sched_error =
    KsInvalidPriority u8 | KsInvalidCpuId usize | KsTaskNotFound u64 | KsCpuOffline usize
  | KsInvalidAffinity | KsQueueEmpty | KsAlreadyScheduled

datatype syscall_error =
    KsysInvalidSyscall usize | KsysInvalidArgument usize | KsysInvalidPointer usize
  | KsysBufferTooSmall usize usize | KsysStringTooLong usize | KsysAccessDenied
  | KsysNotImplemented

datatype fs_error =
    KfsNotFound | KfsAlreadyExists | KfsPermissionDenied | KfsNotADirectory | KfsNotAFile
  | KfsIsADirectory | KfsReadOnly | KfsInvalidPath | KfsNoRootFs | KfsAlreadyMounted
  | KfsNotMounted | KfsUnknownFsType | KfsIoError | KfsDirectoryNotEmpty
  | KfsTooManyOpenFiles | KfsBadFileDescriptor | KfsNotSupported | KfsNotASymlink
  | KfsFileTooLarge | KfsCorruptedData | KfsSymlinkLoop | KfsNoSpace

datatype kernel_error =
    KeOutOfMemory usize usize
  | KeInvalidAddress usize
  | KeUnmappedMemory usize
  | KeInvalidCapability u64 kernel_cap_error
  | KeInsufficientRights u16 u16
  | KeCapabilityRevoked u64
  | KeProcessNotFound u64
  | KeThreadNotFound u64
  | KeInvalidState string string
  | KeIpcError kernel_ipc_error
  | KeSchedulerError sched_error
  | KeSyscallError syscall_error
  | KeFsError fs_error
  | KeHardwareError string u32
  | KeInvalidArgument string string
  | KeOperationNotSupported string
  | KeResourceExhausted string
  | KePermissionDenied string
  | KeAlreadyExists string u64
  | KeNotFound string u64
  | KeTimeout string u64
  | KeNotImplemented string
  | KeWouldBlock
  | KeBrokenPipe
  | KeNotInitialized string
  | KeLegacyError string

fun kernel_error_of_cap :: "kernel_cap_error \<Rightarrow> kernel_error" where
  "kernel_error_of_cap KcInvalidCapability = KeInvalidCapability 0 KcInvalidCapability"
| "kernel_error_of_cap KcInsufficientRights = KeInsufficientRights 0 0"
| "kernel_error_of_cap KcCapabilityRevoked = KeCapabilityRevoked 0"
| "kernel_error_of_cap KcIdExhausted = KeResourceExhausted ''capability IDs''"
| "kernel_error_of_cap err = KeInvalidCapability 0 err"

text \<open>The conversion keeps distinct causes distinct.\<close>

lemma kernel_error_of_cap_inj: "kernel_error_of_cap a = kernel_error_of_cap b \<Longrightarrow> a = b"
  by (cases a; cases b) simp_all

end
