(* ===== verification/Cap_Space.thy ===== *)
theory Cap_Space
  imports Cap_Object Kernel_Error
begin

text \<open>
  The per-process capability space of \<open>src/kernel/src/cap/space.rs\<close>: a direct table of 256 slots
  for the identifiers below 256 (L1), a map of further 256-slot tables for the others (L2), a quota
  with its counter, a generation and statistics; and the per-CPU lookup cache of the same file.

  A \<open>Box<[RwLock<Option<CapabilityEntry>>; 256]>\<close> is a function from the byte that indexes it: every
  index of the source is either below \<open>L1_SIZE\<close> by a guard or masked with \<open>0xFF\<close>. Each method takes
  the locks it needs for its whole run, so each is one step on the state.

  The abstract view \<open>space_view\<close> is the partial map from tokens to the object and rights they
  name. The locale \<open>cap_store\<close> states what the space promises its clients in terms of that view,
  and its interpretation at the end shows that the two-level tables keep the promise.
\<close>

section \<open>State\<close>

record capability_entry =
  ent_capability :: capability_token
  ent_object :: object_ref
  ent_rights :: rights
  ent_usage_count :: u64
  ent_inheritance_flags :: u32

type_synonym cap_table = "u8 \<Rightarrow> capability_entry option"

record capability_space =
  l1_table :: cap_table
  l2_tables :: "(u16, cap_table) btree_map"
  sp_generation :: u8
  sp_quota :: usize
  sp_used :: usize
  total_caps :: u64
  lookups :: u64
  hits :: u64
  misses :: u64

definition L1_SIZE :: usize where "L1_SIZE = 256"
definition DEFAULT_CAP_QUOTA :: usize where "DEFAULT_CAP_QUOTA = 256"

definition INHERITABLE :: u32 where "INHERITABLE = push_bit 0 1"
definition PRESERVE_EXEC :: u32 where "PRESERVE_EXEC = push_bit 1 1"
definition REDUCE_RIGHTS :: u32 where "REDUCE_RIGHTS = push_bit 2 1"
definition START_DISABLED :: u32 where "START_DISABLED = push_bit 3 1"

definition entry_new :: "capability_token \<Rightarrow> object_ref \<Rightarrow> rights \<Rightarrow> capability_entry" where
  "entry_new cap obj r =
     \<lparr>ent_capability = cap, ent_object = obj, ent_rights = r, ent_usage_count = 0,
      ent_inheritance_flags = INHERITABLE\<rparr>"

definition entry_with_flags :: "capability_entry \<Rightarrow> u32 \<Rightarrow> capability_entry" where
  "entry_with_flags e flags = e\<lparr>ent_inheritance_flags := flags\<rparr>"

definition empty_table :: cap_table where
  "empty_table = (\<lambda>_. None)"

definition space_with_quota :: "usize \<Rightarrow> capability_space" where
  "space_with_quota quota =
     \<lparr>l1_table = empty_table, l2_tables = [], sp_generation = 0, sp_quota = quota, sp_used = 0,
      total_caps = 0, lookups = 0, hits = 0, misses = 0\<rparr>"

definition space_new :: capability_space where
  "space_new = space_with_quota DEFAULT_CAP_QUOTA"

text \<open>The two indices of the slow path; \<open>(cap_id >> 8) as u16\<close> keeps 16 of the 40 upper bits.\<close>

definition l1_index :: "u64 \<Rightarrow> u16" where
  "l1_index cap_id = ucast (drop_bit 8 cap_id)"

definition l2_index :: "u64 \<Rightarrow> u8" where
  "l2_index cap_id = ucast (cap_id AND 0xFF)"

section \<open>Lookup\<close>

definition touch :: "capability_entry \<Rightarrow> capability_entry" where
  "touch e = e\<lparr>ent_usage_count := ent_usage_count e + 1\<rparr>"

definition matching :: "capability_token \<Rightarrow> capability_entry option \<Rightarrow> capability_entry option" where
  "matching cap slot =
     (case slot of None \<Rightarrow> None | Some e \<Rightarrow> if ent_capability e = cap then Some e else None)"

text \<open>
  The probe that \<open>lookup\<close> and \<open>lookup_entry\<close> share: L1 first, then, also after an L1 miss, L2. A hit
  counts in the statistics and in the entry.
\<close>

definition probe :: "capability_space \<Rightarrow> capability_token \<Rightarrow>
    (capability_entry \<times> capability_space) option" where
  "probe s cap =
     (let cap_id = token_id cap in
      case (if cap_id < L1_SIZE then matching cap (l1_table s (ucast cap_id)) else None) of
        Some e \<Rightarrow>
          Some (e, s\<lparr>hits := hits s + 1, l1_table := (l1_table s)(ucast cap_id := Some (touch e))\<rparr>)
      | None \<Rightarrow>
          (case bt_get (l2_tables s) (l1_index cap_id) of
             None \<Rightarrow> None
           | Some t \<Rightarrow>
               (case matching cap (t (l2_index cap_id)) of
                  None \<Rightarrow> None
                | Some e \<Rightarrow>
                    Some (e, s\<lparr>hits := hits s + 1,
                      l2_tables := bt_insert (l1_index cap_id)
                        (t(l2_index cap_id := Some (touch e))) (l2_tables s)\<rparr>))))"

definition space_lookup :: "capability_space \<Rightarrow> capability_token \<Rightarrow> rights option \<times> capability_space" where
  "space_lookup s cap =
     (let s1 = s\<lparr>lookups := lookups s + 1\<rparr> in
      case probe s1 cap of
        Some (e, s2) \<Rightarrow> (Some (ent_rights e), s2)
      | None \<Rightarrow> (None, s1\<lparr>misses := misses s1 + 1\<rparr>))"

definition lookup_entry :: "capability_space \<Rightarrow> capability_token \<Rightarrow>
    (object_ref \<times> rights) option \<times> capability_space" where
  "lookup_entry s cap =
     (case probe s cap of
        Some (e, s2) \<Rightarrow> (Some (ent_object e, ent_rights e), s2)
      | None \<Rightarrow> (None, s\<lparr>misses := misses s + 1\<rparr>))"

definition check_rights :: "capability_space \<Rightarrow> capability_token \<Rightarrow> rights \<Rightarrow> bool \<times> capability_space" where
  "check_rights s cap required =
     (case space_lookup s cap of
        (Some r, s') \<Rightarrow> (rights_contains r required, s')
      | (None, s') \<Rightarrow> (False, s'))"

definition get_entry :: "capability_space \<Rightarrow> usize \<Rightarrow> capability_entry option" where
  "get_entry s cap_id =
     (if cap_id < L1_SIZE then l1_table s (ucast cap_id)
      else (case bt_get (l2_tables s) (l1_index cap_id) of
              None \<Rightarrow> None
            | Some t \<Rightarrow> t (l2_index cap_id)))"

section \<open>Insertion and removal\<close>

definition space_insert :: "capability_space \<Rightarrow> capability_token \<Rightarrow> object_ref \<Rightarrow> rights \<Rightarrow>
    (unit, kernel_error) result \<times> capability_space" where
  "space_insert s cap obj r =
     (if sp_used s \<ge> sp_quota s then (Err (KeResourceExhausted ''capability quota''), s)
      else
        let cap_id = token_id cap in
        if cap_id < L1_SIZE then
          (case l1_table s (ucast cap_id) of
             Some _ \<Rightarrow> (Err (KeAlreadyExists ''capability slot'' cap_id), s)
           | None \<Rightarrow>
               (Ok (), s\<lparr>l1_table := (l1_table s)(ucast cap_id := Some (entry_new cap obj r)),
                        sp_used := sp_used s + 1, total_caps := total_caps s + 1\<rparr>))
        else
          let k = l1_index cap_id; j = l2_index cap_id;
              tables = (case bt_get (l2_tables s) k of
                          Some _ \<Rightarrow> l2_tables s
                        | None \<Rightarrow> bt_insert k empty_table (l2_tables s));
              t = (case bt_get (l2_tables s) k of Some t \<Rightarrow> t | None \<Rightarrow> empty_table)
          in (case t j of
                Some _ \<Rightarrow> (Err (KeAlreadyExists ''capability slot'' cap_id),
                           s\<lparr>l2_tables := tables\<rparr>)
              | None \<Rightarrow>
                  (Ok (), s\<lparr>l2_tables := bt_insert k (t(j := Some (entry_new cap obj r))) tables,
                           sp_used := sp_used s + 1, total_caps := total_caps s + 1\<rparr>)))"

text \<open>
  \<open>entry.take()\<close> empties the slot before the token is compared, so a token that differs in its
  generation, type or flags empties it too, and then without the bookkeeping.
\<close>

definition space_remove :: "capability_space \<Rightarrow> capability_token \<Rightarrow> object_ref option \<times> capability_space" where
  "space_remove s cap =
     (let cap_id = token_id cap in
      if cap_id < L1_SIZE then
        (case l1_table s (ucast cap_id) of
           None \<Rightarrow> (None, s)
         | Some e \<Rightarrow>
             let s1 = s\<lparr>l1_table := (l1_table s)(ucast cap_id := None)\<rparr> in
             if ent_capability e = cap
             then (Some (ent_object e), s1\<lparr>sp_used := sp_used s - 1, total_caps := total_caps s - 1\<rparr>)
             else (None, s1))
      else
        (case bt_get (l2_tables s) (l1_index cap_id) of
           None \<Rightarrow> (None, s)
         | Some t \<Rightarrow>
             (case t (l2_index cap_id) of
                None \<Rightarrow> (None, s)
              | Some e \<Rightarrow>
                  let s1 = s\<lparr>l2_tables := bt_insert (l1_index cap_id)
                               (t(l2_index cap_id := None)) (l2_tables s)\<rparr> in
                  if ent_capability e = cap
                  then (Some (ent_object e),
                        s1\<lparr>sp_used := sp_used s - 1, total_caps := total_caps s - 1\<rparr>)
                  else (None, s1))))"

section \<open>Whole-space operations\<close>

definition increment_generation :: "capability_space \<Rightarrow> capability_space" where
  "increment_generation s = s\<lparr>sp_generation := sp_generation s + 1\<rparr>"

definition space_clear :: "capability_space \<Rightarrow> capability_space" where
  "space_clear s =
     s\<lparr>l1_table := empty_table, l2_tables := [], sp_used := 0, total_caps := 0\<rparr>"

definition byte_indices :: "u8 list" where
  "byte_indices = map word_of_nat [0..<256]"

definition table_entries :: "cap_table \<Rightarrow> capability_entry list" where
  "table_entries t = List.map_filter t byte_indices"

definition space_entries :: "capability_space \<Rightarrow> capability_entry list" where
  "space_entries s =
     table_entries (l1_table s) @ concat (map (\<lambda>b. table_entries (snd b)) (l2_tables s))"

text \<open>
  \<open>iter_capabilities\<close>: the callback sees the entries in slot order, L1 before L2, carries its own
  state and stops the iteration by returning \<open>False\<close>.
\<close>

fun iter_until :: "('e \<Rightarrow> 's \<Rightarrow> bool \<times> 's) \<Rightarrow> 'e list \<Rightarrow> 's \<Rightarrow> 's" where
  "iter_until f [] st = st"
| "iter_until f (e # es) st = (case f e st of (True, st') \<Rightarrow> iter_until f es st' | (False, st') \<Rightarrow> st')"

definition iter_capabilities ::
    "capability_space \<Rightarrow> (capability_entry \<Rightarrow> 's \<Rightarrow> bool \<times> 's) \<Rightarrow> 's \<Rightarrow> 's" where
  "iter_capabilities s f st = iter_until f (space_entries s) st"

definition copy_table :: "cap_table \<Rightarrow> cap_table" where
  "copy_table t = (\<lambda>i. map_option (\<lambda>e. e\<lparr>ent_usage_count := 0\<rparr>) (t i))"

text \<open>The loop over the source's L2 tables: each is copied and inserted under its key.\<close>

fun clone_l2_tables :: "(u16, cap_table) btree_map \<Rightarrow> capability_space \<Rightarrow> capability_space" where
  "clone_l2_tables [] d = d"
| "clone_l2_tables ((k, t) # m) d =
     clone_l2_tables m
       (d\<lparr>l2_tables := bt_insert k (copy_table t) (l2_tables d),
          total_caps := total_caps d + of_nat (length (table_entries t))\<rparr>)"

definition space_clone_from :: "capability_space \<Rightarrow> capability_space \<Rightarrow> capability_space" where
  "space_clone_from s other =
     (let s1 = space_clear s;
          s2 = s1\<lparr>l1_table := copy_table (l1_table other),
                  total_caps := total_caps s1 + of_nat (length (table_entries (l1_table other)))\<rparr>;
          s3 = clone_l2_tables (l2_tables other) s2
      in s3\<lparr>sp_generation := sp_generation other\<rparr>)"

definition space_revoke_all :: "capability_space \<Rightarrow> capability_space" where
  "space_revoke_all s = increment_generation (space_clear s)"

definition space_revoke :: "capability_space \<Rightarrow> u64 \<Rightarrow> (unit, kernel_error) result \<times> capability_space" where
  "space_revoke s cap_id =
     (let token = from_id_and_generation cap_id (sp_generation s) in
      case space_remove s token of
        (Some _, s') \<Rightarrow> (Ok (), s')
      | (None, s') \<Rightarrow> (Err (KeInvalidCapability cap_id KcNotFound), s'))"

text \<open>\<open>next\<close> is the function's own static counter \<open>NEXT_ID\<close>.\<close>

definition space_create_capability :: "u64 \<Rightarrow> capability_space \<Rightarrow> rights \<Rightarrow> object_ref \<Rightarrow>
    (u64, kernel_error) result \<times> u64 \<times> capability_space" where
  "space_create_capability next s r obj =
     (if next > 0xFFFFFFFFFFFF then (Err (KeResourceExhausted ''capability IDs''), next + 1, s)
      else
        (case space_insert s (token_new next (sp_generation s) 0 0) obj r of
           (Ok _, s') \<Rightarrow> (Ok next, next + 1, s')
         | (Err e, s') \<Rightarrow> (Err e, next + 1, s')))"

section \<open>The per-CPU cache\<close>

record cached_cap =
  cc_capability :: capability_token
  cc_rights :: rights
  cc_last_used :: u64

record capability_cache =
  cache_slots :: "4 word \<Rightarrow> cached_cap option"
  cache_hits :: u64
  cache_misses :: u64

definition cache_new :: capability_cache where
  "cache_new = \<lparr>cache_slots = (\<lambda>_. None), cache_hits = 0, cache_misses = 0\<rparr>"

definition cache_lookup :: "capability_cache \<Rightarrow> capability_token \<Rightarrow> rights option \<times> capability_cache" where
  "cache_lookup c cap =
     (let hash = ucast (token_id cap AND 0xF) in
      case cache_slots c hash of
        Some cached \<Rightarrow>
          if cc_capability cached = cap
          then (Some (cc_rights cached), c\<lparr>cache_hits := cache_hits c + 1\<rparr>)
          else (None, c\<lparr>cache_misses := cache_misses c + 1\<rparr>)
      | None \<Rightarrow> (None, c\<lparr>cache_misses := cache_misses c + 1\<rparr>))"

text \<open>\<open>now\<close> is the time stamp counter read by \<open>read_timestamp\<close>.\<close>

definition cache_insert :: "u64 \<Rightarrow> capability_cache \<Rightarrow> capability_token \<Rightarrow> rights \<Rightarrow> capability_cache" where
  "cache_insert now c cap r =
     c\<lparr>cache_slots := (cache_slots c)(ucast (token_id cap AND 0xF) :=
        Some \<lparr>cc_capability = cap, cc_rights = r, cc_last_used = now\<rparr>)\<rparr>"

section \<open>Slots\<close>

datatype slot = L1Slot u8 | L2Slot u16 u8

definition slot_of :: "u64 \<Rightarrow> slot" where
  "slot_of cap_id =
     (if cap_id < L1_SIZE then L1Slot (ucast cap_id)
      else L2Slot (l1_index cap_id) (l2_index cap_id))"

fun slot_entry :: "capability_space \<Rightarrow> slot \<Rightarrow> capability_entry option" where
  "slot_entry s (L1Slot i) = l1_table s i"
| "slot_entry s (L2Slot k j) =
     (case bt_get (l2_tables s) k of None \<Rightarrow> None | Some t \<Rightarrow> t j)"

definition space_wf :: "capability_space \<Rightarrow> bool" where
  "space_wf s =
     (bt_wf (l2_tables s) \<and>
      (\<forall>sl e. slot_entry s sl = Some e \<longrightarrow> slot_of (token_id (ent_capability e)) = sl))"

definition space_view :: "capability_space \<Rightarrow> capability_token \<Rightarrow> (object_ref \<times> rights) option" where
  "space_view s cap =
     (case slot_entry s (slot_of (token_id cap)) of
        Some e \<Rightarrow> if ent_capability e = cap then Some (ent_object e, ent_rights e) else None
      | None \<Rightarrow> None)"

lemma get_entry_slot: "get_entry s cap_id = slot_entry s (slot_of cap_id)"
  by (simp add: get_entry_def slot_of_def)

lemma space_wfD:
  "space_wf s \<Longrightarrow> slot_entry s sl = Some e \<Longrightarrow> slot_of (token_id (ent_capability e)) = sl"
  by (simp add: space_wf_def)

lemma space_view_alt:
  "space_view s cap = map_option (\<lambda>e. (ent_object e, ent_rights e))
     (matching cap (slot_entry s (slot_of (token_id cap))))"
  by (simp add: space_view_def matching_def split: option.splits)

lemma entry_new_simps [simp]:
  "ent_capability (entry_new cap obj r) = cap" "ent_object (entry_new cap obj r) = obj"
  "ent_rights (entry_new cap obj r) = r"
  "ent_inheritance_flags (entry_new cap obj r) = INHERITABLE"
  by (simp_all add: entry_new_def)

lemma touch_simps [simp]:
  "ent_capability (touch e) = ent_capability e" "ent_object (touch e) = ent_object e"
  "ent_rights (touch e) = ent_rights e"
  "ent_inheritance_flags (touch e) = ent_inheritance_flags e"
  by (simp_all add: touch_def)

subsection \<open>What each operation does to the slots\<close>

lemma slot_entry_cong:
  "l1_table s' = l1_table s \<Longrightarrow> l2_tables s' = l2_tables s \<Longrightarrow> slot_entry s' = slot_entry s"
  by (rule ext) (case_tac x; simp)

lemma slot_entry_l1_upd:
  "slot_entry (s\<lparr>l1_table := (l1_table s)(i := v)\<rparr>) = (slot_entry s)(L1Slot i := v)"
  by (rule ext) (case_tac x; simp)

lemma slot_entry_l2_upd:
  assumes "bt_get (l2_tables s) k = Some t \<or> t = empty_table \<and> bt_get (l2_tables s) k = None"
  shows "slot_entry (s\<lparr>l2_tables := bt_insert k (t(j := v)) (l2_tables s)\<rparr>) =
    (slot_entry s)(L2Slot k j := v)"
proof (rule ext)
  fix x
  show "slot_entry (s\<lparr>l2_tables := bt_insert k (t(j := v)) (l2_tables s)\<rparr>) x =
      ((slot_entry s)(L2Slot k j := v)) x"
    using assms by (cases x) (auto simp: bt_simps empty_table_def)
qed

lemma slot_entry_insert_Ok:
  assumes ins: "space_insert s cap obj r = (Ok u, s')"
  shows "slot_entry s (slot_of (token_id cap)) = None" (is ?free)
    and "slot_entry s' = (slot_entry s)(slot_of (token_id cap) \<mapsto> entry_new cap obj r)" (is ?upd)
    and "sp_used s' = sp_used s + 1" "total_caps s' = total_caps s + 1" "sp_used s < sp_quota s"
    and "sp_quota s' = sp_quota s" "sp_generation s' = sp_generation s"
    and "bt_wf (l2_tables s) \<Longrightarrow> bt_wf (l2_tables s')"
proof -
  let ?id = "token_id cap" and ?e = "entry_new cap obj r"
  have quota: "\<not> sp_quota s \<le> sp_used s"
    using ins by (auto simp: space_insert_def)
  have "?free \<and> ?upd \<and> sp_used s' = sp_used s + 1 \<and> total_caps s' = total_caps s + 1 \<and>
      sp_quota s' = sp_quota s \<and> sp_generation s' = sp_generation s \<and>
      (bt_wf (l2_tables s) \<longrightarrow> bt_wf (l2_tables s'))"
  proof (cases "?id < L1_SIZE")
    case True
    with ins quota show ?thesis
      by (auto simp: space_insert_def Let_def slot_of_def slot_entry_l1_upd [symmetric]
          split: option.splits intro: slot_entry_cong)
  next
    case False
    define t where
      "t = (case bt_get (l2_tables s) (l1_index ?id) of Some t \<Rightarrow> t | None \<Rightarrow> empty_table)"
    let ?m = "bt_insert (l1_index ?id) (t(l2_index ?id \<mapsto> ?e)) (l2_tables s)"
    from False ins quota
    have free: "t (l2_index ?id) = None"
      and s': "s' = s\<lparr>l2_tables := ?m, sp_used := sp_used s + 1, total_caps := total_caps s + 1\<rparr>"
      by (auto simp: space_insert_def Let_def t_def split: option.splits)
    have "slot_entry s' = slot_entry (s\<lparr>l2_tables := ?m\<rparr>)"
      by (rule slot_entry_cong) (simp_all add: s')
    also have "\<dots> = (slot_entry s)(slot_of ?id \<mapsto> ?e)"
      using False by (subst slot_entry_l2_upd) (auto simp: t_def slot_of_def split: option.splits)
    finally show ?thesis using False free s'
      by (auto simp: slot_of_def t_def bt_wf_insert split: option.splits)
  qed
  with quota show ?free ?upd "sp_used s' = sp_used s + 1" "total_caps s' = total_caps s + 1"
    "sp_used s < sp_quota s" "sp_quota s' = sp_quota s" "sp_generation s' = sp_generation s"
    "bt_wf (l2_tables s) \<Longrightarrow> bt_wf (l2_tables s')" by auto
qed

lemma space_insert_Err:
  assumes "space_insert s cap obj r = (Err e, s')"
  shows "s' = s"
  using assms by (auto simp: space_insert_def Let_def empty_table_def split: if_splits option.splits)

lemma space_insert_result:
  "fst (space_insert s cap obj r) =
     (if sp_quota s \<le> sp_used s then Err (KeResourceExhausted ''capability quota'')
      else if slot_entry s (slot_of (token_id cap)) \<noteq> None
      then Err (KeAlreadyExists ''capability slot'' (token_id cap))
      else Ok ())"
  by (auto simp: space_insert_def Let_def slot_of_def empty_table_def split: option.splits)

lemma slot_entry_remove:
  "slot_entry (snd (space_remove s cap)) = (slot_entry s)(slot_of (token_id cap) := None)"
proof (rule ext)
  fix sl
  show "slot_entry (snd (space_remove s cap)) sl
      = ((slot_entry s)(slot_of (token_id cap) := None)) sl"
    by (cases sl) (auto simp: space_remove_def Let_def slot_of_def bt_simps split: option.splits)
qed

lemma space_remove_frame:
  "bt_wf (l2_tables s) \<Longrightarrow> bt_wf (l2_tables (snd (space_remove s cap)))"
  "sp_quota (snd (space_remove s cap)) = sp_quota s"
  "sp_generation (snd (space_remove s cap)) = sp_generation s"
  by (auto simp: space_remove_def Let_def bt_wf_insert split: option.splits)

lemma space_remove_result:
  "fst (space_remove s cap) =
     map_option ent_object (matching cap (slot_entry s (slot_of (token_id cap))))"
  by (auto simp: space_remove_def Let_def slot_of_def matching_def split: option.splits)

lemma space_remove_count:
  "sp_used (snd (space_remove s cap)) =
     (if fst (space_remove s cap) = None then sp_used s else sp_used s - 1)"
  "total_caps (snd (space_remove s cap)) =
     (if fst (space_remove s cap) = None then total_caps s else total_caps s - 1)"
  by (auto simp: space_remove_def Let_def split: option.splits)

subsection \<open>Lookup\<close>

lemma probe_hit:
  assumes wf: "space_wf s"
  shows "map_option fst (probe s cap) = matching cap (slot_entry s (slot_of (token_id cap)))"
proof (cases "token_id cap < L1_SIZE")
  case False
  then show ?thesis
    by (auto simp: probe_def Let_def slot_of_def matching_def split: option.splits)
next
  case True
  have "matching cap (slot_entry s (L2Slot (l1_index (token_id cap)) (l2_index (token_id cap)))) = None"
  proof (rule ccontr)
    assume "\<not> ?thesis"
    then obtain e where "slot_entry s (L2Slot (l1_index (token_id cap)) (l2_index (token_id cap))) = Some e"
      and "ent_capability e = cap"
      by (auto simp: matching_def split: option.splits if_splits)
    with wf have "slot_of (token_id cap) = L2Slot (l1_index (token_id cap)) (l2_index (token_id cap))"
      by (metis space_wfD)
    with True show False by (simp add: slot_of_def)
  qed
  with True show ?thesis
    by (auto simp: probe_def Let_def slot_of_def matching_def split: option.splits if_splits)
qed

lemma probe_state:
  assumes "probe s cap = Some (e, s')"
  shows "\<exists>sl. slot_entry s sl = Some e \<and> slot_entry s' = (slot_entry s)(sl \<mapsto> touch e)"
    and "sp_used s' = sp_used s" "total_caps s' = total_caps s" "sp_quota s' = sp_quota s"
    and "sp_generation s' = sp_generation s"
    and "bt_wf (l2_tables s) \<Longrightarrow> bt_wf (l2_tables s')"
    and "ent_capability e = cap"
proof -
  let ?id = "token_id cap"
  have "(\<exists>sl. slot_entry s sl = Some e \<and> slot_entry s' = (slot_entry s)(sl \<mapsto> touch e)) \<and>
    sp_used s' = sp_used s \<and> total_caps s' = total_caps s \<and> sp_quota s' = sp_quota s \<and>
    sp_generation s' = sp_generation s \<and> (bt_wf (l2_tables s) \<longrightarrow> bt_wf (l2_tables s')) \<and>
    ent_capability e = cap"
  proof (cases "?id < L1_SIZE \<and> matching cap (l1_table s (ucast ?id)) \<noteq> None")
    case True
    with assms have e: "slot_entry s (L1Slot (ucast ?id)) = Some e" "ent_capability e = cap"
      and s': "s' = s\<lparr>hits := hits s + 1, l1_table := (l1_table s)(ucast ?id := Some (touch e))\<rparr>"
      by (auto simp: probe_def Let_def matching_def split: option.splits if_splits)
    have "slot_entry s' = (slot_entry s)(L1Slot (ucast ?id) \<mapsto> touch e)"
      unfolding slot_entry_l1_upd [symmetric] by (rule slot_entry_cong) (simp_all add: s')
    with e s' show ?thesis by (auto intro!: exI [of _ "L1Slot (ucast ?id)"])
  next
    case False
    then obtain t where t: "bt_get (l2_tables s) (l1_index ?id) = Some t"
      "t (l2_index ?id) = Some e" "ent_capability e = cap"
      and s': "s' = s\<lparr>hits := hits s + 1, l2_tables := bt_insert (l1_index ?id)
        (t(l2_index ?id := Some (touch e))) (l2_tables s)\<rparr>"
      using assms by (auto simp: probe_def Let_def matching_def split: option.splits if_splits)
    have "slot_entry s' = (slot_entry s)(L2Slot (l1_index ?id) (l2_index ?id) \<mapsto> touch e)"
      using t by (subst slot_entry_l2_upd [symmetric]) (auto intro: slot_entry_cong simp: s')
    with t s' show ?thesis
      by (auto simp: bt_wf_insert intro!: exI [of _ "L2Slot (l1_index ?id) (l2_index ?id)"])
  qed
  then show "\<exists>sl. slot_entry s sl = Some e \<and> slot_entry s' = (slot_entry s)(sl \<mapsto> touch e)"
    "sp_used s' = sp_used s" "total_caps s' = total_caps s" "sp_quota s' = sp_quota s"
    "sp_generation s' = sp_generation s" "bt_wf (l2_tables s) \<Longrightarrow> bt_wf (l2_tables s')"
    "ent_capability e = cap" by auto
qed

lemma space_wf_touch:
  assumes wf: "space_wf s" and e: "slot_entry s sl = Some e"
    and s': "slot_entry s' = (slot_entry s)(sl \<mapsto> touch e)" and bt: "bt_wf (l2_tables s')"
  shows "space_wf s'" and "space_view s' = space_view s"
proof -
  show "space_wf s'" using wf e bt by (auto simp: space_wf_def s')
  show "space_view s' = space_view s"
    using e by (auto simp: space_view_def s' fun_eq_iff split: option.splits)
qed

lemma probe_wf:
  assumes "probe s cap = Some (e, s')" "space_wf s"
  shows "space_wf s'" "space_view s' = space_view s"
proof -
  obtain sl where "slot_entry s sl = Some e" "slot_entry s' = (slot_entry s)(sl \<mapsto> touch e)"
    using probe_state(1) [OF assms(1)] by blast
  moreover have "bt_wf (l2_tables s')"
    using probe_state(6) [OF assms(1)] assms(2) by (simp add: space_wf_def)
  ultimately show "space_wf s'" "space_view s' = space_view s"
    using space_wf_touch assms(2) by blast+
qed

lemma space_wf_stats [simp]:
  "space_wf (s\<lparr>misses := a\<rparr>) = space_wf s" "space_view (s\<lparr>misses := a\<rparr>) = space_view s"
  "space_wf (s\<lparr>lookups := b\<rparr>) = space_wf s" "space_view (s\<lparr>lookups := b\<rparr>) = space_view s"
  "space_wf (s\<lparr>sp_generation := g\<rparr>) = space_wf s"
  "space_view (s\<lparr>sp_generation := g\<rparr>) = space_view s"
proof -
  have "slot_entry (s\<lparr>misses := a\<rparr>) = slot_entry s" "slot_entry (s\<lparr>lookups := b\<rparr>) = slot_entry s"
    "slot_entry (s\<lparr>sp_generation := g\<rparr>) = slot_entry s"
    by (rule slot_entry_cong; simp)+
  then show "space_wf (s\<lparr>misses := a\<rparr>) = space_wf s" "space_view (s\<lparr>misses := a\<rparr>) = space_view s"
    "space_wf (s\<lparr>lookups := b\<rparr>) = space_wf s" "space_view (s\<lparr>lookups := b\<rparr>) = space_view s"
    "space_wf (s\<lparr>sp_generation := g\<rparr>) = space_wf s"
    "space_view (s\<lparr>sp_generation := g\<rparr>) = space_view s"
    by (simp_all add: space_wf_def space_view_def fun_eq_iff)
qed

lemma space_lookup_spec:
  assumes "space_wf s"
  shows "fst (space_lookup s cap) = map_option snd (space_view s cap)"
    and "space_view (snd (space_lookup s cap)) = space_view s"
    and "space_wf (snd (space_lookup s cap))"
proof -
  let ?s1 = "s\<lparr>lookups := lookups s + 1\<rparr>"
  have wf: "space_wf ?s1" using assms by simp
  have hit: "map_option fst (probe ?s1 cap) = matching cap (slot_entry s (slot_of (token_id cap)))"
    using probe_hit [OF wf] slot_entry_cong [of ?s1 s] by simp
  show "fst (space_lookup s cap) = map_option snd (space_view s cap)"
    unfolding space_view_alt hit [symmetric]
    by (auto simp: space_lookup_def Let_def option.map_comp split: option.splits)
  show "space_view (snd (space_lookup s cap)) = space_view s"
    using probe_wf(2) [OF _ wf] by (auto simp: space_lookup_def Let_def split: option.splits)
  show "space_wf (snd (space_lookup s cap))"
    using probe_wf(1) [OF _ wf] assms
    by (auto simp: space_lookup_def Let_def split: option.splits)
qed

lemma lookup_entry_spec:
  assumes "space_wf s"
  shows "fst (lookup_entry s cap) = space_view s cap"
    and "space_view (snd (lookup_entry s cap)) = space_view s"
    and "space_wf (snd (lookup_entry s cap))"
proof -
  show "fst (lookup_entry s cap) = space_view s cap"
    unfolding space_view_alt probe_hit [OF assms, symmetric]
    by (auto simp: lookup_entry_def option.map_comp split: option.splits)
  show "space_view (snd (lookup_entry s cap)) = space_view s"
    using probe_wf(2) [OF _ assms] by (auto simp: lookup_entry_def split: option.splits)
  show "space_wf (snd (lookup_entry s cap))"
    using probe_wf(1) [OF _ assms] assms by (auto simp: lookup_entry_def split: option.splits)
qed

lemma check_rights_spec:
  assumes "space_wf s"
  shows "fst (check_rights s cap required) =
      (case space_view s cap of Some (_, r) \<Rightarrow> rights_contains r required | None \<Rightarrow> False)"
    and "snd (check_rights s cap required) = snd (space_lookup s cap)"
  using space_lookup_spec(1) [OF assms, of cap]
  by (auto simp: check_rights_def split: prod.splits option.splits)

lemma space_insert_view:
  assumes wf: "space_wf s" and ins: "space_insert s cap obj r = (Ok u, s')"
  shows "space_view s' = (space_view s)(cap \<mapsto> (obj, r))"
    and "token_id c = token_id cap \<Longrightarrow> space_view s c = None"
    and "space_wf s'"
proof -
  note slots = slot_entry_insert_Ok(1,2,8) [OF ins]
  show "space_view s' = (space_view s)(cap \<mapsto> (obj, r))"
  proof (rule ext)
    fix c
    show "space_view s' c = ((space_view s)(cap \<mapsto> (obj, r))) c"
      using slots(1) by (auto simp: space_view_def slots(2) split: option.splits)
  qed
  show "token_id c = token_id cap \<Longrightarrow> space_view s c = None"
    using slots(1) by (simp add: space_view_def)
  show "space_wf s'" using wf slots by (auto simp: space_wf_def)
qed

lemma space_remove_view:
  assumes wf: "space_wf s"
  shows "space_view (snd (space_remove s cap)) =
      (\<lambda>c. if slot_of (token_id c) = slot_of (token_id cap) then None else space_view s c)"
    and "space_wf (snd (space_remove s cap))"
proof -
  show "space_view (snd (space_remove s cap)) =
      (\<lambda>c. if slot_of (token_id c) = slot_of (token_id cap) then None else space_view s c)"
    by (rule ext) (simp add: space_view_def slot_entry_remove)
  show "space_wf (snd (space_remove s cap))"
    using wf space_remove_frame(1) [of s cap] by (simp add: space_wf_def slot_entry_remove)
qed

section \<open>Entries and accounting\<close>

lemma byte_indices_code [code]: "byte_indices = map word_of_int [0..255]"
proof -
  have "map (word_of_int :: int \<Rightarrow> u8) (map int [0..<256]) = map word_of_int [0..255]"
    by (subst map_int_upt) simp
  then show ?thesis by (simp add: byte_indices_def o_def)
qed

lemma set_byte_indices: "set byte_indices = UNIV"
proof -
  have "x \<in> word_of_nat ` {0..<256}" for x :: u8
    by (rule image_eqI [of _ _ "unat x"]) (use unsigned_less [of x] in auto)
  then show ?thesis by (auto simp: byte_indices_def)
qed

lemma distinct_byte_indices: "distinct byte_indices"
  by (rule card_distinct) (simp add: set_byte_indices, simp add: byte_indices_def card_word)

lemma set_table_entries: "set (table_entries t) = {e. \<exists>i. t i = Some e}"
  by (auto simp: table_entries_def List.map_filter_def set_byte_indices image_iff) (force)

lemma length_table_entries: "length (table_entries t) = card (dom t)"
proof -
  have "length (table_entries t) = length (filter (\<lambda>i. t i \<noteq> None) byte_indices)"
    by (simp add: table_entries_def List.map_filter_def)
  also have "\<dots> = card {i. t i \<noteq> None}"
    using distinct_card [of "filter (\<lambda>i. t i \<noteq> None) byte_indices"]
    by (simp add: distinct_byte_indices set_byte_indices)
  finally show ?thesis by (simp add: dom_def)
qed

lemma finite_slots: "finite (A :: slot set)"
proof (rule finite_subset)
  show "A \<subseteq> range L1Slot \<union> (\<lambda>(k, j). L2Slot k j) ` UNIV"
    by (rule subsetI) (case_tac x; auto)
qed auto

lemma set_space_entries:
  assumes "bt_wf (l2_tables s)"
  shows "set (space_entries s) = {e. \<exists>sl. slot_entry s sl = Some e}"
proof -
  have "(\<exists>sl. slot_entry s sl = Some e) \<longleftrightarrow>
      (\<exists>i. l1_table s i = Some e) \<or> (\<exists>k t j. (k, t) \<in> set (l2_tables s) \<and> t j = Some e)" for e
  proof
    assume "\<exists>sl. slot_entry s sl = Some e"
    then obtain sl where "slot_entry s sl = Some e" by blast
    then show "(\<exists>i. l1_table s i = Some e) \<or> (\<exists>k t j. (k, t) \<in> set (l2_tables s) \<and> t j = Some e)"
      by (cases sl) (auto split: option.splits dest: bt_get_in)
  next
    assume "(\<exists>i. l1_table s i = Some e) \<or> (\<exists>k t j. (k, t) \<in> set (l2_tables s) \<and> t j = Some e)"
    then show "\<exists>sl. slot_entry s sl = Some e"
    proof
      assume "\<exists>i. l1_table s i = Some e"
      then show ?thesis by (metis slot_entry.simps(1))
    next
      assume "\<exists>k t j. (k, t) \<in> set (l2_tables s) \<and> t j = Some e"
      then obtain k t j where "bt_get (l2_tables s) k = Some t" "t j = Some e"
        using bt_get_iff [OF assms] by blast
      then have "slot_entry s (L2Slot k j) = Some e" by simp
      then show ?thesis by blast
    qed
  qed
  then show ?thesis by (force simp: space_entries_def set_table_entries)
qed

definition l2_slots :: "(u16, cap_table) btree_map \<Rightarrow> slot set" where
  "l2_slots m = {L2Slot k j | k j. \<exists>t. (k, t) \<in> set m \<and> t j \<noteq> None}"

lemma card_l2_slots:
  "bt_wf m \<Longrightarrow> card (l2_slots m) = length (concat (map (\<lambda>b. table_entries (snd b)) m))"
proof (induction m)
  case Nil
  then show ?case by (simp add: l2_slots_def)
next
  case (Cons b m)
  obtain k t where b: "b = (k, t)" by (cases b)
  have less: "\<forall>x \<in> set m. k < fst x" and wf: "bt_wf m"
    using Cons.prems by (auto simp: b bt_wf_def)
  have split: "l2_slots (b # m) = L2Slot k ` dom t \<union> l2_slots m"
    by (auto simp: l2_slots_def b)
  have "L2Slot k ` dom t \<inter> l2_slots m = {}"
    using less by (auto simp: l2_slots_def)
  then have "card (l2_slots (b # m)) = card (L2Slot k ` dom t) + card (l2_slots m)"
    unfolding split by (rule card_Un_disjoint [OF finite_slots finite_slots])
  also have "card (L2Slot k ` dom t) = card (dom t)"
    by (rule card_image) (simp add: inj_on_def)
  finally show ?case using Cons.IH [OF wf] by (simp add: length_table_entries b)
qed

lemma length_space_entries:
  assumes "bt_wf (l2_tables s)"
  shows "length (space_entries s) = card (dom (slot_entry s))"
proof -
  have "dom (slot_entry s) = L1Slot ` dom (l1_table s) \<union> l2_slots (l2_tables s)" (is "?D = _")
  proof (rule set_eqI)
    fix sl
    show "sl \<in> ?D \<longleftrightarrow> sl \<in> L1Slot ` dom (l1_table s) \<union> l2_slots (l2_tables s)"
      by (cases sl) (auto simp: l2_slots_def bt_get_iff [OF assms, symmetric] split: option.splits)
  qed
  moreover have "L1Slot ` dom (l1_table s) \<inter> l2_slots (l2_tables s) = {}"
    by (auto simp: l2_slots_def)
  ultimately have "card ?D = card (L1Slot ` dom (l1_table s)) + card (l2_slots (l2_tables s))"
    using card_Un_disjoint [OF finite_slots finite_slots] by simp
  also have "card (L1Slot ` dom (l1_table s)) = card (dom (l1_table s))"
    by (rule card_image) (simp add: inj_on_def)
  finally show ?thesis
    by (simp add: space_entries_def length_table_entries card_l2_slots [OF assms])
qed


definition accounted :: "capability_space \<Rightarrow> bool" where
  "accounted s =
     (bt_wf (l2_tables s) \<and> unat (sp_used s) = length (space_entries s) \<and>
      total_caps s = sp_used s \<and> sp_used s \<le> sp_quota s)"

lemma accounted_insert:
  assumes acc: "accounted s" and ins: "space_insert s cap obj r = (Ok u, s')"
  shows "accounted s'"
proof -
  note ins_facts = slot_entry_insert_Ok [OF ins]
  from acc have wf: "bt_wf (l2_tables s)" and n: "unat (sp_used s) = card (dom (slot_entry s))"
    and tot: "total_caps s = sp_used s" by (auto simp: accounted_def length_space_entries)
  have wf': "bt_wf (l2_tables s')" using ins_facts(8) wf .
  have "length (space_entries s') = Suc (card (dom (slot_entry s)))"
    using ins_facts(1) by (simp add: length_space_entries [OF wf'] ins_facts(2) finite_slots domIff)
  moreover have "unat (sp_used s') = Suc (unat (sp_used s))"
    using ins_facts(3,5) by (simp add: unat_inc)
  moreover have "sp_used s' \<le> sp_quota s'"
    using ins_facts(3,5,6) by (simp add: inc_le)
  ultimately show ?thesis using n wf' tot ins_facts(3,4) by (simp add: accounted_def)
qed

lemma accounted_remove:
  assumes acc: "accounted s" and present: "fst (space_remove s cap) \<noteq> None"
  shows "accounted (snd (space_remove s cap))"
proof -
  let ?s' = "snd (space_remove s cap)" and ?sl = "slot_of (token_id cap)"
  from acc have wf: "bt_wf (l2_tables s)" and n: "unat (sp_used s) = card (dom (slot_entry s))"
    and tot: "total_caps s = sp_used s" and q: "sp_used s \<le> sp_quota s"
    by (auto simp: accounted_def length_space_entries)
  have wf': "bt_wf (l2_tables ?s')" using space_remove_frame(1) wf .
  have occupied: "?sl \<in> dom (slot_entry s)"
    using present by (auto simp: space_remove_result matching_def split: option.splits)
  then have pos: "card (dom (slot_entry s)) \<noteq> 0" by (auto simp: finite_slots)
  then have used: "sp_used s \<noteq> 0" using n by auto
  have "length (space_entries ?s') = card (dom (slot_entry s)) - 1"
    using occupied by (simp add: length_space_entries [OF wf'] slot_entry_remove finite_slots)
  moreover have "unat (sp_used s - 1) = unat (sp_used s) - 1" by (rule unat_minus_one [OF used])
  moreover have "sp_used s - 1 \<le> sp_quota s"
    using q by (simp add: word_le_nat_alt unat_minus_one [OF used])
  ultimately show ?thesis
    using n wf' tot present by (auto simp: accounted_def space_remove_count space_remove_frame)
qed

lemma accounted_clear: "accounted (space_clear s)"
  by (simp add: accounted_def space_clear_def space_entries_def length_table_entries
      empty_table_def bt_wf_def flip: length_0_conv)


section \<open>Cloning\<close>

lemma clone_l2_tables_frame:
  "l1_table (clone_l2_tables m d) = l1_table d" "sp_used (clone_l2_tables m d) = sp_used d"
  "sp_quota (clone_l2_tables m d) = sp_quota d"
  "total_caps (clone_l2_tables m d) =
     total_caps d + of_nat (length (concat (map (\<lambda>b. table_entries (snd b)) m)))"
  "bt_wf (l2_tables d) \<Longrightarrow> bt_wf (l2_tables (clone_l2_tables m d))"
  by (induction m d rule: clone_l2_tables.induct) (simp_all add: bt_wf_insert)

lemma clone_l2_tables_get:
  "distinct (map fst m) \<Longrightarrow>
   bt_get (l2_tables (clone_l2_tables m d)) k =
     (case bt_get m k of Some t \<Rightarrow> Some (copy_table t) | None \<Rightarrow> bt_get (l2_tables d) k)"
proof (induction m d rule: clone_l2_tables.induct)
  case (2 k' t m d)
  then have "bt_get m k' = None" by (auto simp: bt_get_def map_of_eq_None_iff)
  with 2 show ?case by (auto simp: bt_simps bt_get_Cons split: option.splits)
qed (simp add: bt.get_empty)

lemma slot_entry_clone:
  assumes "bt_wf (l2_tables other)"
  shows "slot_entry (space_clone_from s other) sl =
    map_option (\<lambda>e. e\<lparr>ent_usage_count := 0\<rparr>) (slot_entry other sl)"
  using bt.distinct_bindings [OF assms]
  by (cases sl) (auto simp: space_clone_from_def Let_def space_clear_def clone_l2_tables_frame
      clone_l2_tables_get bt.get_empty copy_table_def split: option.splits)

lemma space_clone_from_spec:
  assumes wf: "space_wf other"
  shows "space_wf (space_clone_from s other)"
    and "space_view (space_clone_from s other) = space_view other"
    and "sp_used (space_clone_from s other) = 0"
    and "sp_quota (space_clone_from s other) = sp_quota s"
    and "total_caps (space_clone_from s other) = of_nat (length (space_entries other))"
    and "length (space_entries (space_clone_from s other)) = length (space_entries other)"
proof -
  let ?c = "space_clone_from s other"
  have bt: "bt_wf (l2_tables other)" using wf by (simp add: space_wf_def)
  have bt': "bt_wf (l2_tables ?c)"
    by (simp add: space_clone_from_def Let_def clone_l2_tables_frame space_clear_def bt.wf_empty)
  show "space_wf ?c" using wf bt' by (auto simp: space_wf_def slot_entry_clone [OF bt])
  show "space_view ?c = space_view other"
    by (auto simp: space_view_def slot_entry_clone [OF bt] fun_eq_iff split: option.splits)
  show "sp_used ?c = 0" "sp_quota ?c = sp_quota s"
    by (simp_all add: space_clone_from_def Let_def clone_l2_tables_frame space_clear_def)
  show "total_caps ?c = of_nat (length (space_entries other))"
    by (simp add: space_clone_from_def Let_def clone_l2_tables_frame space_clear_def
        space_entries_def)
  have "dom (slot_entry ?c) = dom (slot_entry other)"
    by (auto simp: dom_def slot_entry_clone [OF bt])
  then show "length (space_entries ?c) = length (space_entries other)"
    by (simp add: length_space_entries bt bt')
qed


section \<open>The interface to the clients of a space\<close>

text \<open>
  What the manager and the inheritance code rely on. \<open>view\<close> is the abstract contents of a store;
  an insertion either adds one token whose identifier was free or changes nothing.
\<close>

locale cap_store =
  fixes view :: "'s \<Rightarrow> capability_token \<Rightarrow> (object_ref \<times> rights) option"
    and lookup :: "'s \<Rightarrow> capability_token \<Rightarrow> rights option \<times> 's"
    and insert :: "'s \<Rightarrow> capability_token \<Rightarrow> object_ref \<Rightarrow> rights \<Rightarrow>
      (unit, kernel_error) result \<times> 's"
    and wf :: "'s \<Rightarrow> bool"
  assumes lookup_result: "wf s \<Longrightarrow> fst (lookup s cap) = map_option snd (view s cap)"
    and lookup_view: "wf s \<Longrightarrow> view (snd (lookup s cap)) = view s"
    and lookup_wf: "wf s \<Longrightarrow> wf (snd (lookup s cap))"
    and insert_Ok: "wf s \<Longrightarrow> insert s cap obj r = (Ok u, s') \<Longrightarrow> view s' = (view s)(cap \<mapsto> (obj, r))"
    and insert_fresh: "wf s \<Longrightarrow> insert s cap obj r = (Ok u, s') \<Longrightarrow> token_id c = token_id cap \<Longrightarrow>
      view s c = None"
    and insert_wf: "wf s \<Longrightarrow> insert s cap obj r = (Ok u, s') \<Longrightarrow> wf s'"
    and insert_Err: "insert s cap obj r = (Err e, s') \<Longrightarrow> s' = s"
begin

lemma insert_state_wf: "wf s \<Longrightarrow> wf (snd (insert s cap obj r))"
  by (cases "insert s cap obj r"; cases "fst (insert s cap obj r)")
    (auto dest: insert_wf insert_Err)

lemma insert_view:
  "wf s \<Longrightarrow> view (snd (insert s cap obj r)) =
     (if is_ok (fst (insert s cap obj r)) then (view s)(cap \<mapsto> (obj, r)) else view s)"
  by (cases "insert s cap obj r"; cases "fst (insert s cap obj r)")
    (auto dest: insert_Ok insert_Err)

lemma insert_then_lookup:
  assumes "wf s" "insert s cap obj r = (Ok u, s')"
  shows "fst (lookup s' cap) = Some r"
  using assms by (simp add: lookup_result insert_wf insert_Ok)

text \<open>A batch of insertions, failures ignored, as the inheritance policies make them.\<close>

lemma insert_all_wf:
  "wf s \<Longrightarrow> wf (fold (\<lambda>(cap, obj, r) s. snd (insert s cap obj r)) xs s)"
  by (induction xs arbitrary: s) (auto simp: insert_state_wf)

lemma insert_all_view:
  "wf s \<Longrightarrow> view (fold (\<lambda>(cap, obj, r) s. snd (insert s cap obj r)) xs s) c = Some (obj, r) \<Longrightarrow>
   view s c = Some (obj, r) \<or> (c, obj, r) \<in> set xs"
proof (induction xs arbitrary: s)
  case (Cons x xs)
  obtain cap obj' r' where x: "x = (cap, obj', r')" by (cases x)
  have "view (snd (insert s cap obj' r')) c = Some (obj, r) \<or> (c, obj, r) \<in> set xs"
    using Cons.IH [OF insert_state_wf [OF Cons.prems(1)]] Cons.prems(2) by (simp add: x)
  then show ?case
    using Cons.prems(1) by (auto simp: insert_view x split: if_splits)
qed simp

lemma insert_all_keeps:
  "wf s \<Longrightarrow> view s c = Some v \<Longrightarrow>
   view (fold (\<lambda>(cap, obj, r) s. snd (insert s cap obj r)) xs s) c = Some v"
proof (induction xs arbitrary: s)
  case (Cons x xs)
  obtain cap obj r where x: "x = (cap, obj, r)" by (cases x)
  have "view (snd (insert s cap obj r)) c = Some v"
  proof (cases "insert s cap obj r")
    case (Pair res s')
    show ?thesis
    proof (cases res)
      case (Ok u)
      with Pair have ins: "insert s cap obj r = (Ok u, s')" by simp
      have "c \<noteq> cap"
        using insert_fresh [OF Cons.prems(1) ins, of c] Cons.prems(2) by auto
      with insert_Ok [OF Cons.prems(1) ins] Cons.prems(2) Pair show ?thesis by simp
    next
      case (Err e)
      with Pair Cons.prems(2) insert_Err show ?thesis by force
    qed
  qed
  with Cons.IH [OF insert_state_wf [OF Cons.prems(1)]] show ?case by (simp add: x)
qed simp

end

interpretation cs: cap_store space_view space_lookup space_insert space_wf
proof
  show "space_insert s cap obj r = (Err e, s') \<Longrightarrow> s' = s" for s cap obj r e s'
    by (rule space_insert_Err)
qed (auto simp: space_lookup_spec space_insert_view)

section \<open>Sequences of operations\<close>

datatype space_op =
    OpInsert capability_token object_ref rights
  | OpLookup capability_token
  | OpLookupEntry capability_token
  | OpCheck capability_token rights
  | OpRemove capability_token
  | OpRevoke u64
  | OpClear
  | OpRevokeAll
  | OpIncrementGeneration

fun space_step :: "capability_space \<Rightarrow> space_op \<Rightarrow> capability_space" where
  "space_step s (OpInsert cap obj r) = snd (space_insert s cap obj r)"
| "space_step s (OpLookup cap) = snd (space_lookup s cap)"
| "space_step s (OpLookupEntry cap) = snd (lookup_entry s cap)"
| "space_step s (OpCheck cap r) = snd (check_rights s cap r)"
| "space_step s (OpRemove cap) = snd (space_remove s cap)"
| "space_step s (OpRevoke cap_id) = snd (space_revoke s cap_id)"
| "space_step s OpClear = space_clear s"
| "space_step s OpRevokeAll = space_revoke_all s"
| "space_step s OpIncrementGeneration = increment_generation s"

definition space_run :: "capability_space \<Rightarrow> space_op list \<Rightarrow> capability_space" where
  "space_run = foldl space_step"

text \<open>A removal or revocation by a token other than the stored one is what the bookkeeping misses.\<close>

fun op_exact :: "capability_space \<Rightarrow> space_op \<Rightarrow> bool" where
  "op_exact s (OpRemove cap) =
     (case get_entry s (token_id cap) of None \<Rightarrow> True | Some e \<Rightarrow> ent_capability e = cap)"
| "op_exact s (OpRevoke cap_id) =
     (let cap = from_id_and_generation cap_id (sp_generation s) in
      case get_entry s (token_id cap) of None \<Rightarrow> True | Some e \<Rightarrow> ent_capability e = cap)"
| "op_exact s _ = True"

fun run_exact :: "capability_space \<Rightarrow> space_op list \<Rightarrow> bool" where
  "run_exact s [] = True"
| "run_exact s (x # xs) = (op_exact s x \<and> run_exact (space_step s x) xs)"

lemma space_revoke_state:
  "snd (space_revoke s cap_id) =
     snd (space_remove s (from_id_and_generation cap_id (sp_generation s)))"
  by (auto simp: space_revoke_def Let_def split: prod.splits option.splits)

lemma space_wf_clear: "space_wf (space_clear s)"
  unfolding space_wf_def
proof (intro conjI allI impI)
  fix sl e
  assume "slot_entry (space_clear s) sl = Some e"
  then show "slot_of (token_id (ent_capability e)) = sl"
    by (cases sl) (auto simp: space_clear_def empty_table_def bt.get_empty)
qed (simp add: space_clear_def bt.wf_empty)

lemma space_wf_with_quota: "space_wf (space_with_quota q)" "accounted (space_with_quota q)"
proof -
  have "space_with_quota q = space_clear (space_with_quota q)"
    by (simp add: space_clear_def space_with_quota_def)
  then show "space_wf (space_with_quota q)" "accounted (space_with_quota q)"
    using space_wf_clear accounted_clear by metis+
qed

lemma space_wf_step: "space_wf s \<Longrightarrow> space_wf (space_step s x)"
  by (cases x) (simp_all add: cs.insert_state_wf space_lookup_spec lookup_entry_spec check_rights_spec
      space_remove_view space_revoke_state space_wf_clear space_revoke_all_def
      increment_generation_def)

lemma accounted_entries_cong:
  assumes "accounted s" "dom (slot_entry s') = dom (slot_entry s)" "bt_wf (l2_tables s')"
    "sp_used s' = sp_used s" "total_caps s' = total_caps s" "sp_quota s' = sp_quota s"
  shows "accounted s'"
  using assms by (simp add: accounted_def length_space_entries)

lemma accounted_probe:
  assumes "probe s cap = Some (e, s')" "accounted s"
  shows "accounted s'"
proof (rule accounted_entries_cong [OF assms(2)])
  show "dom (slot_entry s') = dom (slot_entry s)"
    using probe_state(1) [OF assms(1)] by (auto simp: dom_def split: if_splits)
qed (use assms probe_state [OF assms(1)] in \<open>auto simp: accounted_def\<close>)

lemma accounted_stats [simp]:
  "accounted (s\<lparr>misses := a\<rparr>) = accounted s" "accounted (s\<lparr>lookups := a\<rparr>) = accounted s"
  "accounted (s\<lparr>sp_generation := g\<rparr>) = accounted s"
  by (simp_all add: accounted_def space_entries_def)

lemma accounted_lookups:
  assumes "accounted s"
  shows "accounted (snd (space_lookup s cap))" "accounted (snd (lookup_entry s cap))"
    "accounted (snd (check_rights s cap r))"
proof -
  show "accounted (snd (space_lookup s cap))"
    using assms accounted_probe by (auto simp: space_lookup_def Let_def split: option.splits)
  then show "accounted (snd (check_rights s cap r))"
    by (auto simp: check_rights_def split: prod.splits option.splits)
  show "accounted (snd (lookup_entry s cap))"
    using assms accounted_probe by (auto simp: lookup_entry_def split: option.splits)
qed

lemma accounted_remove_exact:
  assumes "accounted s" "op_exact s (OpRemove cap)"
  shows "accounted (snd (space_remove s cap))"
proof (cases "fst (space_remove s cap) = None")
  case True
  with assms(2) have "slot_entry s (slot_of (token_id cap)) = None"
    by (auto simp: get_entry_slot space_remove_result matching_def split: option.splits)
  then have "snd (space_remove s cap) = s"
    by (auto simp: space_remove_def slot_of_def Let_def split: option.splits if_splits)
  with assms(1) show ?thesis by simp
qed (rule accounted_remove [OF assms(1)])

lemma accounted_step: "accounted s \<Longrightarrow> op_exact s x \<Longrightarrow> accounted (space_step s x)"
proof (cases x)
  case (OpInsert cap obj r)
  assume acc: "accounted s"
  show ?thesis
    using acc accounted_insert [OF acc] space_insert_Err
    by (cases "space_insert s cap obj r"; cases "fst (space_insert s cap obj r)")
      (force simp: OpInsert)+
next
  case (OpRevoke cap_id)
  assume "accounted s" "op_exact s x"
  then show ?thesis
    using accounted_remove_exact [of s "from_id_and_generation cap_id (sp_generation s)"]
    by (simp add: OpRevoke space_revoke_state Let_def)
qed (simp_all add: accounted_lookups accounted_remove_exact accounted_clear space_revoke_all_def
    increment_generation_def)


lemma space_run_wf: "space_wf s \<Longrightarrow> space_wf (space_run s xs)"
  unfolding space_run_def by (induction xs arbitrary: s) (simp_all add: space_wf_step)

lemma space_run_accounted: "accounted s \<Longrightarrow> run_exact s xs \<Longrightarrow> accounted (space_run s xs)"
  unfolding space_run_def by (induction xs arbitrary: s) (simp_all add: accounted_step)

lemma space_step_quota: "sp_quota (space_step s x) = sp_quota s"
proof (cases x)
  case (OpInsert cap obj r)
  then show ?thesis
    by (cases "space_insert s cap obj r"; cases "fst (space_insert s cap obj r)")
      (auto dest: slot_entry_insert_Ok(6) space_insert_Err)
qed (auto simp: space_lookup_def lookup_entry_def check_rights_def Let_def space_remove_frame
    space_revoke_state space_clear_def space_revoke_all_def increment_generation_def
    dest: probe_state(4) split: option.splits)

lemma space_run_quota: "sp_quota (space_run s xs) = sp_quota s"
  unfolding space_run_def by (induction xs arbitrary: s) (simp_all add: space_step_quota)

section \<open>Properties\<close>

text \<open>
  C4. The two-level space implements a partial map from tokens to objects and rights, in every
  state that any sequence of operations reaches from a fresh space: a lookup returns exactly what
  the map holds and does not change it, a successful insertion adds exactly its token, whose
  identifier was free, a failed one changes nothing, and a removal takes away exactly what occupied
  the token's slot.
\<close>

theorem space_implements_map:
  assumes "s = space_run (space_with_quota q) xs"
  shows "fst (space_lookup s cap) = map_option snd (space_view s cap) \<and>
    fst (lookup_entry s cap) = space_view s cap \<and>
    space_view (snd (space_lookup s cap)) = space_view s \<and>
    (\<forall>s'. space_insert s cap obj r = (Ok (), s') \<longrightarrow>
      space_view s' = (space_view s)(cap \<mapsto> (obj, r)) \<and>
      (\<forall>c. token_id c = token_id cap \<longrightarrow> space_view s c = None)) \<and>
    (\<forall>e s'. space_insert s cap obj r = (Err e, s') \<longrightarrow> s' = s) \<and>
    space_view (snd (space_remove s cap)) =
      (\<lambda>c. if slot_of (token_id c) = slot_of (token_id cap) then None else space_view s c)"
  using space_run_wf [OF space_wf_with_quota(1), of q xs, folded assms]
  by (auto simp: space_lookup_spec lookup_entry_spec space_remove_view
      dest: space_insert_Err space_insert_view)

lemmas space_eval = space_run_def space_with_quota_def space_insert_def space_view_def
  space_remove_def space_lookup_def lookup_entry_def probe_def matching_def get_entry_def
  slot_of_def L1_SIZE_def token_id_def Let_def entry_new_def empty_table_def touch_def

theorem space_implements_map_witness:
  "fst (space_lookup (space_run (space_with_quota 4) [OpInsert 0x30000000005 (ObjDevice 7) 3])
      0x30000000005) = Some 3"
  using space_implements_map [OF refl, of 4 "[OpInsert 0x30000000005 (ObjDevice 7) 3]" "0x30000000005"
      "ObjDevice 7" 3]
  by (simp add: space_eval l1_index_def l2_index_def bt_get_def)



lemma wrong_token_cycle:
  assumes wf: "bt_wf (l2_tables s)" and ids: "token_id cap' = token_id cap" "cap' \<noteq> cap"
    and empty: "slot_entry s = (\<lambda>_. None)" and room: "sp_used s < sp_quota s"
    and s'_def: "s' = space_step (space_step s (OpInsert cap obj r)) (OpRemove cap')"
  shows "slot_entry s' = (\<lambda>_. None)" "sp_used s' = sp_used s + 1" "sp_quota s' = sp_quota s"
    "bt_wf (l2_tables s')"
proof -
  obtain s1 where s1: "space_insert s cap obj r = (Ok (), s1)"
    using space_insert_result [of s cap obj r] empty room
    by (cases "space_insert s cap obj r") (auto simp: not_le split: if_splits)
  note ins = slot_entry_insert_Ok [OF s1]
  have s': "s' = snd (space_remove s1 cap')" by (simp add: s'_def s1)
  show "slot_entry s' = (\<lambda>_. None)"
    by (simp add: s' slot_entry_remove ins(2) empty ids fun_eq_iff)
  have "fst (space_remove s1 cap') = None"
    using ids by (auto simp: space_remove_result ins(2) matching_def)
  then show "sp_used s' = sp_used s + 1" "sp_quota s' = sp_quota s" "bt_wf (l2_tables s')"
    using ins wf by (simp_all add: s' space_remove_count space_remove_frame)
qed

lemma wrong_token_cycles:
  assumes ids: "token_id cap' = token_id cap" "cap' \<noteq> cap" and n: "n \<le> unat q"
    and s_def: "s = space_run (space_with_quota q)
      (concat (replicate n [OpInsert cap obj r, OpRemove cap']))"
  shows "slot_entry s = (\<lambda>_. None) \<and> sp_used s = of_nat n \<and> sp_quota s = q \<and> bt_wf (l2_tables s)"
  using n unfolding s_def
proof (induction n)
  case 0
  have "slot_entry (space_with_quota q) sl = None" for sl
    by (cases sl) (simp_all add: space_with_quota_def empty_table_def bt.get_empty)
  then show ?case
    by (auto simp: space_run_def) (simp_all add: space_with_quota_def bt.wf_empty)
next
  case (Suc n)
  let ?ops = "\<lambda>n. concat (replicate n [OpInsert cap obj r, OpRemove cap'])"
  let ?s = "space_run (space_with_quota q) (?ops n)"
  have IH: "slot_entry ?s = (\<lambda>_. None)" "sp_used ?s = of_nat n" "sp_quota ?s = q"
    "bt_wf (l2_tables ?s)" using Suc by auto
  have "n < unat q" using Suc.prems by simp
  moreover have "unat q < 2 ^ 64" using unsigned_less [of q] by simp
  ultimately have "(of_nat n :: usize) < q" by (simp add: word_less_nat_alt unat_of_nat)
  then have room: "sp_used ?s < sp_quota ?s" by (simp add: IH)
  have "?ops (Suc n) = ?ops n @ [OpInsert cap obj r, OpRemove cap']"
    by (metis concat_append concat.simps append_Nil2 replicate_Suc replicate_append_same)
  then have step: "space_run (space_with_quota q) (?ops (Suc n)) =
      space_step (space_step ?s (OpInsert cap obj r)) (OpRemove cap')"
    by (simp add: space_run_def)
  show ?case unfolding step
    using wrong_token_cycle [OF IH(4) ids IH(1) room refl] by (simp add: IH)
qed

text \<open>
  \<open>remove\<close> does not compare the token before it empties the slot: a token with the same
  identifier and another generation, type or flags takes the capability away, reports that nothing
  was there and leaves the quota counter as it was. A process that repeats this on a fresh space
  has an empty space that refuses every insertion.
\<close>

theorem wrong_token_removal_leaks_quota:
  assumes "token_id cap' = token_id cap" "cap' \<noteq> cap"
    and "s = space_run (space_with_quota q)
      (concat (replicate (unat q) [OpInsert cap obj r, OpRemove cap']))"
  shows "space_view s = Map.empty \<and>
    space_insert s c obj' r' = (Err (KeResourceExhausted ''capability quota''), s)"
  using wrong_token_cycles [OF assms(1,2) order_refl assms(3)]
  by (auto simp: space_view_def space_insert_def fun_eq_iff)

theorem wrong_token_removal_leaks_quota_witness:
  "fst (space_insert (space_run (space_with_quota 1)
      [OpInsert 5 (ObjDevice 7) 3, OpRemove 0x1000000000005]) 6 (ObjDevice 8) 1) =
   Err (KeResourceExhausted ''capability quota'')"
  using wrong_token_removal_leaks_quota [OF _ _ refl, of "0x1000000000005" 5 1 "ObjDevice 7" 3
      6 "ObjDevice 8" 1]
  by (simp add: token_id_def)

text \<open>
  \<open>clone_from\<close> copies every capability but not the quota counter, which stays zero. Once the
  clone gives one capability back, the counter wraps to its maximum and the space refuses every
  further insertion.
\<close>

theorem clone_from_loses_quota_count:
  assumes "space_wf other" and "space_view other cap = Some (obj, r)"
    and "c = space_clone_from s other"
  shows "space_view c = space_view other \<and> sp_used c = 0 \<and>
    length (space_entries c) = length (space_entries other) \<and>
    fst (space_remove c cap) = Some obj \<and> sp_used (snd (space_remove c cap)) = - 1 \<and>
    fst (space_insert (snd (space_remove c cap)) cap' obj' r') =
      Err (KeResourceExhausted ''capability quota'')"
proof -
  note clone = space_clone_from_spec [OF assms(1), of s, folded assms(3)]
  have gone: "fst (space_remove c cap) = Some obj"
    using assms(2) unfolding clone(2) [symmetric]
    by (auto simp: space_remove_result space_view_alt)
  then have used: "sp_used (snd (space_remove c cap)) = - 1"
    by (simp add: space_remove_count clone)
  then show ?thesis using clone gone by (simp add: space_insert_def)
qed

theorem clone_from_loses_quota_count_witness:
  "\<exists>other. fst (space_insert (snd (space_remove (space_clone_from space_new other) 5))
      6 (ObjDevice 8) 1) = Err (KeResourceExhausted ''capability quota'')"
proof -
  let ?o = "space_run (space_with_quota 2) [OpInsert 5 (ObjDevice 7) 3]"
  have "space_wf ?o" by (rule space_run_wf [OF space_wf_with_quota(1)])
  moreover have "space_view ?o 5 = Some (ObjDevice 7, 3)" by (simp add: space_eval)
  ultimately show ?thesis
    using clone_from_loses_quota_count [OF _ _ refl] by blast
qed

end
