(* ===== verification/Cap_Manager.thy ===== *)
theory Cap_Manager
  imports Cap_Space
begin

text \<open>
  The global capability manager of \<open>src/kernel/src/cap/manager.rs\<close>, the boot-time setup of
  \<open>src/kernel/src/cap/mod.rs\<close> and the checked memory operations of
  \<open>src/kernel/src/cap/memory_integration.rs\<close>.

  The state \<open>cap_system\<close> holds the manager with its registry and identifier allocator, the
  capability spaces, the process identifiers the process server knows and the calls made to the
  audit log. A \<open>&CapabilitySpace\<close> argument is the key of a space in \<open>sys_spaces\<close>, so that an operation on
  two spaces is also modelled where both arguments are the same space. Every method holds the
  locks it needs, and each is one step.
\<close>

section \<open>State\<close>

datatype cap_error =
    CeInvalidCapability | CeInsufficientRights | CeCapabilityRevoked | CeOutOfMemory
  | CeInvalidObject | CePermissionDenied | CeAlreadyExists | CeNotFound | CeIdExhausted
  | CeQuotaExceeded

record registry_entry =
  re_object :: object_ref
  re_generation :: u8
  re_revoked :: bool

record cap_manager =
  cm_registry :: "(u64, registry_entry) btree_map"
  cm_next_id :: u64
  cm_recycled :: "u64 btree_set"
  cm_global_generation :: u8
  cm_created :: u64
  cm_delegated :: u64
  cm_revoked :: u64
  cm_deleted :: u64

definition manager_new :: cap_manager where
  "manager_new =
     \<lparr>cm_registry = [], cm_next_id = 1, cm_recycled = [], cm_global_generation = 0,
      cm_created = 0, cm_delegated = 0, cm_revoked = 0, cm_deleted = 0\<rparr>"

text \<open>One call of \<open>security::audit::log_capability_op(pid, cap_id, result)\<close>.\<close>

record audit_call =
  ac_pid :: u64
  ac_cap_id :: u64
  ac_result :: int

record cap_system =
  sys_manager :: cap_manager
  sys_spaces :: "u64 \<Rightarrow> capability_space"
  sys_pids :: "u64 list"
  sys_audit :: "audit_call list"

definition log_capability_op :: "u64 \<Rightarrow> u64 \<Rightarrow> int \<Rightarrow> cap_system \<Rightarrow> cap_system" where
  "log_capability_op pid cap_id res sys =
     sys\<lparr>sys_audit := sys_audit sys @ [\<lparr>ac_pid = pid, ac_cap_id = cap_id, ac_result = res\<rparr>]\<rparr>"

definition set_space :: "u64 \<Rightarrow> capability_space \<Rightarrow> cap_system \<Rightarrow> cap_system" where
  "set_space sp s sys = sys\<lparr>sys_spaces := (sys_spaces sys)(sp := s)\<rparr>"

definition set_manager :: "cap_manager \<Rightarrow> cap_system \<Rightarrow> cap_system" where
  "set_manager m sys = sys\<lparr>sys_manager := m\<rparr>"

section \<open>Operations\<close>

text \<open>
  \<open>IdAllocator\<close>: the least recycled identifier, or the next new one. The compare-exchange loop
  ends in one atomic increment.
\<close>

definition id_allocate :: "cap_manager \<Rightarrow> (u64, cap_error) result \<times> cap_manager" where
  "id_allocate m =
     (case cm_recycled m of
        cid # _ \<Rightarrow> (Ok cid, m\<lparr>cm_recycled := bs_remove cid (cm_recycled m)\<rparr>)
      | [] \<Rightarrow>
          (let current = cm_next_id m in
           if current > MAX_CAP_ID then (Err CeIdExhausted, m)
           else (Ok current, m\<lparr>cm_next_id := current + 1\<rparr>)))"

definition id_recycle :: "u64 \<Rightarrow> cap_manager \<Rightarrow> cap_manager" where
  "id_recycle cid m = m\<lparr>cm_recycled := bs_insert cid (cm_recycled m)\<rparr>"

definition create_capability :: "object_ref \<Rightarrow> rights \<Rightarrow> u64 \<Rightarrow> cap_system \<Rightarrow>
    (capability_token, cap_error) result \<times> cap_system" where
  "create_capability obj r sp sys =
     (if \<not> object_is_valid obj then (Err CeInvalidObject, sys)
      else
        (case id_allocate (sys_manager sys) of
           (Err e, m) \<Rightarrow> (Err e, set_manager m sys)
         | (Ok cid, m) \<Rightarrow>
             let cap = token_new cid (cm_global_generation m) (type_code obj) (rights_to_flags r);
                 m1 = m\<lparr>cm_registry := bt_insert cid
                          \<lparr>re_object = obj, re_generation = 0, re_revoked = False\<rparr> (cm_registry m)\<rparr>;
                 sys1 = set_manager m1 sys
             in (case space_insert (sys_spaces sys1 sp) cap obj r of
                   (Err _, s') \<Rightarrow> (Err CeOutOfMemory, set_space sp s' sys1)
                 | (Ok _, s') \<Rightarrow>
                     (Ok cap,
                      log_capability_op 0 cid 0
                        (set_manager (m1\<lparr>cm_created := cm_created m1 + 1\<rparr>) (set_space sp s' sys1))))))"

definition delegate :: "capability_token \<Rightarrow> u64 \<Rightarrow> u64 \<Rightarrow> rights \<Rightarrow> cap_system \<Rightarrow>
    (capability_token, cap_error) result \<times> cap_system" where
  "delegate cap source target new_rights sys =
     (case space_lookup (sys_spaces sys source) cap of
        (None, s) \<Rightarrow> (Err CeInvalidCapability, set_space source s sys)
      | (Some source_rights, s) \<Rightarrow>
          let sys1 = set_space source s sys; m = sys_manager sys1 in
          if \<not> rights_contains source_rights GRANT then (Err CePermissionDenied, sys1)
          else
            (case bt_get (cm_registry m) (token_id cap) of
               None \<Rightarrow> (Err CeInvalidCapability, sys1)
             | Some entry \<Rightarrow>
                 if re_revoked entry then (Err CeCapabilityRevoked, sys1)
                 else
                   let obj = re_object entry;
                       derived = rights_intersection source_rights new_rights;
                       new_cap = token_new (token_id cap) (token_generation cap)
                                   (token_cap_type cap) (rights_to_flags derived)
                   in (case space_insert (sys_spaces sys1 target) new_cap obj derived of
                         (Err _, t) \<Rightarrow> (Err CeOutOfMemory, set_space target t sys1)
                       | (Ok _, t) \<Rightarrow>
                           (Ok new_cap,
                            log_capability_op 0 (token_id cap) 0
                              (set_manager (m\<lparr>cm_delegated := cm_delegated m + 1\<rparr>)
                                (set_space target t sys1))))))"

text \<open>
  \<open>broadcast_revocation\<close> asks the process server for its process identifiers and tells each one;
  \<open>notify_capability_revoked\<close> makes one audit call with result 2.
\<close>

fun notify_all :: "u64 \<Rightarrow> u64 list \<Rightarrow> cap_system \<Rightarrow> cap_system" where
  "notify_all cap_id [] sys = sys"
| "notify_all cap_id (pid # pids) sys = notify_all cap_id pids (log_capability_op pid cap_id 2 sys)"

definition broadcast_revocation :: "capability_token \<Rightarrow> cap_system \<Rightarrow> cap_system" where
  "broadcast_revocation cap sys = notify_all (token_id cap) (sys_pids sys) sys"

definition manager_revoke :: "capability_token \<Rightarrow> cap_system \<Rightarrow>
    (unit, cap_error) result \<times> cap_system" where
  "manager_revoke cap sys =
     (let m = sys_manager sys in
      case bt_get (cm_registry m) (token_id cap) of
        None \<Rightarrow> (Err CeInvalidCapability, sys)
      | Some entry \<Rightarrow>
          if re_revoked entry then (Ok (), sys)
          else
            let entry' = entry\<lparr>re_revoked := True, re_generation := re_generation entry + 1\<rparr>;
                m1 = m\<lparr>cm_registry := bt_insert (token_id cap) entry' (cm_registry m),
                       cm_revoked := cm_revoked m + 1\<rparr>
            in (Ok (), broadcast_revocation cap
                         (log_capability_op 0 (token_id cap) 0 (set_manager m1 sys))))"

definition manager_delete :: "capability_token \<Rightarrow> cap_system \<Rightarrow>
    (unit, cap_error) result \<times> cap_system" where
  "manager_delete cap sys =
     (let m = sys_manager sys in
      case bt_get (cm_registry m) (token_id cap) of
        None \<Rightarrow> (Err CeNotFound, sys)
      | Some _ \<Rightarrow>
          let m1 = id_recycle (token_id cap)
                     (m\<lparr>cm_registry := bt_remove (token_id cap) (cm_registry m)\<rparr>)
          in (Ok (), set_manager (m1\<lparr>cm_deleted := cm_deleted m1 + 1\<rparr>) sys))"

definition manager_is_valid :: "capability_token \<Rightarrow> cap_manager \<Rightarrow> bool" where
  "manager_is_valid cap m =
     (case bt_get (cm_registry m) (token_id cap) of
        Some entry \<Rightarrow> \<not> re_revoked entry \<and> re_generation entry = token_generation cap
      | None \<Rightarrow> False)"

definition check_capability :: "capability_token \<Rightarrow> rights \<Rightarrow> u64 \<Rightarrow> cap_system \<Rightarrow>
    (unit, cap_error) result \<times> cap_system" where
  "check_capability cap required sp sys =
     (case check_rights (sys_spaces sys sp) cap required of
        (False, s) \<Rightarrow> (Err CeInsufficientRights, set_space sp s sys)
      | (True, s) \<Rightarrow>
          if \<not> manager_is_valid cap (sys_manager sys) then (Err CeCapabilityRevoked, set_space sp s sys)
          else (Ok (), set_space sp s sys))"

section \<open>Boot\<close>

text \<open>
  \<open>cap::init\<close>. \<open>sp\<close> is the kernel's own space. The root token goes into that space only: nothing
  registers it with the manager, whose allocator starts at the root's identifier.
\<close>

definition root_token :: capability_token where
  "root_token = token_new 1 0 0 (rights_to_flags RIGHTS_ALL)"

definition root_object :: object_ref where
  "root_object = ObjMemory 0 (- 1) attributes_normal"

definition cap_init :: "u64 \<Rightarrow> cap_system \<Rightarrow> capability_token option \<times> cap_system" where
  "cap_init sp sys =
     (case space_insert (space_with_quota 4096) root_token root_object RIGHTS_ALL of
        (Err _, s) \<Rightarrow> (None, set_space sp s sys)
      | (Ok _, s) \<Rightarrow> (Some root_token, set_space sp s sys))"

section \<open>Memory capabilities\<close>

definition MAP :: rights where "MAP = MODIFY"
definition SHARE :: rights where "SHARE = GRANT"

definition create_memory_capability :: "usize \<Rightarrow> usize \<Rightarrow> memory_attributes \<Rightarrow> rights \<Rightarrow> u64 \<Rightarrow>
    cap_system \<Rightarrow> (capability_token, cap_error) result \<times> cap_system" where
  "create_memory_capability base sz attributes r sp sys =
     create_capability (ObjMemory base sz attributes) r sp sys"

definition check_map_permission :: "capability_token \<Rightarrow> u64 \<Rightarrow> cap_system \<Rightarrow>
    (unit, cap_error) result \<times> cap_system" where
  "check_map_permission cap sp sys = check_capability cap MAP sp sys"

definition check_read_permission :: "capability_token \<Rightarrow> u64 \<Rightarrow> cap_system \<Rightarrow>
    (unit, cap_error) result \<times> cap_system" where
  "check_read_permission cap sp sys = check_capability cap READ sp sys"

definition check_write_permission :: "capability_token \<Rightarrow> u64 \<Rightarrow> cap_system \<Rightarrow>
    (unit, cap_error) result \<times> cap_system" where
  "check_write_permission cap sp sys = check_capability cap WRITE sp sys"

definition check_execute_permission :: "capability_token \<Rightarrow> u64 \<Rightarrow> cap_system \<Rightarrow>
    (unit, cap_error) result \<times> cap_system" where
  "check_execute_permission cap sp sys = check_capability cap EXECUTE sp sys"

datatype memory_access_type = MaRead | MaWrite | MaExecute

fun access_rights :: "memory_access_type \<Rightarrow> rights" where
  "access_rights MaRead = READ"
| "access_rights MaWrite = WRITE"
| "access_rights MaExecute = EXECUTE"

text \<open>\<open>addr.checked_add(size)\<close> fails on overflow; \<open>base + cap_size\<close> is unchecked and wraps.\<close>

definition check_memory_access :: "capability_token \<Rightarrow> u64 \<Rightarrow> usize \<Rightarrow> usize \<Rightarrow>
    memory_access_type \<Rightarrow> cap_system \<Rightarrow> (unit, cap_error) result \<times> cap_system" where
  "check_memory_access cap sp addr sz access_type sys =
     (case check_capability cap (access_rights access_type) sp sys of
        (Err e, sys1) \<Rightarrow> (Err e, sys1)
      | (Ok _, sys1) \<Rightarrow>
          (case lookup_entry (sys_spaces sys1 sp) cap of
             (Some (ObjMemory base cap_size _, _), s) \<Rightarrow>
               (if unat addr + unat sz \<ge> 2 ^ 64 then (Err CeInvalidCapability, set_space sp s sys1)
                else if addr < base \<or> addr + sz > base + cap_size
                then (Err CeInsufficientRights, set_space sp s sys1)
                else (Ok (), set_space sp s sys1))
           | (_, s) \<Rightarrow> (Ok (), set_space sp s sys1)))"

text \<open>
  \<open>mm::PageFlags\<close>, and \<open>map_memory_with_capability\<close>. The second component of the result is the
  request \<open>vas.map_page(virt_addr, flags)\<close> made to the address space of the current process, if
  there is one; its outcome is only printed. The physical address and the size are unused.
\<close>

type_synonym page_flags = u64

definition PF_WRITABLE :: page_flags where "PF_WRITABLE = 2"
definition PF_NO_EXECUTE :: page_flags where "PF_NO_EXECUTE = push_bit 63 1"
definition PF_EXECUTABLE :: page_flags where "PF_EXECUTABLE = 0"

definition pf_contains :: "page_flags \<Rightarrow> page_flags \<Rightarrow> bool" where
  "pf_contains flags other \<longleftrightarrow> flags AND other = other"

definition map_memory_with_capability :: "bool \<Rightarrow> capability_token \<Rightarrow> u64 \<Rightarrow> usize \<Rightarrow> page_flags \<Rightarrow>
    cap_system \<Rightarrow> (unit, cap_error) result \<times> (usize \<times> page_flags) option \<times> cap_system" where
  "map_memory_with_capability has_process cap sp virt flags sys =
     (case check_map_permission cap sp sys of
        (Err e, sys1) \<Rightarrow> (Err e, None, sys1)
      | (Ok _, sys1) \<Rightarrow>
          (case (if pf_contains flags PF_WRITABLE then check_write_permission cap sp sys1
                 else (Ok (), sys1)) of
             (Err e, sys2) \<Rightarrow> (Err e, None, sys2)
           | (Ok _, sys2) \<Rightarrow>
               (case (if pf_contains flags PF_EXECUTABLE then check_execute_permission cap sp sys2
                      else (Ok (), sys2)) of
                  (Err e, sys3) \<Rightarrow> (Err e, None, sys3)
                | (Ok _, sys3) \<Rightarrow> (Ok (), if has_process then Some (virt, flags) else None, sys3))))"

definition share_memory_capability :: "capability_token \<Rightarrow> u64 \<Rightarrow> u64 \<Rightarrow> rights \<Rightarrow> cap_system \<Rightarrow>
    (capability_token, cap_error) result \<times> cap_system" where
  "share_memory_capability cap source target new_rights sys =
     (case check_capability cap SHARE source sys of
        (Err e, sys1) \<Rightarrow> (Err e, sys1)
      | (Ok _, sys1) \<Rightarrow> delegate cap source target new_rights sys1)"

text \<open>The loop of \<open>create_shared_memory\<close> over the processes to share with; it stops at an error.\<close>

fun share_with_all :: "usize \<Rightarrow> usize \<Rightarrow> (rights \<times> u64) list \<Rightarrow> capability_token list \<Rightarrow>
    cap_system \<Rightarrow> (capability_token list, cap_error) result \<times> cap_system" where
  "share_with_all phys sz [] caps sys = (Ok caps, sys)"
| "share_with_all phys sz ((r, sp) # rest) caps sys =
     (case create_memory_capability phys sz attributes_normal r sp sys of
        (Err e, sys1) \<Rightarrow> (Err e, sys1)
      | (Ok cap, sys1) \<Rightarrow> share_with_all phys sz rest (caps @ [cap]) sys1)"

text \<open>\<open>phys\<close> is the first frame the frame allocator hands out, or \<open>None\<close> where it fails.\<close>

definition create_shared_memory :: "u64 option \<Rightarrow> usize \<Rightarrow> u64 \<Rightarrow> (rights \<times> u64) list \<Rightarrow>
    cap_system \<Rightarrow> (usize \<times> capability_token list, cap_error) result \<times> cap_system" where
  "create_shared_memory frame sz owner share_with sys =
     (let phys = (case frame of Some f \<Rightarrow> f * 4096 | None \<Rightarrow> 0) in
      case create_memory_capability phys sz attributes_normal (READ OR WRITE OR MAP OR SHARE) owner sys of
        (Err e, sys1) \<Rightarrow> (Err e, sys1)
      | (Ok cap, sys1) \<Rightarrow>
          (case share_with_all phys sz share_with [cap] sys1 of
             (Err e, sys2) \<Rightarrow> (Err e, sys2)
           | (Ok caps, sys2) \<Rightarrow> (Ok (phys, caps), sys2)))"

section \<open>Views and invariant\<close>

definition holds :: "cap_system \<Rightarrow> u64 \<Rightarrow> capability_token \<Rightarrow> (object_ref \<times> rights) option" where
  "holds sys sp cap = space_view (sys_spaces sys sp) cap"

definition registered :: "cap_system \<Rightarrow> u64 \<Rightarrow> registry_entry option" where
  "registered sys cid = bt_get (cm_registry (sys_manager sys)) cid"

definition spaces_wf :: "cap_system \<Rightarrow> bool" where
  "spaces_wf sys \<longleftrightarrow> (\<forall>sp. space_wf (sys_spaces sys sp))"

definition ids_wf :: "cap_manager \<Rightarrow> bool" where
  "ids_wf m \<longleftrightarrow>
     bt_wf (cm_registry m) \<and> sorted_wrt (<) (cm_recycled m) \<and>
     0 < cm_next_id m \<and> cm_next_id m \<le> 0x1000000000000 \<and> cm_global_generation m = 0 \<and>
     (\<forall>cid \<in> set (cm_recycled m).
        0 < cid \<and> cid < cm_next_id m \<and> bt_get (cm_registry m) cid = None) \<and>
     (\<forall>cid. bt_get (cm_registry m) cid \<noteq> None \<longrightarrow> 0 < cid \<and> cid < cm_next_id m)"

definition sys_wf :: "cap_system \<Rightarrow> bool" where
  "sys_wf sys \<longleftrightarrow> spaces_wf sys \<and> ids_wf (sys_manager sys)"

lemma sys_wfD:
  assumes "sys_wf sys"
  shows "space_wf (sys_spaces sys sp)" "spaces_wf sys" "ids_wf (sys_manager sys)"
  using assms by (auto simp: sys_wf_def spaces_wf_def)

lemma update_simps [simp]:
  "sys_manager (set_space sp s sys) = sys_manager sys"
  "sys_spaces (set_space sp s sys) = (sys_spaces sys)(sp := s)"
  "sys_audit (set_space sp s sys) = sys_audit sys"
  "sys_pids (set_space sp s sys) = sys_pids sys"
  "sys_manager (set_manager m sys) = m" "sys_spaces (set_manager m sys) = sys_spaces sys"
  "sys_audit (set_manager m sys) = sys_audit sys" "sys_pids (set_manager m sys) = sys_pids sys"
  "sys_manager (log_capability_op p i r sys) = sys_manager sys"
  "sys_spaces (log_capability_op p i r sys) = sys_spaces sys"
  "sys_pids (log_capability_op p i r sys) = sys_pids sys"
  by (simp_all add: set_space_def set_manager_def log_capability_op_def)

lemma notify_all_simps [simp]:
  "sys_manager (notify_all i pids sys) = sys_manager sys"
  "sys_spaces (notify_all i pids sys) = sys_spaces sys"
  "sys_pids (notify_all i pids sys) = sys_pids sys"
  "sys_audit (notify_all i pids sys) =
     sys_audit sys @ map (\<lambda>pid. \<lparr>ac_pid = pid, ac_cap_id = i, ac_result = 2\<rparr>) pids"
  by (induction i pids sys rule: notify_all.induct) (simp_all add: log_capability_op_def)

lemma broadcast_simps [simp]:
  "sys_manager (broadcast_revocation cap sys) = sys_manager sys"
  "sys_spaces (broadcast_revocation cap sys) = sys_spaces sys"
  by (simp_all add: broadcast_revocation_def)

text \<open>A write of one space that keeps its view keeps the whole view.\<close>

lemma set_space_same_view:
  assumes "sys_wf sys" "space_view s = space_view (sys_spaces sys sp)" "space_wf s"
  shows "holds (set_space sp s sys) = holds sys" "registered (set_space sp s sys) = registered sys"
    "sys_wf (set_space sp s sys)"
proof -
  show h: "holds (set_space sp s sys) = holds sys"
    using assms(2) by (intro ext) (simp add: holds_def)
  show "registered (set_space sp s sys) = registered sys" by (intro ext) (simp add: registered_def)
  show "sys_wf (set_space sp s sys)"
    using assms(1,3) by (auto simp: sys_wf_def spaces_wf_def)
qed

lemma id_allocate_Ok:
  assumes "id_allocate m = (Ok cid, m')" "ids_wf m"
  shows "0 < cid" "cid \<le> 0xFFFFFFFFFFFF" "bt_get (cm_registry m) cid = None"
    "cm_registry m' = cm_registry m" "cm_global_generation m' = 0"
    "cm_next_id m \<le> cm_next_id m'" "cid < cm_next_id m'"
    "cm_recycled m = [] \<longrightarrow> cm_recycled m' = []"
    "ids_wf (m'\<lparr>cm_registry := bt_insert cid e (cm_registry m')\<rparr>)"
proof -
  have "0 < cid \<and> cid \<le> 0xFFFFFFFFFFFF \<and> bt_get (cm_registry m) cid = None \<and>
    cm_registry m' = cm_registry m \<and> cm_global_generation m' = 0 \<and>
    cm_next_id m \<le> cm_next_id m' \<and> cid < cm_next_id m' \<and>
    (cm_recycled m = [] \<longrightarrow> cm_recycled m' = []) \<and>
    ids_wf (m'\<lparr>cm_registry := bt_insert cid e (cm_registry m')\<rparr>)"
  proof (cases "cm_recycled m")
    case Nil
    with assms(1) have cid: "cid = cm_next_id m" "cm_next_id m \<le> 0xFFFFFFFFFFFF"
      and m': "m' = m\<lparr>cm_next_id := cid + 1\<rparr>"
      by (auto simp: id_allocate_def Let_def MAX_CAP_ID_eq not_less split: if_splits)
    have lt: "cid < cid + 1" "cid + 1 \<le> 0x1000000000000"
    proof -
      have "unat cid \<le> unat (0xFFFFFFFFFFFF :: u64)" using cid by (simp only: word_le_nat_alt)
      then have "unat (cid + 1) = unat cid + 1" "unat cid + 1 \<le> 0x1000000000000"
        by (simp_all add: unat_word_ariths)
      then show "cid < cid + 1" "cid + 1 \<le> 0x1000000000000"
        by (simp_all add: word_less_nat_alt word_le_nat_alt)
    qed
    have "bt_get (cm_registry m) cid = None"
      using assms(2) cid(1) by (force simp: ids_wf_def)
    then show ?thesis
      using assms(2) cid lt Nil unfolding m' ids_wf_def
      by (auto simp: bt_simps bt_wf_insert)
  next
    case (Cons a rest)
    with assms(1) have m': "cid = a" "m' = m\<lparr>cm_recycled := bs_remove a (cm_recycled m)\<rparr>"
      by (auto simp: id_allocate_def)
    have a: "0 < a" "a < cm_next_id m" "bt_get (cm_registry m) a = None" "cm_next_id m \<le> 0x1000000000000"
      using assms(2) Cons by (auto simp: ids_wf_def)
    from a have "unat a < unat (0x1000000000000 :: u64)"
      by (meson order_less_le_trans word_less_nat_alt)
    then have "a \<le> 0xFFFFFFFFFFFF" by (simp add: word_le_nat_alt)
    then show ?thesis
      using assms(2) a Cons unfolding m' ids_wf_def
      by (auto simp: bt_simps bt_wf_insert bs.elems_remove bs_wf_remove)
  qed
  then show "0 < cid" "cid \<le> 0xFFFFFFFFFFFF" "bt_get (cm_registry m) cid = None"
    "cm_registry m' = cm_registry m" "cm_global_generation m' = 0"
    "cm_next_id m \<le> cm_next_id m'" "cid < cm_next_id m'"
    "cm_recycled m = [] \<longrightarrow> cm_recycled m' = []"
    "ids_wf (m'\<lparr>cm_registry := bt_insert cid e (cm_registry m')\<rparr>)"
    by blast+
qed

lemma id_allocate_Err: "id_allocate m = (Err e, m') \<Longrightarrow> m' = m \<and> e = CeIdExhausted"
  by (auto simp: id_allocate_def Let_def split: list.splits if_splits)

text \<open>Every way \<open>create_capability\<close> can end.\<close>

lemma create_capability_cases:
  assumes "create_capability obj r sp sys = (res, sys')" "sys_wf sys"
  obtains (refused) e where "res = Err e" "sys' = sys" "e \<noteq> CeOutOfMemory"
  | (full) cid where "res = Err CeOutOfMemory" "sys_wf sys'" "holds sys' = holds sys"
      "registered sys cid = None"
      "registered sys' = (registered sys)(cid \<mapsto> \<lparr>re_object = obj, re_generation = 0, re_revoked = False\<rparr>)"
      "cm_recycled (sys_manager sys) = [] \<longrightarrow> cm_recycled (sys_manager sys') = []"
  | (created) cid cap where "res = Ok cap" "sys_wf sys'" "token_id cap = cid"
      "cap = token_new cid 0 (type_code obj) (rights_to_flags r)"
      "holds sys' = (holds sys)(sp := (holds sys sp)(cap \<mapsto> (obj, r)))"
      "registered sys cid = None"
      "registered sys' = (registered sys)(cid \<mapsto> \<lparr>re_object = obj, re_generation = 0, re_revoked = False\<rparr>)"
      "cm_recycled (sys_manager sys) = [] \<longrightarrow> cm_recycled (sys_manager sys') = []"
      "\<forall>c. token_id c = cid \<longrightarrow> holds sys sp c = None"
proof -
  have wf: "ids_wf (sys_manager sys)" using assms(2) by (rule sys_wfD)
  consider "\<not> object_is_valid obj"
    | e m' where "object_is_valid obj" "id_allocate (sys_manager sys) = (Err e, m')"
    | cid m' where "object_is_valid obj" "id_allocate (sys_manager sys) = (Ok cid, m')"
    by (metis result.exhaust surj_pair)
  then show thesis
  proof cases
    case 1
    then show thesis using assms(1) refused by (auto simp: create_capability_def)
  next
    case 2
    then have "m' = sys_manager sys" "e = CeIdExhausted" using id_allocate_Err by blast+
    then show thesis using 2 assms(1) refused by (auto simp: create_capability_def set_manager_def)
  next
    case 3
    note al = id_allocate_Ok [OF 3(2) wf]
    let ?e = "\<lparr>re_object = obj, re_generation = 0, re_revoked = False\<rparr>"
    define cap where "cap = token_new cid 0 (type_code obj) (rights_to_flags r)"
    define m1 where "m1 = m'\<lparr>cm_registry := bt_insert cid ?e (cm_registry m')\<rparr>"
    have tid: "token_id cap = cid" unfolding cap_def using al(2) by (rule token_id_new_small)
    have reg: "bt_get (cm_registry m1) = (bt_get (cm_registry (sys_manager sys)))(cid \<mapsto> ?e)"
      unfolding m1_def using al(4) by (intro ext) (simp add: bt_simps)
    have m1: "ids_wf m1" "cm_next_id m1 = cm_next_id m'"
      unfolding m1_def using al(9) by simp_all
    obtain ir s' where ins: "space_insert (sys_spaces sys sp) cap obj r = (ir, s')" by force
    note eq = assms(1) [unfolded create_capability_def]
    show thesis
    proof (cases ir)
      case (Err e)
      have s': "s' = sys_spaces sys sp" using ins Err by (auto dest: space_insert_Err)
      have res: "res = Err CeOutOfMemory" "sys' = set_space sp s' (set_manager m1 sys)"
        using eq 3 ins Err al(5) by (auto simp: Let_def cap_def m1_def)
      have h: "holds sys' = holds sys"
        unfolding res s' by (intro ext) (simp add: holds_def)
      show thesis
      proof (rule full [of cid])
        show "sys_wf sys'"
          using sys_wfD [OF assms(2)] m1 by (simp add: res s' sys_wf_def spaces_wf_def)
        show "registered sys' = (registered sys)(cid \<mapsto> ?e)"
          using reg by (intro ext) (simp add: registered_def res)
      qed (use res h al in \<open>simp_all add: registered_def m1_def\<close>)
    next
      case (Ok u)
      note iv = space_insert_view [OF sys_wfD(1) [OF assms(2)] ins [unfolded Ok]]
      have res: "res = Ok cap"
        "sys' = log_capability_op 0 cid 0
                  (set_manager (m1\<lparr>cm_created := cm_created m1 + 1\<rparr>) (set_space sp s' (set_manager m1 sys)))"
        using eq 3 ins Ok al(5) by (auto simp: Let_def cap_def m1_def)
      have h: "holds sys' = (holds sys)(sp := (holds sys sp)(cap \<mapsto> (obj, r)))"
        by (intro ext) (simp add: holds_def res iv(1))
      show thesis
      proof (rule created [of cap cid])
        show "registered sys' = (registered sys)(cid \<mapsto> ?e)"
          using reg by (intro ext) (simp add: registered_def res)
        show "sys_wf sys'"
          using sys_wfD [OF assms(2)] iv(3) m1 by (simp add: res sys_wf_def spaces_wf_def ids_wf_def)
      qed (use res h al tid cap_def iv(2) in \<open>simp_all add: registered_def m1_def holds_def\<close>)
    qed
  qed
qed
lemma delegate_cases:
  assumes "delegate cap source target new_rights sys = (res, sys')" "sys_wf sys"
  obtains (refused) e where "res = Err e" "sys_wf sys'" "holds sys' = holds sys"
      "registered sys' = registered sys" "cm_next_id (sys_manager sys') = cm_next_id (sys_manager sys)"
      "cm_recycled (sys_manager sys') = cm_recycled (sys_manager sys)"
  | (delegated) src_obj src_rights entry new_cap where "res = Ok new_cap" "sys_wf sys'"
      "holds sys source cap = Some (src_obj, src_rights)" "rights_contains src_rights GRANT"
      "registered sys (token_id cap) = Some entry" "\<not> re_revoked entry"
      "new_cap = token_new (token_id cap) (token_generation cap) (token_cap_type cap)
         (rights_to_flags (rights_intersection src_rights new_rights))"
      "token_id new_cap = token_id cap"
      "holds sys' = (holds sys)(target := (holds sys target)
         (new_cap \<mapsto> (re_object entry, rights_intersection src_rights new_rights)))"
      "registered sys' = registered sys" "cm_next_id (sys_manager sys') = cm_next_id (sys_manager sys)"
      "cm_recycled (sys_manager sys') = cm_recycled (sys_manager sys)"
proof -
  obtain lr s where lk: "space_lookup (sys_spaces sys source) cap = (lr, s)" by force
  note wf = sys_wfD(1) [OF assms(2)]
  have lr: "lr = map_option snd (holds sys source cap)"
    and s: "space_view s = space_view (sys_spaces sys source)" "space_wf s"
    using space_lookup_spec [OF wf [of source], of cap] lk by (simp_all add: holds_def)
  define sys1 where "sys1 = set_space source s sys"
  note same = set_space_same_view [OF assms(2) s, folded sys1_def]
  have m1: "sys_manager sys1 = sys_manager sys" by (simp add: sys1_def)
  note eq = assms(1) [unfolded delegate_def lk, simplified, folded sys1_def]
  have simple: thesis if "res = Err e" "sys' = sys1" for e
    using that same m1 by (intro refused [of e]) simp_all
  show thesis
  proof (cases "holds sys source cap")
    case None
    then show thesis using eq lr simple by auto
  next
    case (Some p)
    obtain src_obj src_rights where p: "p = (src_obj, src_rights)" by force
    then have lr': "lr = Some src_rights" using lr Some by simp
    show thesis
    proof (cases "rights_contains src_rights GRANT")
      case False
      then show thesis using eq lr' simple by (auto simp: Let_def)
    next
      case grant: True
      consider "registered sys (token_id cap) = None"
        | entry where "registered sys (token_id cap) = Some entry" "re_revoked entry"
        | entry where "registered sys (token_id cap) = Some entry" "\<not> re_revoked entry"
        by fastforce
      then show thesis
      proof cases
        case 1
        then show thesis using eq lr' grant simple by (auto simp: Let_def registered_def m1)
      next
        case 2
        then show thesis using eq lr' grant simple by (auto simp: Let_def registered_def m1)
      next
        case 3
        define derived where "derived = rights_intersection src_rights new_rights"
        define new_cap where "new_cap = token_new (token_id cap) (token_generation cap)
          (token_cap_type cap) (rights_to_flags derived)"
        have tid: "token_id new_cap = token_id cap"
          unfolding new_cap_def using token_id_bound by (rule token_id_new_small)
        obtain ir t where ins: "space_insert (sys_spaces sys1 target) new_cap (re_object entry) derived = (ir, t)"
          by force
        have eq': "(res, sys') = (case ir of Err _ \<Rightarrow> (Err CeOutOfMemory, set_space target t sys1)
            | Ok _ \<Rightarrow> (Ok new_cap, log_capability_op 0 (token_id cap) 0
                (set_manager ((sys_manager sys)\<lparr>cm_delegated := cm_delegated (sys_manager sys) + 1\<rparr>)
                   (set_space target t sys1))))"
          using eq lr' grant 3 ins
          by (simp add: Let_def registered_def m1 new_cap_def derived_def split: result.splits)
        show thesis
        proof (cases ir)
          case (Err e)
          then have "t = sys_spaces sys1 target" using ins by (auto dest: space_insert_Err)
          then have "set_space target t sys1 = sys1" by (simp add: set_space_def)
          then show thesis using eq' Err simple by simp
        next
          case (Ok u)
          note iv = space_insert_view [OF sys_wfD(1) [OF same(3)] ins [unfolded Ok]]
          have res: "res = Ok new_cap" "sys' = log_capability_op 0 (token_id cap) 0
                (set_manager ((sys_manager sys)\<lparr>cm_delegated := cm_delegated (sys_manager sys) + 1\<rparr>)
                   (set_space target t sys1))"
            using eq' Ok by simp_all
          have h: "holds sys' = (holds sys)(target := (holds sys target)(new_cap \<mapsto> (re_object entry, derived)))"
            unfolding same(1) [symmetric] by (intro ext) (simp add: holds_def res iv(1))
          have wf': "sys_wf sys'"
            using sys_wfD [OF same(3)] iv(3) by (simp add: res m1 sys_wf_def spaces_wf_def ids_wf_def)
          show thesis
            by (rule delegated [OF res(1) wf' Some [unfolded p] grant 3 new_cap_def [unfolded derived_def]
                  tid h [unfolded derived_def]])
              (simp_all add: fun_eq_iff registered_def res)
        qed
      qed
    qed
  qed
qed

lemma manager_revoke_spec:
  assumes "manager_revoke cap sys = (res, sys')" "sys_wf sys"
  shows "sys_wf sys'" "holds sys' = holds sys"
    "registered sys' = (\<lambda>cid. if cid = token_id cap then
        map_option (\<lambda>e. if re_revoked e then e
          else e\<lparr>re_revoked := True, re_generation := re_generation e + 1\<rparr>) (registered sys cid)
      else registered sys cid)"
    "cm_next_id (sys_manager sys') = cm_next_id (sys_manager sys)"
    "cm_recycled (sys_manager sys') = cm_recycled (sys_manager sys)"
    "res = (if registered sys (token_id cap) = None then Err CeInvalidCapability else Ok ())"
proof -
  note eq = assms(1) [unfolded manager_revoke_def Let_def]
  have spaces: "sys_spaces sys' = sys_spaces sys"
    using eq by (auto split: option.splits if_splits)
  show h: "holds sys' = holds sys" by (intro ext) (simp add: holds_def spaces)
  show nx: "cm_next_id (sys_manager sys') = cm_next_id (sys_manager sys)"
    and "cm_recycled (sys_manager sys') = cm_recycled (sys_manager sys)"
    and "res = (if registered sys (token_id cap) = None then Err CeInvalidCapability else Ok ())"
    using eq by (auto simp: registered_def split: option.splits if_splits)
  show "registered sys' = (\<lambda>cid. if cid = token_id cap then
        map_option (\<lambda>e. if re_revoked e then e
          else e\<lparr>re_revoked := True, re_generation := re_generation e + 1\<rparr>) (registered sys cid)
      else registered sys cid)"
    using eq by (intro ext) (auto simp: registered_def bt_simps split: option.splits if_splits)
  have "ids_wf (sys_manager sys')"
    using eq sys_wfD(3) [OF assms(2)]
    by (auto simp: ids_wf_def bt_simps bt_wf_insert split: option.splits if_splits)
  then show "sys_wf sys'"
    using assms(2) by (simp add: sys_wf_def spaces_wf_def spaces)
qed

lemma manager_delete_spec:
  assumes "manager_delete cap sys = (res, sys')" "sys_wf sys"
  shows "sys_wf sys'" "holds sys' = holds sys"
    "registered sys' = (registered sys)(token_id cap := None)"
    "res = (if registered sys (token_id cap) = None then Err CeNotFound else Ok ())"
proof -
  note eq = assms(1) [unfolded manager_delete_def Let_def id_recycle_def]
  have spaces: "sys_spaces sys' = sys_spaces sys"
    and nx: "cm_next_id (sys_manager sys') = cm_next_id (sys_manager sys)"
    using eq by (auto split: option.splits)
  show h: "holds sys' = holds sys" by (intro ext) (simp add: holds_def spaces)
  show "registered sys' = (registered sys)(token_id cap := None)"
    using eq by (intro ext) (auto simp: registered_def bt_simps split: option.splits)
  show "res = (if registered sys (token_id cap) = None then Err CeNotFound else Ok ())"
    using eq by (auto simp: registered_def split: option.splits)
  have "ids_wf (sys_manager sys')"
    using eq sys_wfD(3) [OF assms(2)]
    by (auto simp: ids_wf_def bt_simps bt_wf_remove set_bs_insert bs_wf_insert split: option.splits if_splits)
  then show "sys_wf sys'"
    using assms(2) by (simp add: sys_wf_def spaces_wf_def spaces)
qed

lemma check_capability_spec:
  assumes "check_capability cap required sp sys = (res, sys')" "sys_wf sys"
  shows "sys_wf sys'" "holds sys' = holds sys" "registered sys' = registered sys"
    "sys_manager sys' = sys_manager sys"
    "res = (case holds sys sp cap of
        None \<Rightarrow> Err CeInsufficientRights
      | Some (_, r) \<Rightarrow>
          if \<not> rights_contains r required then Err CeInsufficientRights
          else (case registered sys (token_id cap) of
              None \<Rightarrow> Err CeCapabilityRevoked
            | Some e \<Rightarrow> if re_revoked e \<or> re_generation e \<noteq> token_generation cap
                then Err CeCapabilityRevoked else Ok ()))"
proof -
  note wf = sys_wfD(1) [OF assms(2), of sp]
  obtain b s where c: "check_rights (sys_spaces sys sp) cap required = (b, s)" by force
  note cr = check_rights_spec [OF wf, of cap required, unfolded c]
  have s: "space_view s = space_view (sys_spaces sys sp)" "space_wf s"
    using cr(2) space_lookup_spec(2,3) [OF wf] by simp_all
  have sys': "sys' = set_space sp s sys"
    using assms(1) by (auto simp: check_capability_def c split: bool.splits if_splits)
  show "sys_wf sys'" "holds sys' = holds sys" "registered sys' = registered sys"
    unfolding sys' using set_space_same_view [OF assms(2) s] by auto
  show "sys_manager sys' = sys_manager sys" by (simp add: sys')
  have b: "b = (case holds sys sp cap of Some (_, r) \<Rightarrow> rights_contains r required | None \<Rightarrow> False)"
    using cr(1) by (simp add: holds_def)
  have "res = (if \<not> b then Err CeInsufficientRights
      else if manager_is_valid cap (sys_manager sys) then Ok () else Err CeCapabilityRevoked)"
    using assms(1) by (auto simp: check_capability_def c split: bool.splits if_splits)
  then show "res = (case holds sys sp cap of
        None \<Rightarrow> Err CeInsufficientRights
      | Some (_, r) \<Rightarrow>
          if \<not> rights_contains r required then Err CeInsufficientRights
          else (case registered sys (token_id cap) of
              None \<Rightarrow> Err CeCapabilityRevoked
            | Some e \<Rightarrow> if re_revoked e \<or> re_generation e \<noteq> token_generation cap
                then Err CeCapabilityRevoked else Ok ()))"
    unfolding b by (simp add: manager_is_valid_def registered_def split: option.splits)
qed

lemma space_remove_spec:
  assumes "sys_wf sys" and sys'_def: "sys' = set_space sp (snd (space_remove (sys_spaces sys sp) cap)) sys"
  shows "sys_wf sys'" "registered sys' = registered sys" "sys_manager sys' = sys_manager sys"
    "holds sys' = (holds sys)(sp := (\<lambda>c. if slot_of (token_id c) = slot_of (token_id cap) then None
       else holds sys sp c))"
  using space_remove_view [OF sys_wfD(1) [OF assms(1)], of sp cap] sys_wfD [OF assms(1)]
  by (auto simp: sys'_def sys_wf_def spaces_wf_def registered_def holds_def fun_eq_iff)

lemma create_capability_keeps:
  assumes "sys_wf sys" "create_capability obj r sp sys = (res, sys')"
  shows "sys_wf sys'" "registered sys cid = Some e \<Longrightarrow> registered sys' cid = Some e"
  using assms(2,1) by (cases rule: create_capability_cases, auto)+

lemma delegate_keeps:
  assumes "sys_wf sys" "delegate cap source target r sys = (res, sys')"
  shows "sys_wf sys'" "registered sys' = registered sys"
    "res = Ok new_cap \<Longrightarrow> \<exists>e. registered sys (token_id cap) = Some e \<and> \<not> re_revoked e"
  using assms(2,1) by (cases rule: delegate_cases, auto)+

section \<open>Sequences of operations\<close>

datatype cap_action =
    Create object_ref rights u64
  | Delegate capability_token u64 u64 rights
  | Revoke capability_token
  | Delete capability_token
  | Discard capability_token u64
  | Check capability_token rights u64

fun cap_apply :: "cap_action \<Rightarrow> cap_system \<Rightarrow> cap_system" where
  "cap_apply (Create obj r sp) sys = snd (create_capability obj r sp sys)"
| "cap_apply (Delegate cap source target r) sys = snd (delegate cap source target r sys)"
| "cap_apply (Revoke cap) sys = snd (manager_revoke cap sys)"
| "cap_apply (Delete cap) sys = snd (manager_delete cap sys)"
| "cap_apply (Discard cap sp) sys = set_space sp (snd (space_remove (sys_spaces sys sp) cap)) sys"
| "cap_apply (Check cap r sp) sys = snd (check_capability cap r sp sys)"

fun cap_run :: "cap_action list \<Rightarrow> cap_system \<Rightarrow> cap_system" where
  "cap_run [] sys = sys"
| "cap_run (a # acts) sys = cap_run acts (cap_apply a sys)"

text \<open>The state after the static initialisers: every space is empty and has its own quota.\<close>

definition boot_system :: "(u64 \<Rightarrow> usize) \<Rightarrow> u64 list \<Rightarrow> cap_system" where
  "boot_system quota pids =
     \<lparr>sys_manager = manager_new, sys_spaces = (\<lambda>sp. space_with_quota (quota sp)),
      sys_pids = pids, sys_audit = []\<rparr>"

lemma holds_boot [simp]: "holds (boot_system quota pids) sp cap = None"
  by (cases "slot_of (token_id cap)")
    (simp_all add: holds_def boot_system_def space_view_def space_with_quota_def empty_table_def bt.get_empty)

lemma sys_wf_boot [simp]: "sys_wf (boot_system quota pids)"
  by (simp add: sys_wf_def spaces_wf_def boot_system_def space_wf_with_quota manager_new_def ids_wf_def
      bt.get_empty bt.wf_empty)

lemma cap_apply_wf:
  assumes "sys_wf sys"
  shows "sys_wf (cap_apply a sys)"
proof (cases a)
  case (Create obj r sp)
  show ?thesis unfolding Create
    using create_capability_keeps(1) [OF assms prod.collapse [symmetric]] by simp
next
  case (Delegate cap source target r)
  show ?thesis unfolding Delegate
    using delegate_keeps(1) [OF assms prod.collapse [symmetric]] by simp
next
  case (Revoke cap)
  show ?thesis unfolding Revoke
    by (cases "manager_revoke cap sys") (simp add: manager_revoke_spec(1) [OF _ assms])
next
  case (Delete cap)
  show ?thesis unfolding Delete
    by (cases "manager_delete cap sys") (simp add: manager_delete_spec(1) [OF _ assms])
next
  case (Discard cap sp)
  show ?thesis unfolding Discard by (simp add: space_remove_spec(1) [OF assms refl])
next
  case (Check cap r sp)
  show ?thesis unfolding Check
    by (cases "check_capability cap r sp sys") (simp add: check_capability_spec(1) [OF _ assms])
qed

lemma cap_run_wf: "sys_wf sys \<Longrightarrow> sys_wf (cap_run acts sys)"
  by (induction acts sys rule: cap_run.induct) (simp_all add: cap_apply_wf)

subsection \<open>Revocation is permanent\<close>

definition revoked_id :: "cap_system \<Rightarrow> u64 \<Rightarrow> bool" where
  "revoked_id sys cid \<longleftrightarrow> (\<exists>e. registered sys cid = Some e \<and> re_revoked e)"

fun deletes :: "u64 \<Rightarrow> cap_action \<Rightarrow> bool" where
  "deletes cid (Delete cap) = (token_id cap = cid)"
| "deletes cid _ = False"

lemma revoked_id_apply:
  assumes "sys_wf sys" "revoked_id sys cid" "\<not> deletes cid a"
  shows "revoked_id (cap_apply a sys) cid"
proof (cases a)
  case (Create obj r sp)
  show ?thesis using assms(2) create_capability_keeps(2) [OF assms(1) prod.collapse [symmetric]]
    by (fastforce simp: Create revoked_id_def)
next
  case (Delegate cap source target r)
  show ?thesis using assms(2) delegate_keeps(2) [OF assms(1) prod.collapse [symmetric]]
    by (simp add: Delegate revoked_id_def)
next
  case (Revoke cap)
  show ?thesis unfolding Revoke using assms(2)
    by (cases "manager_revoke cap sys")
      (auto simp: revoked_id_def manager_revoke_spec(3) [OF _ assms(1)])
next
  case (Delete cap)
  show ?thesis unfolding Delete using assms(2,3) Delete
    by (cases "manager_delete cap sys")
      (auto simp: revoked_id_def manager_delete_spec(3) [OF _ assms(1)])
next
  case (Discard cap sp)
  show ?thesis unfolding Discard using assms(2)
    by (simp add: revoked_id_def space_remove_spec(2) [OF assms(1) refl])
next
  case (Check cap r sp)
  show ?thesis unfolding Check using assms(2)
    by (cases "check_capability cap r sp sys")
      (simp add: revoked_id_def check_capability_spec(3) [OF _ assms(1)])
qed

lemma revoked_id_run:
  assumes "sys_wf sys" "revoked_id sys cid" "\<forall>a \<in> set acts. \<not> deletes cid a"
  shows "revoked_id (cap_run acts sys) cid"
  using assms
  by (induction acts sys rule: cap_run.induct) (simp_all add: cap_apply_wf revoked_id_apply)

lemma revoked_id_check:
  assumes "sys_wf sys" "revoked_id sys (token_id c)"
  shows "\<not> is_ok (fst (check_capability c required sp sys))"
    and "\<not> is_ok (fst (delegate c sp target r sys))"
proof -
  obtain res s' where c: "check_capability c required sp sys = (res, s')" by force
  show "\<not> is_ok (fst (check_capability c required sp sys))"
    using check_capability_spec(5) [OF c assms(1)] assms(2)
    by (auto simp: c revoked_id_def split: option.splits)
  show "\<not> is_ok (fst (delegate c sp target r sys))"
    using assms(2) delegate_keeps(3) [OF assms(1) prod.collapse [symmetric]]
    by (fastforce simp: revoked_id_def is_ok_conv)
qed

lemma manager_revoke_marks:
  assumes "manager_revoke cap sys = (res, sys')" "sys_wf sys" "registered sys cid = Some e"
  obtains e' where "registered sys' cid = Some e'" "re_object e' = re_object e"
    "re_revoked e' \<longleftrightarrow> re_revoked e \<or> cid = token_id cap"
  using manager_revoke_spec(3) [OF assms(1,2)] assms(3)
  by (cases "cid = token_id cap"; cases "re_revoked e") simp_all

subsection \<open>Authority\<close>

text \<open>
  The authority of the system: the object and right pairs some space holds. In a \<open>coherent\<close> state no
  identifier has been recycled, every token held was issued by the manager, and the registry
  agrees with the spaces about the object an identifier names.
\<close>

definition authority :: "cap_system \<Rightarrow> (object_ref \<times> nat) set" where
  "authority sys = {(obj, n). \<exists>sp cap r. holds sys sp cap = Some (obj, r) \<and> bit r n}"

definition coherent :: "cap_system \<Rightarrow> bool" where
  "coherent sys \<longleftrightarrow>
     cm_recycled (sys_manager sys) = [] \<and>
     (\<forall>sp cap obj r. holds sys sp cap = Some (obj, r) \<longrightarrow>
        (\<exists>e. registered sys (token_id cap) = Some e \<and> re_object e = obj))"

fun is_delete :: "cap_action \<Rightarrow> bool" where
  "is_delete (Delete _) = True"
| "is_delete _ = False"

fun granted :: "cap_action \<Rightarrow> (object_ref \<times> nat) set" where
  "granted (Create obj r sp) = {(obj, n) |n. bit r n}"
| "granted _ = {}"

lemma coherent_keep:
  assumes "coherent sys" "\<And>sp cap x. holds sys' sp cap = Some x \<Longrightarrow> holds sys sp cap = Some x"
    "\<And>cid e. registered sys cid = Some e \<Longrightarrow> \<exists>e'. registered sys' cid = Some e' \<and> re_object e' = re_object e"
    "cm_recycled (sys_manager sys') = []"
  shows "coherent sys' \<and> authority sys' \<subseteq> authority sys"
proof
  show "coherent sys'"
    unfolding coherent_def
  proof (intro conjI allI impI)
    fix sp cap obj r
    assume "holds sys' sp cap = Some (obj, r)"
    then have "holds sys sp cap = Some (obj, r)" by (rule assms(2))
    then obtain e where "registered sys (token_id cap) = Some e" "re_object e = obj"
      using assms(1) unfolding coherent_def by blast
    then show "\<exists>e. registered sys' (token_id cap) = Some e \<and> re_object e = obj"
      using assms(3) by blast
  qed (rule assms(4))
  show "authority sys' \<subseteq> authority sys" using assms(2) unfolding authority_def by blast
qed

lemma coherent_add:
  assumes "coherent sys" "holds sys' = (holds sys)(sp := (holds sys sp)(cap \<mapsto> (obj, r)))"
    "registered sys' (token_id cap) = Some e" "re_object e = obj"
    "\<And>cid e. registered sys cid = Some e \<Longrightarrow> registered sys' cid = Some e"
    "cm_recycled (sys_manager sys') = []"
  shows "coherent sys' \<and> authority sys' \<subseteq> authority sys \<union> {(obj, n) |n. bit r n}"
proof
  have old: "holds sys' p c = Some x \<Longrightarrow> p = sp \<and> c = cap \<and> x = (obj, r) \<or> holds sys p c = Some x" for p c x
    unfolding assms(2) by (auto split: if_splits)
  show "coherent sys'"
    unfolding coherent_def
  proof (intro conjI allI impI)
    fix p c obj' r'
    assume "holds sys' p c = Some (obj', r')"
    then consider "c = cap" "obj' = obj" | "holds sys p c = Some (obj', r')" using old by blast
    then show "\<exists>e. registered sys' (token_id c) = Some e \<and> re_object e = obj'"
    proof cases
      case 2
      then show ?thesis using assms(1,5) unfolding coherent_def by blast
    qed (use assms(3,4) in simp)
  qed (rule assms(6))
  show "authority sys' \<subseteq> authority sys \<union> {(obj, n) |n. bit r n}"
    using old unfolding authority_def by blast
qed

lemma coherent_create:
  assumes "sys_wf sys" "coherent sys" "create_capability obj r sp sys = (res, sys')"
  shows "coherent sys' \<and> authority sys' \<subseteq> authority sys \<union> {(obj, n) |n. bit r n}"
  using assms(3,1)
proof (cases rule: create_capability_cases)
  case (refused e)
  then show ?thesis using assms(2) by auto
next
  case (full cid)
  have "coherent sys' \<and> authority sys' \<subseteq> authority sys"
    by (rule coherent_keep [OF assms(2)]) (use full assms(2) in \<open>auto simp: coherent_def\<close>)
  then show ?thesis by auto
next
  case (created cid cap)
  show ?thesis
    by (rule coherent_add [OF assms(2) created(5)]) (use created assms(2) in \<open>auto simp: coherent_def\<close>)
qed

lemma coherent_delegate:
  assumes "sys_wf sys" "coherent sys" "delegate cap source target r sys = (res, sys')"
  shows "coherent sys' \<and> authority sys' \<subseteq> authority sys"
  using assms(3,1)
proof (cases rule: delegate_cases)
  case (refused e)
  show ?thesis
    by (rule coherent_keep [OF assms(2)]) (use refused assms(2) in \<open>auto simp: coherent_def\<close>)
next
  case (delegated src_obj src_rights entry new_cap)
  have "coherent sys' \<and> authority sys' \<subseteq> authority sys \<union>
      {(re_object entry, n) |n. bit (rights_intersection src_rights r) n}"
    by (rule coherent_add [OF assms(2) delegated(9)])
      (use delegated assms(2) in \<open>auto simp: coherent_def\<close>)
  moreover have "re_object entry = src_obj"
    using delegated(3,5) assms(2) by (fastforce simp: coherent_def)
  then have "{(re_object entry, n) |n. bit (rights_intersection src_rights r) n} \<subseteq> authority sys"
    using delegated(3) by (auto simp: authority_def rights_intersection_def bit_simps)
  ultimately show ?thesis by blast
qed

lemma coherent_apply:
  assumes "sys_wf sys" "coherent sys" "\<not> is_delete a"
  shows "coherent (cap_apply a sys) \<and> authority (cap_apply a sys) \<subseteq> authority sys \<union> granted a"
proof -
  have rec: "cm_recycled (sys_manager sys) = []" using assms(2) by (simp add: coherent_def)
  show ?thesis
  proof (cases a)
    case (Create obj r sp)
    show ?thesis using coherent_create [OF assms(1,2) prod.collapse [symmetric]] by (simp add: Create)
  next
    case (Delegate cap source target r)
    show ?thesis using coherent_delegate [OF assms(1,2) prod.collapse [symmetric]] by (simp add: Delegate)
  next
    case (Revoke cap)
    note rv = manager_revoke_spec [OF prod.collapse [symmetric] assms(1), of cap]
    have "coherent (snd (manager_revoke cap sys)) \<and> authority (snd (manager_revoke cap sys)) \<subseteq> authority sys"
    proof (rule coherent_keep [OF assms(2)])
      show "\<exists>e'. registered (snd (manager_revoke cap sys)) cid = Some e' \<and> re_object e' = re_object e"
        if "registered sys cid = Some e" for cid e
        using manager_revoke_marks [OF prod.collapse [symmetric] assms(1) that] by metis
    qed (simp_all add: rv(2,5) rec)
    then show ?thesis by (auto simp: Revoke)
  next
    case (Delete cap)
    then show ?thesis using assms(3) by simp
  next
    case (Discard cap sp)
    note rm = space_remove_spec [OF assms(1) refl, of sp cap]
    have "coherent (cap_apply a sys) \<and> authority (cap_apply a sys) \<subseteq> authority sys"
      by (rule coherent_keep [OF assms(2)]) (auto simp: Discard rm(2,4) rec split: if_splits)
    then show ?thesis by auto
  next
    case (Check cap r sp)
    note ck = check_capability_spec [OF prod.collapse [symmetric] assms(1), of cap r sp]
    show ?thesis using coherent_keep [OF assms(2), of "snd (check_capability cap r sp sys)"] rec ck
      by (simp add: Check)
  qed
qed

lemma coherent_run:
  assumes "sys_wf sys" "coherent sys" "\<forall>a \<in> set acts. \<not> is_delete a"
  shows "coherent (cap_run acts sys)"
    and "authority (cap_run acts sys) \<subseteq> authority sys \<union> (\<Union>a \<in> set acts. granted a)"
proof -
  have "coherent (cap_run acts sys) \<and>
      authority (cap_run acts sys) \<subseteq> authority sys \<union> (\<Union>a \<in> set acts. granted a)"
    using assms
  proof (induction acts sys rule: cap_run.induct)
    case (2 a acts sys)
    have "coherent (cap_apply a sys)" "authority (cap_apply a sys) \<subseteq> authority sys \<union> granted a"
      using coherent_apply 2(2-4) by auto
    with 2 cap_apply_wf show ?case by fastforce
  qed simp
  then show "coherent (cap_run acts sys)"
    "authority (cap_run acts sys) \<subseteq> authority sys \<union> (\<Union>a \<in> set acts. granted a)" by auto
qed

lemma sys_wf_init: "sys_wf (snd (cap_init k (boot_system quota pids)))"
proof -
  obtain res s where ins: "space_insert (space_with_quota 4096) root_token root_object RIGHTS_ALL = (res, s)"
    by force
  have "space_wf s"
  proof (cases res)
    case (Ok u)
    then show ?thesis using space_insert_view(3) [OF space_wf_with_quota(1)] ins by blast
  next
    case (Err e)
    then show ?thesis using space_insert_Err space_wf_with_quota(1) ins by blast
  qed
  then show ?thesis
    using sys_wf_boot [of quota pids]
    by (auto simp: cap_init_def ins sys_wf_def spaces_wf_def split: result.splits)
qed

text \<open>The states the kernel can reach, with or without the root capability of \<open>cap::init\<close>.\<close>

inductive cap_reachable :: "cap_system \<Rightarrow> bool" where
  reach_boot: "cap_reachable (boot_system quota pids)"
| reach_init: "cap_reachable (snd (cap_init k (boot_system quota pids)))"
| reach_step: "cap_reachable sys \<Longrightarrow> cap_reachable (cap_apply a sys)"

lemma cap_reachable_wf: "cap_reachable sys \<Longrightarrow> sys_wf sys"
  by (induction rule: cap_reachable.induct) (simp_all add: sys_wf_init cap_apply_wf)

lemma cap_reachable_run: "cap_reachable sys \<Longrightarrow> cap_reachable (cap_run acts sys)"
  by (induction acts sys rule: cap_run.induct) (simp_all add: reach_step)

lemma create_capability_id:
  assumes "create_capability obj r sp sys = (Ok cap, sys')" "sys_wf sys"
  shows "fst (id_allocate (sys_manager sys)) = Ok (token_id cap)"
    and "cm_recycled (sys_manager sys) = [] \<Longrightarrow> cm_recycled (sys_manager sys') = []"
proof -
  obtain cid m where al: "id_allocate (sys_manager sys) = (Ok cid, m)"
    using assms(1) by (auto simp: create_capability_def split: if_splits prod.splits result.splits)
  note ok = id_allocate_Ok [OF al sys_wfD(3) [OF assms(2)]]
  have "cap = token_new cid (cm_global_generation m) (type_code obj) (rights_to_flags r)"
    using assms(1) al by (auto simp: create_capability_def Let_def split: if_splits prod.splits result.splits)
  then show "fst (id_allocate (sys_manager sys)) = Ok (token_id cap)"
    using ok(2) by (simp add: al token_id_new_small)
  show "cm_recycled (sys_manager sys) = [] \<Longrightarrow> cm_recycled (sys_manager sys') = []"
    using assms by (cases rule: create_capability_cases) simp_all
qed

lemma holds_init:
  "holds (snd (cap_init k (boot_system quota pids))) =
     (holds (boot_system quota pids))(k := Map.empty(root_token \<mapsto> (root_object, RIGHTS_ALL)))"
proof -
  have root: "token_id root_token = 1" by (simp add: root_token_def token_id_new)
  obtain res s where ins: "space_insert (space_with_quota 4096) root_token root_object RIGHTS_ALL = (res, s)"
    by force
  have res: "res = Ok ()"
    using ins by (auto simp: space_insert_def space_with_quota_def root L1_SIZE_def empty_table_def)
  have "space_view (space_with_quota 4096) = Map.empty"
    using holds_boot [of "\<lambda>_. 4096"] by (simp add: holds_def boot_system_def fun_eq_iff)
  then show ?thesis
    using space_insert_view(1) [OF space_wf_with_quota(1) ins [unfolded res]]
    by (intro ext) (simp add: cap_init_def ins res holds_def)
qed

lemma cap_init_manager: "sys_manager (snd (cap_init k (boot_system quota pids))) = manager_new"
  by (auto simp: cap_init_def boot_system_def split: prod.splits result.splits)

section \<open>Properties\<close>

text \<open>A concrete system for the examples: one memory capability in space 1.\<close>

abbreviation demo :: cap_system where
  "demo \<equiv> cap_run [Create (ObjMemory 0x1000 0x2000 attributes_normal) RIGHTS_ALL 1] (boot_system (\<lambda>_. 256) [3])"

abbreviation demo_cap :: capability_token where
  "demo_cap \<equiv> 0xF000000000000001"

lemma demo_reachable: "cap_reachable demo"
  by (rule cap_reachable_run, rule reach_boot)

lemma demo_holds: "holds demo 1 demo_cap = Some (ObjMemory 0x1000 0x2000 attributes_normal, RIGHTS_ALL)"
  by code_simp



text \<open>
  C2. Revocation is global and lasts: once \<open>revoke\<close> has accepted a token in a reachable state, no
  token with its identifier passes a check or can be delegated, in any space, after any further
  operations other than a deletion of that identifier.
\<close>

theorem revocation_is_permanent:
  assumes "cap_reachable sys" "manager_revoke cap sys = (Ok (), sys')"
    and "\<forall>a \<in> set after. \<not> deletes (token_id cap) a"
    and "token_id c = token_id cap"
  shows "\<not> is_ok (fst (check_capability c required sp (cap_run after sys'))) \<and>
    \<not> is_ok (fst (delegate c sp target r (cap_run after sys')))"
proof -
  have wf: "sys_wf sys" using assms(1) by (rule cap_reachable_wf)
  note rv = manager_revoke_spec [OF assms(2) wf]
  obtain e where "registered sys (token_id cap) = Some e" using rv(6) by (auto split: if_splits)
  then have "revoked_id sys' (token_id cap)"
    using manager_revoke_marks [OF assms(2) wf] by (metis revoked_id_def)
  then have "revoked_id (cap_run after sys') (token_id c)"
    using revoked_id_run [OF rv(1) _ assms(3)] assms(4) by simp
  then show ?thesis using revoked_id_check cap_run_wf [OF rv(1)] by blast
qed

text \<open>
  A created capability works at once: the token that \<open>create_capability\<close> returns passes exactly
  the checks for rights it was created with, in the space it was created in.
\<close>

theorem created_capability_checks:
  assumes "cap_reachable sys" "create_capability obj r sp sys = (Ok cap, sys')"
  shows "fst (check_capability cap required sp sys') =
    (if rights_contains r required then Ok () else Err CeInsufficientRights)"
  using assms(2) cap_reachable_wf [OF assms(1)]
proof (cases rule: create_capability_cases)
  case (created cid cap')
  have cap: "cap' = cap" using created(1) by simp
  note ck = check_capability_spec(5) [OF prod.collapse [symmetric] created(2)]
  have "token_generation cap = 0" using created(4) cap by simp
  then show ?thesis
    unfolding ck using created(3,5,7) by (simp add: cap)
qed simp_all

text \<open>
  C7. Delegation attenuates: it needs the grant right on a token the source space holds, and the
  new token, which names the object registered for that identifier, passes in the target space
  exactly the checks that both the source rights and the requested rights allow, as long as the
  original token is itself valid.
\<close>

theorem delegation_attenuates:
  assumes "cap_reachable sys" "delegate cap source target new_rights sys = (Ok new_cap, sys')"
  shows "\<exists>obj r. holds sys source cap = Some (obj, r) \<and> rights_contains r GRANT \<and>
    (\<forall>required. is_ok (fst (check_capability new_cap required target sys')) \<longleftrightarrow>
       rights_contains r required \<and> rights_contains new_rights required \<and>
       manager_is_valid cap (sys_manager sys))"
  using assms(2) cap_reachable_wf [OF assms(1)]
proof (cases rule: delegate_cases)
  case (delegated obj r entry cap')
  have "is_ok (fst (check_capability new_cap required target sys')) \<longleftrightarrow>
      rights_contains r required \<and> rights_contains new_rights required \<and>
      manager_is_valid cap (sys_manager sys)" for required
  proof -
    have cap: "cap' = new_cap" using delegated(1) by simp
    note ck = check_capability_spec(5) [OF prod.collapse [symmetric] delegated(2)]
    have "rights_contains (rights_intersection r new_rights) required \<longleftrightarrow>
        rights_contains r required \<and> rights_contains new_rights required"
      by (auto simp: rights_contains_bits rights_intersection_def bit_simps)
    moreover have "token_generation new_cap = token_generation cap" using delegated(1,7) by simp
    ultimately show ?thesis
      unfolding ck manager_is_valid_def
      using delegated(5,6,8,9,10) by (auto simp: cap registered_def [symmetric])
  qed
  then show ?thesis using delegated(3,4) by blast
qed simp_all

text \<open>
  C29. Memory accesses stay inside the region: for a memory capability whose region does not wrap
  around the address space, \<open>check_memory_access\<close> accepts exactly the ranges that lie inside the
  region, with the right for the access held and the token valid.
\<close>

theorem memory_access_exact:
  assumes "cap_reachable sys" "holds sys sp cap = Some (ObjMemory base cap_size attrs, r)"
    and "unat base + unat cap_size < 2 ^ 64"
  shows "fst (check_memory_access cap sp addr sz acc sys) = Ok () \<longleftrightarrow>
    rights_contains r (access_rights acc) \<and> manager_is_valid cap (sys_manager sys) \<and>
    unat base \<le> unat addr \<and> unat addr + unat sz \<le> unat base + unat cap_size"
proof -
  have wf: "sys_wf sys" using assms(1) by (rule cap_reachable_wf)
  obtain res sys1 where c: "check_capability cap (access_rights acc) sp sys = (res, sys1)" by force
  note ck = check_capability_spec [OF c wf]
  have res: "res = Ok () \<longleftrightarrow> rights_contains r (access_rights acc) \<and> manager_is_valid cap (sys_manager sys)"
    using ck(5) assms(2) by (auto simp: manager_is_valid_def registered_def split: option.splits)
  have "fst (lookup_entry (sys_spaces sys1 sp) cap) = Some (ObjMemory base cap_size attrs, r)"
    using lookup_entry_spec(1) [OF sys_wfD(1) [OF ck(1)]] ck(2) assms(2)
    by (simp add: holds_def fun_eq_iff)
  then obtain s where l: "lookup_entry (sys_spaces sys1 sp) cap = (Some (ObjMemory base cap_size attrs, r), s)"
    by (metis prod.collapse)
  have "(unat addr + unat sz < 2 ^ 64 \<and> \<not> (addr < base \<or> addr + sz > base + cap_size)) \<longleftrightarrow>
      unat base \<le> unat addr \<and> unat addr + unat sz \<le> unat base + unat cap_size"
    using assms(3) by (auto simp: word_less_nat_alt unat_word_ariths not_less)
  then show ?thesis
    using res by (cases res) (auto simp: check_memory_access_def c l not_le not_less)
qed

text \<open>
  A deleted identifier comes back to life: \<open>delete\<close> recycles the identifier but removes no
  token from a space, and the next creation registers it again with generation 0. The old token
  then passes its old checks, although its identifier now names the new object.
\<close>

theorem deleted_capability_revives:
  assumes "cap_reachable sys" "cm_recycled (sys_manager sys) = []"
    and "create_capability obj r sp sys = (Ok cap, s1)"
    and "manager_delete cap s1 = (res, s2)"
    and "create_capability obj2 r2 sp2 s2 = (Ok cap2, s3)"
  shows "fst (check_capability cap required sp s3) =
      (if rights_contains r required then Ok () else Err CeInsufficientRights) \<and>
    registered s3 (token_id cap) = Some \<lparr>re_object = obj2, re_generation = 0, re_revoked = False\<rparr>"
proof -
  have wf: "sys_wf sys" using assms(1) by (rule cap_reachable_wf)
  have wf1: "sys_wf s1" using create_capability_keeps(1) [OF wf assms(3)] .
  note del = manager_delete_spec [OF assms(4) wf1]
  have s1: "holds s1 sp cap = Some (obj, r)" "token_generation cap = 0"
    "registered s1 (token_id cap) \<noteq> None"
    using assms(3) wf by (cases rule: create_capability_cases, simp_all)+
  have "cm_recycled (sys_manager s2) = [token_id cap]"
    using assms(4) s1(3) create_capability_id(2) [OF assms(3) wf assms(2)]
    by (auto simp: manager_delete_def registered_def id_recycle_def Let_def)
  then have id2: "token_id cap2 = token_id cap"
    using create_capability_id(1) [OF assms(5) del(1)] by (simp add: id_allocate_def)
  show ?thesis
    using assms(5) del(1)
  proof (cases rule: create_capability_cases)
    case (created cid cap')
    have cap': "cap' = cap2" using created(1) by simp
    note ck = check_capability_spec(5) [OF prod.collapse [symmetric] created(2)]
    have keep: "holds s3 sp cap = Some (obj, r)"
      using created(5,9) del(2) s1(1) id2 created(3) by (auto simp: cap')
    have "registered s3 (token_id cap) = Some \<lparr>re_object = obj2, re_generation = 0, re_revoked = False\<rparr>"
      using created(3,7) id2 by (simp add: cap')
    then show ?thesis unfolding ck using keep s1(2) by simp
  qed simp_all
qed

text \<open>
  The root capability is not registered: after \<open>cap::init\<close> every check of the root token in the
  kernel's space that its rights allow is refused as revoked; the first capability created anywhere
  else then gets the root's identifier, and from then on the root token passes those checks.
\<close>

theorem root_capability_aliased:
  assumes "init = snd (cap_init k (boot_system quota pids))" "rights_contains RIGHTS_ALL required"
    and "create_capability obj r sp init = (Ok cap, sys)"
  shows "fst (check_capability root_token required k init) = Err CeCapabilityRevoked \<and>
    token_id cap = token_id root_token \<and>
    fst (check_capability root_token required k sys) = Ok ()"
proof -
  have wf: "sys_wf init" unfolding assms(1) by (rule sys_wf_init)
  have root: "holds init k root_token = Some (root_object, RIGHTS_ALL)" "token_id root_token = 1"
    "token_generation root_token = 0"
    by (simp_all add: assms(1) holds_init root_token_def token_id_new)
  have mgr: "sys_manager init = manager_new" by (simp add: assms(1) cap_init_manager)
  then have reg: "registered init cid = None" for cid
    by (simp add: registered_def manager_new_def bt.get_empty)
  have tid: "token_id cap = 1"
    using create_capability_id(1) [OF assms(3) wf] by (simp add: mgr id_allocate_def manager_new_def MAX_CAP_ID_eq)
  have "fst (check_capability root_token required k init) = Err CeCapabilityRevoked"
    unfolding check_capability_spec(5) [OF prod.collapse [symmetric] wf] using root assms(2) reg by simp
  moreover have "fst (check_capability root_token required k sys) = Ok ()"
    using assms(3) wf
  proof (cases rule: create_capability_cases)
    case (created cid cap')
    have cap': "cap' = cap" using created(1) by simp
    have "holds sys k root_token = Some (root_object, RIGHTS_ALL)"
      using created(3,5,9) root tid by (auto simp: cap')
    then show ?thesis
      unfolding check_capability_spec(5) [OF prod.collapse [symmetric] created(2)]
      using root assms(2) created(3,7) tid by (simp add: cap')
  qed simp_all
  ultimately show ?thesis using tid root(2) by simp
qed

text \<open>
  A creation that fails for lack of room leaves its registry entry and identifier behind: a
  fresh identifier is registered for the object, although no space holds a token for it.
\<close>

theorem failed_creation_leaks_registry_entry:
  assumes "cap_reachable sys" "create_capability obj r sp sys = (Err CeOutOfMemory, sys')"
  shows "holds sys' = holds sys \<and>
    (\<exists>cid. registered sys cid = None \<and>
       registered sys' cid = Some \<lparr>re_object = obj, re_generation = 0, re_revoked = False\<rparr>)"
  using assms(2) cap_reachable_wf [OF assms(1)]
  by (cases rule: create_capability_cases) auto

text \<open>
  Mapping always needs the execute right: \<open>PageFlags::EXECUTABLE\<close> is the empty set of flags, so
  \<open>map_memory_with_capability\<close> accepts a request only from a holder of that right, also where the
  flags ask for a no-execute page.
\<close>

theorem mapping_needs_execute:
  assumes "cap_reachable sys" "fst (map_memory_with_capability p cap sp virt flags sys) = Ok ()"
  shows "\<exists>obj r. holds sys sp cap = Some (obj, r) \<and> rights_contains r MAP \<and> rights_contains r EXECUTE \<and>
    (pf_contains flags PF_WRITABLE \<longrightarrow> rights_contains r WRITE)"
proof -
  have need: "\<exists>obj r. holds s sp cap = Some (obj, r) \<and> rights_contains r q"
    if "check_capability cap q sp s = (Ok (), s')" "sys_wf s" for q s s'
    using check_capability_spec(5) [OF that] by (auto split: option.splits if_splits)
  have wf: "sys_wf sys" using assms(1) by (rule cap_reachable_wf)
  obtain s1 where s1: "check_capability cap MAP sp sys = (Ok (), s1)"
    using assms(2) by (auto simp: map_memory_with_capability_def check_map_permission_def
        split: prod.splits result.splits)
  note c1 = check_capability_spec(1,2) [OF s1 wf]
  obtain s2 where s2: "(if pf_contains flags PF_WRITABLE then check_capability cap WRITE sp s1 else (Ok (), s1)) = (Ok (), s2)"
    using assms(2) s1 by (auto simp: map_memory_with_capability_def check_map_permission_def
        check_write_permission_def split: prod.splits result.splits if_splits)
  have c2: "sys_wf s2" "holds s2 = holds s1"
    using check_capability_spec(1,2) [OF _ c1(1)] s2 c1(1)
    by (cases "pf_contains flags PF_WRITABLE"; auto)+
  obtain s3 where s3: "check_capability cap EXECUTE sp s2 = (Ok (), s3)"
    using assms(2) s1 s2 by (auto simp: map_memory_with_capability_def check_map_permission_def
        check_write_permission_def check_execute_permission_def PF_EXECUTABLE_def pf_contains_def
        split: prod.splits result.splits if_splits)
  have "pf_contains flags PF_WRITABLE \<longrightarrow> (\<exists>obj r. holds sys sp cap = Some (obj, r) \<and> rights_contains r WRITE)"
    using need [of WRITE s1 s2] s2 c1 by auto
  then show ?thesis
    using need [OF s1 wf] need [OF s3 c2(1)] c1(2) c2(2) by auto
qed


theorem revocation_is_permanent_witness:
  "\<not> is_ok (fst (check_capability demo_cap READ 1
       (cap_run [Delegate demo_cap 1 2 READ] (snd (manager_revoke demo_cap demo)))))"
proof -
  have "fst (manager_revoke demo_cap demo) = Ok ()" by code_simp
  then show ?thesis
    using revocation_is_permanent [OF demo_reachable okI, of demo_cap "[Delegate demo_cap 1 2 READ]" demo_cap]
    by simp
qed

theorem created_capability_checks_witness:
  "fst (check_capability 0x3100000000000002 WRITE 1 (snd (create_capability (ObjProcess 7) (READ OR WRITE) 1 demo)))
     = Ok ()"
proof -
  have "fst (create_capability (ObjProcess 7) (READ OR WRITE) 1 demo) = Ok 0x3100000000000002" by code_simp
  moreover have "rights_contains (READ OR WRITE) WRITE" by code_simp
  ultimately show ?thesis using created_capability_checks [OF demo_reachable okI] by simp
qed

theorem delegation_attenuates_witness:
  "is_ok (fst (check_capability 0x1000000000000001 READ 2 (snd (delegate demo_cap 1 2 READ demo))))"
proof -
  have "fst (delegate demo_cap 1 2 READ demo) = Ok 0x1000000000000001" by code_simp
  moreover have "rights_contains RIGHTS_ALL READ" "manager_is_valid demo_cap (sys_manager demo)" by code_simp+
  ultimately show ?thesis
    using delegation_attenuates [OF demo_reachable okI, of demo_cap 1 2 READ] demo_holds by fastforce
qed

theorem memory_access_exact_witness:
  "fst (check_memory_access demo_cap 1 0x1800 0x100 MaWrite demo) = Ok ()"
proof -
  have "rights_contains RIGHTS_ALL (access_rights MaWrite)" "manager_is_valid demo_cap (sys_manager demo)"
    by code_simp+
  then show ?thesis
    using memory_access_exact [OF demo_reachable demo_holds, of "0x1800" "0x100" MaWrite] by simp
qed

theorem deleted_capability_revives_witness:
  "fst (check_capability demo_cap GRANT 1
     (snd (create_capability (ObjDevice 9) READ 2 (snd (manager_delete demo_cap demo))))) = Ok ()"
proof -
  let ?b = "boot_system (\<lambda>_. 256) [3]" and ?o = "ObjMemory 0x1000 0x2000 attributes_normal"
  have 1: "fst (create_capability ?o RIGHTS_ALL 1 ?b) = Ok demo_cap" by code_simp
  have 2: "fst (create_capability (ObjDevice 9) READ 2
      (snd (manager_delete demo_cap (snd (create_capability ?o RIGHTS_ALL 1 ?b))))) = Ok 0x1800000000000001"
    by code_simp
  have 3: "rights_contains RIGHTS_ALL GRANT" "cm_recycled (sys_manager ?b) = []" by code_simp+
  show ?thesis
    using deleted_capability_revives [OF reach_boot 3(2) okI [OF 1] prod.collapse [symmetric] okI [OF 2],
        of GRANT] 3(1) by simp
qed

theorem root_capability_aliased_witness:
  "fst (check_capability root_token READ 0
     (snd (create_capability (ObjProcess 7) READ 1 (snd (cap_init 0 (boot_system (\<lambda>_. 256) [])))))) = Ok ()"
proof -
  have "fst (create_capability (ObjProcess 7) READ 1 (snd (cap_init 0 (boot_system (\<lambda>_. 256) []))))
      = Ok 0x1100000000000001" "rights_contains RIGHTS_ALL READ" by code_simp+
  then show ?thesis using root_capability_aliased [OF refl _ okI] by blast
qed

theorem failed_creation_leaks_registry_entry_witness:
  "\<exists>cid. registered (snd (create_capability (ObjProcess 7) READ 1 (boot_system (\<lambda>_. 0) []))) cid =
     Some \<lparr>re_object = ObjProcess 7, re_generation = 0, re_revoked = False\<rparr>"
proof -
  have "fst (create_capability (ObjProcess 7) READ 1 (boot_system (\<lambda>_. 0) [])) = Err CeOutOfMemory"
    by code_simp
  then have "create_capability (ObjProcess 7) READ 1 (boot_system (\<lambda>_. 0) []) =
      (Err CeOutOfMemory, snd (create_capability (ObjProcess 7) READ 1 (boot_system (\<lambda>_. 0) [])))"
    by (metis prod.collapse)
  then show ?thesis using failed_creation_leaks_registry_entry [OF reach_boot] by blast
qed

theorem mapping_needs_execute_witness:
  "fst (map_memory_with_capability True demo_cap 1 0x4000 PF_NO_EXECUTE demo) = Ok () \<and>
   (\<exists>obj r. holds demo 1 demo_cap = Some (obj, r) \<and> rights_contains r EXECUTE)"
proof -
  have "fst (map_memory_with_capability True demo_cap 1 0x4000 PF_NO_EXECUTE demo) = Ok ()" by code_simp
  then show ?thesis
    using mapping_needs_execute [OF demo_reachable] demo_holds by fastforce
qed

end
