(* ===== verification/Cap_Inheritance.thy ===== *)
theory Cap_Inheritance
  imports Cap_Manager
begin

text \<open>
  Inheritance of capabilities across fork, exec and spawn, and the delegation of a single
  capability, from \<open>src/kernel/src/cap/inheritance.rs\<close>. The parent's space is only read, so every
  function takes it as a value and threads the child's space. Counters are \<open>u32\<close> as in the source.
\<close>

section \<open>Policies\<close>

datatype inheritance_policy = PolNone | PolAll | PolInheritable | PolReduced | PolCustom

definition DEFAULT_INHERITANCE_POLICY :: inheritance_policy where
  "DEFAULT_INHERITANCE_POLICY = PolInheritable"

definition reduce_rights_for_inheritance :: "rights \<Rightarrow> rights" where
  "reduce_rights_for_inheritance original = rights_remove (rights_remove original GRANT) REVOKE"

fun should_inherit :: "capability_token \<Rightarrow> u32 \<Rightarrow> inheritance_policy \<Rightarrow> bool" where
  "should_inherit cap flags PolNone = False"
| "should_inherit cap flags PolAll = True"
| "should_inherit cap flags PolInheritable = (flags AND INHERITABLE \<noteq> 0)"
| "should_inherit cap flags PolReduced = True"
| "should_inherit cap flags PolCustom = (flags AND INHERITABLE \<noteq> 0)"

section \<open>Inheritance\<close>

text \<open>
  The body all the loops share: one insertion into the child's space, counted where it succeeds.
\<close>

definition inherit_entry :: "capability_entry \<Rightarrow> rights \<Rightarrow> u32 \<times> capability_space \<Rightarrow>
    u32 \<times> capability_space" where
  "inherit_entry e r acc =
     (case acc of (n, child) \<Rightarrow>
        (case space_insert child (ent_capability e) (ent_object e) r of
           (Ok _, child') \<Rightarrow> (n + 1, child')
         | (Err _, child') \<Rightarrow> (n, child')))"

text \<open>The indices of \<open>for cap_id in 0..256\<close>, and the loop over the entries found there.\<close>

definition l1_ids :: "usize list" where
  "l1_ids = map word_of_nat [0..<256]"

lemma l1_ids_code [code]: "l1_ids = map word_of_int [0..255]"
proof -
  have "map (word_of_int :: int \<Rightarrow> u64) (map int [0..<256]) = map word_of_int [0..255]"
    by (subst map_int_upt) simp
  then show ?thesis by (simp add: l1_ids_def o_def)
qed

definition get_capability_at :: "capability_space \<Rightarrow> usize \<Rightarrow> capability_entry option" where
  "get_capability_at space index = get_entry space index"

fun inherit_l1 :: "(capability_entry \<Rightarrow> bool) \<Rightarrow> (capability_entry \<Rightarrow> rights) \<Rightarrow> capability_space \<Rightarrow>
    usize list \<Rightarrow> u32 \<times> capability_space \<Rightarrow> u32 \<times> capability_space" where
  "inherit_l1 sel rts parent [] acc = acc"
| "inherit_l1 sel rts parent (cap_id # ids) acc =
     inherit_l1 sel rts parent ids
       (case get_capability_at parent cap_id of
          None \<Rightarrow> acc
        | Some e \<Rightarrow> if sel e then inherit_entry e (rts e) acc else acc)"

definition inherit_l2_capabilities :: "capability_space \<Rightarrow> capability_space \<Rightarrow> u32 option \<Rightarrow>
    u32 \<times> capability_space" where
  "inherit_l2_capabilities parent child required_flag =
     iter_capabilities parent
       (\<lambda>e acc.
          if token_id (ent_capability e) < 256 then (True, acc)
          else if (case required_flag of
                     Some flag \<Rightarrow> ent_inheritance_flags e AND flag = 0
                   | None \<Rightarrow> False) then (True, acc)
          else (True, inherit_entry e (ent_rights e) acc))
       (0, child)"

definition inherit_l2_capabilities_reduced :: "capability_space \<Rightarrow> capability_space \<Rightarrow>
    u32 \<times> capability_space" where
  "inherit_l2_capabilities_reduced parent child =
     iter_capabilities parent
       (\<lambda>e acc.
          if token_id (ent_capability e) < 256 then (True, acc)
          else (True, inherit_entry e (reduce_rights_for_inheritance (ent_rights e)) acc))
       (0, child)"

function (sequential) inherit_capabilities :: "capability_space \<Rightarrow> capability_space \<Rightarrow>
    inheritance_policy \<Rightarrow> (u32, kernel_error) result \<times> capability_space" where
  "inherit_capabilities parent child PolNone = (Ok 0, child)"
| "inherit_capabilities parent child PolAll =
     (case inherit_l1 (\<lambda>_. True) ent_rights parent l1_ids (0, child) of
        (n, child1) \<Rightarrow>
          (case inherit_l2_capabilities parent child1 None of (m, child2) \<Rightarrow> (Ok (n + m), child2)))"
| "inherit_capabilities parent child PolInheritable =
     (case inherit_l1 (\<lambda>e. should_inherit (ent_capability e) (ent_inheritance_flags e) PolInheritable)
             ent_rights parent l1_ids (0, child) of
        (n, child1) \<Rightarrow>
          (case inherit_l2_capabilities parent child1 (Some INHERITABLE) of
             (m, child2) \<Rightarrow> (Ok (n + m), child2)))"
| "inherit_capabilities parent child PolReduced =
     (case inherit_l1 (\<lambda>_. True) (\<lambda>e. reduce_rights_for_inheritance (ent_rights e)) parent l1_ids
             (0, child) of
        (n, child1) \<Rightarrow>
          (case inherit_l2_capabilities_reduced parent child1 of
             (m, child2) \<Rightarrow> (Ok (n + m), child2)))"
| "inherit_capabilities parent child PolCustom = inherit_capabilities parent child PolInheritable"
  by pat_completeness auto
termination
  by (relation "measure (\<lambda>(_, _, p). if p = PolCustom then 1 else 0)") auto

declare inherit_capabilities.simps [simp del]

definition fork_inherit_capabilities :: "capability_space \<Rightarrow> capability_space \<Rightarrow>
    (unit, kernel_error) result \<times> capability_space" where
  "fork_inherit_capabilities parent child =
     (case inherit_capabilities parent child PolAll of
        (Err e, child') \<Rightarrow> (Err e, child')
      | (Ok _, child') \<Rightarrow> (Ok (), child'))"

text \<open>\<open>exec\<close>: only the identifiers below 256 are visited, and failed insertions are only printed.\<close>

definition exec_inherit_capabilities :: "capability_space \<Rightarrow> capability_space \<Rightarrow>
    (unit, kernel_error) result \<times> capability_space" where
  "exec_inherit_capabilities old_space new_space =
     (Ok (), snd (inherit_l1
        (\<lambda>e. ent_inheritance_flags e AND PRESERVE_EXEC \<noteq> 0)
        (\<lambda>e. if ent_inheritance_flags e AND REDUCE_RIGHTS \<noteq> 0
              then reduce_rights_for_inheritance (ent_rights e) else ent_rights e)
        old_space l1_ids (0, new_space)))"

definition inherit_for_syscall :: "string \<Rightarrow> capability_space \<Rightarrow> capability_space \<Rightarrow>
    (unit, kernel_error) result \<times> capability_space" where
  "inherit_for_syscall syscall parent child =
     (if syscall = ''fork'' then fork_inherit_capabilities parent child
      else if syscall = ''exec'' then exec_inherit_capabilities parent child
      else if syscall = ''spawn'' then
        (case inherit_capabilities parent child PolInheritable of
           (Err e, child') \<Rightarrow> (Err e, child')
         | (Ok _, child') \<Rightarrow> (Ok (), child'))
      else (Err (KeInvalidArgument ''syscall'' ''unknown syscall for capability inheritance''), child))"

section \<open>Initial capabilities\<close>

text \<open>
  \<open>create_initial_capabilities\<close> makes four capabilities in order and stops at the first failure;
  \<open>endpoint\<close> is the pointer of the new \<open>Arc<Endpoint>\<close>.
\<close>

fun create_each :: "(object_ref \<times> rights) list \<Rightarrow> u64 \<Rightarrow> cap_system \<Rightarrow>
    (unit, kernel_error) result \<times> cap_system" where
  "create_each [] sp sys = (Ok (), sys)"
| "create_each ((obj, r) # rest) sp sys =
     (case create_capability obj r sp sys of
        (Err _, sys1) \<Rightarrow> (Err (KeInvalidCapability 0 KcInvalidObject), sys1)
      | (Ok _, sys1) \<Rightarrow> create_each rest sp sys1)"

definition create_initial_capabilities :: "u64 \<Rightarrow> u64 \<Rightarrow> u64 \<Rightarrow> cap_system \<Rightarrow>
    (unit, kernel_error) result \<times> cap_system" where
  "create_initial_capabilities endpoint process_id sp sys =
     create_each
       [(ObjProcess process_id, READ OR MODIFY),
        (ObjEndpoint endpoint, READ OR WRITE OR EXECUTE),
        (ObjMemory 0 0x100000 attributes_normal, READ OR WRITE),
        (ObjMemory 0 0x1000000 attributes_normal, READ OR WRITE)] sp sys"

section \<open>Delegation\<close>

text \<open>\<open>counter\<close> is the global identifier counter of \<open>alloc_cap_id\<close>; source and target are two spaces.\<close>

definition delegate_capability :: "capability_space \<Rightarrow> capability_space \<Rightarrow> capability_token \<Rightarrow>
    rights option \<Rightarrow> u64 \<Rightarrow>
    (capability_token, kernel_error) result \<times> capability_space \<times> capability_space \<times> u64" where
  "delegate_capability source target cap new_rights counter =
     (case lookup_entry source cap of
        (None, source1) \<Rightarrow>
          (Err (KeInvalidCapability (token_id cap) KcNotFound), source1, target, counter)
      | (Some (obj, source_rights), source1) \<Rightarrow>
          if \<not> rights_contains source_rights GRANT
          then (Err (KePermissionDenied ''delegate_capability''), source1, target, counter)
          else
            (case (case new_rights of
                     Some requested \<Rightarrow>
                       if \<not> rights_contains source_rights requested
                       then Err (KeInsufficientRights (rights_bits requested) (rights_bits source_rights))
                       else Ok requested
                   | None \<Rightarrow> Ok (source_rights AND NOT GRANT)) of
               Err e \<Rightarrow> (Err e, source1, target, counter)
             | Ok target_rights \<Rightarrow>
                 (case alloc_cap_id counter of
                    (Err _, counter') \<Rightarrow>
                      (Err (KeResourceExhausted ''capability IDs''), source1, target, counter')
                  | (Ok new_cap_id, counter') \<Rightarrow>
                      let new_cap = from_parts new_cap_id 0 (sp_generation target) 0 in
                      (case space_insert target new_cap obj target_rights of
                         (Err e, target') \<Rightarrow> (Err e, source1, target', counter')
                       | (Ok _, target') \<Rightarrow> (Ok new_cap, source1, target', counter')))))"

definition cascading_revoke :: "capability_space \<Rightarrow> capability_token \<Rightarrow>
    (nat, kernel_error) result \<times> capability_space" where
  "cascading_revoke space parent_cap =
     (case space_remove space parent_cap of
        (Some _, s') \<Rightarrow> (Ok 1, s')
      | (None, s') \<Rightarrow> (Err (KeInvalidCapability (token_id parent_cap) KcNotFound), s'))"

section \<open>The loops as batches of insertions\<close>

definition inherit_list :: "(capability_entry \<Rightarrow> bool) \<Rightarrow> (capability_entry \<Rightarrow> rights) \<Rightarrow>
    capability_entry list \<Rightarrow> u32 \<times> capability_space \<Rightarrow> u32 \<times> capability_space" where
  "inherit_list sel rts es acc =
     fold (\<lambda>e acc. inherit_entry e (rts e) acc) (filter sel es) acc"

definition inherited_triples :: "inheritance_policy \<Rightarrow> capability_space \<Rightarrow>
    (capability_token \<times> object_ref \<times> rights) list" where
  "inherited_triples policy parent =
     map (\<lambda>e. (ent_capability e, ent_object e,
            if policy = PolReduced then reduce_rights_for_inheritance (ent_rights e) else ent_rights e))
       (filter (\<lambda>e. should_inherit (ent_capability e) (ent_inheritance_flags e) policy)
         (space_entries parent))"

lemma inherit_l1_list:
  "inherit_l1 sel rts parent ids acc =
     inherit_list sel rts (List.map_filter (get_entry parent) ids) acc"
  by (induction sel rts parent ids acc rule: inherit_l1.induct)
    (auto simp: inherit_list_def List.map_filter_def get_capability_at_def split: option.splits)

lemma map_filter_map_cong:
  "(\<And>n. n \<in> set ns \<Longrightarrow> f (h n) = g (h' n)) \<Longrightarrow>
   List.map_filter f (map h ns) = List.map_filter g (map h' ns)"
  by (induction ns) (simp_all add: List.map_filter_def)

lemma l1_entries: "List.map_filter (get_entry parent) l1_ids = table_entries (l1_table parent)"
proof -
  have "get_entry parent (word_of_nat n) = l1_table parent (word_of_nat n)" if "n < 256" for n
  proof -
    have "(word_of_nat n :: u64) < 256" using that by (simp add: word_less_nat_alt unat_of_nat)
    moreover have "ucast (word_of_nat n :: u64) = (word_of_nat n :: u8)"
      by (rule bit_eqI) (auto simp: bit_simps)
    ultimately show ?thesis by (simp add: get_entry_def L1_SIZE_def)
  qed
  then show ?thesis
    unfolding l1_ids_def table_entries_def byte_indices_def by (intro map_filter_map_cong) simp
qed

lemma iter_until_fold:
  "iter_until (\<lambda>e st. (True, if P e then g e st else st)) es st = fold g (filter P es) st"
  by (induction es arbitrary: st) simp_all

lemma inherit_l2_list:
  "inherit_l2_capabilities parent child flag =
     inherit_list (\<lambda>e. \<not> token_id (ent_capability e) < 256 \<and>
         (case flag of Some f \<Rightarrow> ent_inheritance_flags e AND f \<noteq> 0 | None \<Rightarrow> True))
       ent_rights (space_entries parent) (0, child)"
proof -
  have cb: "(\<lambda>e acc. if token_id (ent_capability e) < 256 then (True, acc)
          else if (case flag of Some f \<Rightarrow> ent_inheritance_flags e AND f = 0 | None \<Rightarrow> False) then (True, acc)
          else (True, inherit_entry e (ent_rights e) acc)) =
     (\<lambda>e acc. (True, if \<not> token_id (ent_capability e) < 256 \<and>
         (case flag of Some f \<Rightarrow> ent_inheritance_flags e AND f \<noteq> 0 | None \<Rightarrow> True)
       then inherit_entry e (ent_rights e) acc else acc))"
    by (intro ext) (simp split: option.splits)
  show ?thesis
    unfolding inherit_l2_capabilities_def iter_capabilities_def cb iter_until_fold inherit_list_def ..
qed

lemma inherit_l2_reduced_list:
  "inherit_l2_capabilities_reduced parent child =
     inherit_list (\<lambda>e. \<not> token_id (ent_capability e) < 256)
       (\<lambda>e. reduce_rights_for_inheritance (ent_rights e)) (space_entries parent) (0, child)"
proof -
  have cb: "(\<lambda>e acc. if token_id (ent_capability e) < 256 then (True, acc)
          else (True, inherit_entry e (reduce_rights_for_inheritance (ent_rights e)) acc)) =
     (\<lambda>e acc. (True, if \<not> token_id (ent_capability e) < 256
       then inherit_entry e (reduce_rights_for_inheritance (ent_rights e)) acc else acc))"
    by (intro ext) simp
  show ?thesis
    unfolding inherit_l2_capabilities_reduced_def iter_capabilities_def cb iter_until_fold
      inherit_list_def ..
qed

lemma filter_l2_entries:
  assumes "space_wf s"
  shows "filter (\<lambda>e. \<not> token_id (ent_capability e) < 256 \<and> P e) (space_entries s) =
    filter P (concat (map (\<lambda>b. table_entries (snd b)) (l2_tables s)))"
proof -
  have "token_id (ent_capability e) < 256" if "e \<in> set (table_entries (l1_table s))" for e
  proof -
    from that obtain i where "slot_entry s (L1Slot i) = Some e" by (auto simp: set_table_entries)
    from space_wfD [OF assms this] show ?thesis by (auto simp: slot_of_def L1_SIZE_def split: if_splits)
  qed
  moreover have "\<not> token_id (ent_capability e) < 256"
    if "e \<in> set (concat (map (\<lambda>b. table_entries (snd b)) (l2_tables s)))" for e
  proof -
    from that obtain k t i where kt: "(k, t) \<in> set (l2_tables s)" "t i = Some e"
      by (auto simp: set_table_entries)
    then have "bt_get (l2_tables s) k = Some t" using assms by (simp add: bt_get_iff space_wf_def)
    then have "slot_entry s (L2Slot k i) = Some e" using kt by simp
    from space_wfD [OF assms this] show ?thesis by (auto simp: slot_of_def L1_SIZE_def split: if_splits)
  qed
  ultimately show ?thesis
    unfolding space_entries_def filter_append
    by (subst filter_False, blast, subst filter_cong [OF refl]) auto
qed

text \<open>Counting from a start value, so that the two phases of a policy join into one batch.\<close>

lemma inherit_entry_shift:
  "inherit_entry e r (n + m, child) = (case inherit_entry e r (m, child) of (k, c) \<Rightarrow> (n + k, c))"
  by (auto simp: inherit_entry_def algebra_simps split: prod.splits result.splits)

lemma inherit_list_shift:
  "inherit_list sel rts es (n + m, child) = (case inherit_list sel rts es (m, child) of (k, c) \<Rightarrow> (n + k, c))"
proof -
  have "fold (\<lambda>e acc. inherit_entry e (rts e) acc) es (n + m, child) =
      (case fold (\<lambda>e acc. inherit_entry e (rts e) acc) es (m, child) of (k, c) \<Rightarrow> (n + k, c))" for es
  proof (induction es arbitrary: m child)
    case (Cons e es)
    show ?case
      by (cases "inherit_entry e (rts e) (m, child)") (simp add: inherit_entry_shift Cons)
  qed simp
  then show ?thesis by (simp add: inherit_list_def)
qed

lemma inherit_phases:
  assumes "space_wf parent" "\<And>e. sel2 e \<longleftrightarrow> \<not> token_id (ent_capability e) < 256 \<and> sel e"
  shows "(case inherit_list sel rts (table_entries (l1_table parent)) (0, child) of
      (n, child1) \<Rightarrow> (case inherit_list sel2 rts (space_entries parent) (0, child1) of
         (m, child2) \<Rightarrow> (Ok (n + m), child2))) =
    (case inherit_list sel rts (space_entries parent) (0, child) of (n, c) \<Rightarrow> (Ok n, c))"
proof -
  obtain n child1 where 1: "inherit_list sel rts (table_entries (l1_table parent)) (0, child) = (n, child1)"
    by force
  have sel2: "sel2 = (\<lambda>e. \<not> token_id (ent_capability e) < 256 \<and> sel e)" using assms(2) by blast
  have "inherit_list sel rts (space_entries parent) (0, child) =
      inherit_list sel2 rts (space_entries parent) (n + 0, child1)"
    using 1 unfolding inherit_list_def sel2 filter_l2_entries [OF assms(1)]
    by (simp add: space_entries_def)
  then show ?thesis
    unfolding 1 inherit_list_shift by (simp split: prod.splits)
qed

lemma inherit_capabilities_list:
  assumes "space_wf parent"
  shows "inherit_capabilities parent child policy =
    (case inherit_list (\<lambda>e. should_inherit (ent_capability e) (ent_inheritance_flags e) policy)
        (\<lambda>e. if policy = PolReduced then reduce_rights_for_inheritance (ent_rights e) else ent_rights e)
        (space_entries parent) (0, child) of (n, c) \<Rightarrow> (Ok n, c))"
proof (cases policy)
  case PolNone
  then show ?thesis by (simp add: inherit_list_def inherit_capabilities.simps)
qed (simp_all add: inherit_capabilities.simps inherit_l1_list l1_entries inherit_l2_list inherit_l2_reduced_list
      inherit_phases [OF assms])

lemma inherit_list_batch:
  "snd (inherit_list sel rts es (n, child)) =
     fold (\<lambda>(cap, obj, r) s. snd (space_insert s cap obj r))
       (map (\<lambda>e. (ent_capability e, ent_object e, rts e)) (filter sel es)) child"
proof -
  have "snd (fold (\<lambda>e acc. inherit_entry e (rts e) acc) es (n, child)) =
     fold (\<lambda>(cap, obj, r) s. snd (space_insert s cap obj r))
       (map (\<lambda>e. (ent_capability e, ent_object e, rts e)) es) child" for es
  proof (induction es arbitrary: n child)
    case (Cons e es)
    have "snd (inherit_entry e (rts e) (n, child)) = snd (space_insert child (ent_capability e) (ent_object e) (rts e))"
      by (auto simp: inherit_entry_def split: prod.splits result.splits)
    then show ?case
      by (cases "inherit_entry e (rts e) (n, child)") (simp add: Cons)
  qed simp
  then show ?thesis by (simp add: inherit_list_def)
qed

lemma inherit_capabilities_batch:
  assumes "space_wf parent"
  shows "snd (inherit_capabilities parent child policy) =
    fold (\<lambda>(cap, obj, r) s. snd (space_insert s cap obj r)) (inherited_triples policy parent) child"
  unfolding inherit_capabilities_list [OF assms] inherited_triples_def inherit_list_batch [of _ _ _ 0, symmetric]
  by (simp split: prod.splits)


lemma exec_inherit_batch:
  "snd (exec_inherit_capabilities old new) =
     fold (\<lambda>(cap, obj, r) s. snd (space_insert s cap obj r))
       (map (\<lambda>e. (ent_capability e, ent_object e,
             if ent_inheritance_flags e AND REDUCE_RIGHTS \<noteq> 0
             then reduce_rights_for_inheritance (ent_rights e) else ent_rights e))
         (filter (\<lambda>e. ent_inheritance_flags e AND PRESERVE_EXEC \<noteq> 0) (table_entries (l1_table old)))) new"
  unfolding exec_inherit_capabilities_def snd_conv inherit_l1_list l1_entries inherit_list_batch ..

section \<open>Spaces the kernel can build\<close>

text \<open>
  How a space of the kernel comes about: a fresh one, any operation on it, a copy of another one
  (\<open>clone_from\<close>, as fork makes it), and inheritance on a system call.
\<close>

inductive kernel_space :: "capability_space \<Rightarrow> bool" where
  ks_new: "kernel_space (space_with_quota q)"
| ks_op: "kernel_space s \<Longrightarrow> kernel_space (space_step s op)"
| ks_clone: "kernel_space s \<Longrightarrow> kernel_space other \<Longrightarrow> kernel_space (space_clone_from s other)"
| ks_inherit: "kernel_space parent \<Longrightarrow> kernel_space child \<Longrightarrow>
    kernel_space (snd (inherit_for_syscall syscall parent child))"

definition default_flags :: "capability_space \<Rightarrow> bool" where
  "default_flags s \<longleftrightarrow> (\<forall>sl e. slot_entry s sl = Some e \<longrightarrow> ent_inheritance_flags e = INHERITABLE)"

lemma default_flags_insert:
  assumes "default_flags s"
  shows "default_flags (snd (space_insert s cap obj r))"
proof (cases "space_insert s cap obj r")
  case (Pair res s')
  show ?thesis
  proof (cases res)
    case (Ok u)
    then show ?thesis
      using Pair assms slot_entry_insert_Ok(2) [of s cap obj r u s'] by (auto simp: default_flags_def)
  next
    case (Err e)
    then show ?thesis using Pair assms space_insert_Err by fastforce
  qed
qed

lemma default_flags_batch:
  "default_flags s \<Longrightarrow> default_flags (fold (\<lambda>(cap, obj, r) s. snd (space_insert s cap obj r)) xs s)"
  by (induction xs arbitrary: s) (auto simp: default_flags_insert)

lemma default_flags_probe:
  assumes "probe s cap = Some (e, s')" "default_flags s"
  shows "default_flags s'"
  using probe_state(1) [OF assms(1)] assms(2) by (auto simp: default_flags_def touch_def split: if_splits)

lemma default_flags_upd [simp]:
  "default_flags (s\<lparr>misses := a\<rparr>) = default_flags s" "default_flags (s\<lparr>lookups := b\<rparr>) = default_flags s"
  "default_flags (s\<lparr>sp_generation := g\<rparr>) = default_flags s"
proof -
  have "slot_entry (s\<lparr>misses := a\<rparr>) = slot_entry s" "slot_entry (s\<lparr>lookups := b\<rparr>) = slot_entry s"
    "slot_entry (s\<lparr>sp_generation := g\<rparr>) = slot_entry s"
    by (rule slot_entry_cong; simp)+
  then show "default_flags (s\<lparr>misses := a\<rparr>) = default_flags s"
    "default_flags (s\<lparr>lookups := b\<rparr>) = default_flags s"
    "default_flags (s\<lparr>sp_generation := g\<rparr>) = default_flags s"
    by (simp_all add: default_flags_def)
qed

lemma default_flags_clear: "default_flags (space_clear s)" "default_flags (space_with_quota q)"
proof -
  have "slot_entry (space_clear s) sl = None" "slot_entry (space_with_quota q) sl = None" for sl
    by (cases sl; simp add: space_clear_def space_with_quota_def empty_table_def bt.get_empty)+
  then show "default_flags (space_clear s)" "default_flags (space_with_quota q)"
    by (simp_all add: default_flags_def)
qed

lemma default_flags_lookup:
  assumes "default_flags s"
  shows "default_flags (snd (space_lookup s cap))" "default_flags (snd (lookup_entry s cap))"
    "default_flags (snd (check_rights s cap r))"
proof -
  have l: "default_flags (snd (space_lookup s cap))"
    using assms default_flags_probe [of "s\<lparr>lookups := lookups s + 1\<rparr>" cap]
    by (auto simp: space_lookup_def Let_def split: option.splits prod.splits)
  then show "default_flags (snd (space_lookup s cap))" .
  show "default_flags (snd (lookup_entry s cap))"
    using assms default_flags_probe [of s cap]
    by (auto simp: lookup_entry_def split: option.splits prod.splits)
  show "default_flags (snd (check_rights s cap r))"
    using l by (auto simp: check_rights_def split: option.splits prod.splits)
qed

lemma default_flags_step:
  assumes "default_flags s"
  shows "default_flags (space_step s op)"
proof -
  have rem: "default_flags (snd (space_remove s cap))" for cap
    using assms unfolding default_flags_def slot_entry_remove by (auto split: if_splits)
  show ?thesis
    using assms rem by (cases op) (simp_all add: default_flags_insert default_flags_lookup
        space_revoke_state default_flags_clear space_revoke_all_def increment_generation_def)
qed

lemma inherit_fst: "space_wf parent \<Longrightarrow> is_ok (fst (inherit_capabilities parent child policy))"
  by (simp add: inherit_capabilities_list split: prod.splits)

lemma fork_inherit_snd:
  "snd (fork_inherit_capabilities parent child) = snd (inherit_capabilities parent child PolAll)"
  unfolding fork_inherit_capabilities_def by (simp split: prod.splits result.splits)

lemma inherit_for_syscall_batch:
  assumes "space_wf parent"
  obtains xs where "snd (inherit_for_syscall syscall parent child) =
    fold (\<lambda>(cap, obj, r) s. snd (space_insert s cap obj r)) xs child"
proof -
  have spawn: "snd (case inherit_capabilities parent child PolInheritable of
           (Err e, child') \<Rightarrow> (Err e, child') | (Ok _, child') \<Rightarrow> (Ok (), child')) =
      snd (inherit_capabilities parent child PolInheritable)"
    by (simp split: prod.splits result.splits)
  consider "syscall = ''fork''" | "syscall = ''exec''" | "syscall = ''spawn''"
    | "syscall \<noteq> ''fork''" "syscall \<noteq> ''exec''" "syscall \<noteq> ''spawn''" by blast
  then show thesis
  proof cases
    case 1
    then show thesis
      by (intro that [of "inherited_triples PolAll parent"])
        (simp add: inherit_for_syscall_def fork_inherit_snd inherit_capabilities_batch [OF assms])
  next
    case 2
    then have "inherit_for_syscall syscall parent child = exec_inherit_capabilities parent child"
      by (simp add: inherit_for_syscall_def)
    then have "snd (inherit_for_syscall syscall parent child) = snd (exec_inherit_capabilities parent child)"
      by simp
    from trans [OF this exec_inherit_batch] show thesis by (rule that)
  next
    case 3
    then show thesis
      by (intro that [of "inherited_triples PolInheritable parent"])
        (simp add: inherit_for_syscall_def spawn inherit_capabilities_batch [OF assms])
  next
    case 4
    then show thesis by (intro that [of "[]"]) (simp add: inherit_for_syscall_def)
  qed
qed

lemma kernel_space_inv:
  assumes "kernel_space s"
  shows "space_wf s" "default_flags s"
proof -
  from assms have "space_wf s \<and> default_flags s"
  proof (induction rule: kernel_space.induct)
    case (ks_new q)
    show ?case by (simp add: space_wf_with_quota default_flags_clear)
  next
    case (ks_op s op)
    then show ?case by (simp add: space_wf_step default_flags_step)
  next
    case (ks_clone s other)
    then have "bt_wf (l2_tables other)" by (simp add: space_wf_def)
    then have "default_flags (space_clone_from s other)"
      using ks_clone by (auto simp: default_flags_def slot_entry_clone)
    then show ?case using ks_clone space_clone_from_spec(1) by blast
  next
    case (ks_inherit parent child syscall)
    obtain xs where "snd (inherit_for_syscall syscall parent child) =
      fold (\<lambda>(cap, obj, r) s. snd (space_insert s cap obj r)) xs child"
      using inherit_for_syscall_batch ks_inherit.IH by blast
    then show ?case using ks_inherit.IH cs.insert_all_wf default_flags_batch by simp
  qed
  then show "space_wf s" "default_flags s" by auto
qed

lemma reduce_rights_bits:
  "bit (reduce_rights_for_inheritance r) n \<longleftrightarrow> bit r n \<and> n \<noteq> 3 \<and> n \<noteq> 4"
proof -
  have "bit GRANT n \<longleftrightarrow> n = 3" "bit REVOKE n \<longleftrightarrow> n = 4"
    unfolding GRANT_def REVOKE_def bit_push_bit_iff bit_1_iff by auto
  then show ?thesis
    using bit_imp_le_length [of r n]
    by (auto simp: reduce_rights_for_inheritance_def rights_remove_def bit_simps)
qed

subsection \<open>A batch with room for everything\<close>

lemma inherit_batch_all:
  assumes "space_wf child" "distinct (map (\<lambda>e. slot_of (token_id (ent_capability e))) es)"
    and "\<And>e. e \<in> set es \<Longrightarrow> slot_entry child (slot_of (token_id (ent_capability e))) = None"
    and "unat (sp_used child) + length es \<le> unat (sp_quota child)"
  shows "\<exists>child'. fold (\<lambda>e acc. inherit_entry e (rts e) acc) es (n, child) = (n + of_nat (length es), child') \<and>
    (\<forall>c. space_view child' c =
       (case map_of (map (\<lambda>e. (ent_capability e, ent_object e, rts e)) es) c of
          Some v \<Rightarrow> Some v | None \<Rightarrow> space_view child c))"
  using assms
proof (induction es arbitrary: n child)
  case (Cons e es)
  let ?c = "ent_capability e"
  have lt: "sp_used child < sp_quota child" using Cons.prems(4) by (simp add: word_less_nat_alt)
  have "fst (space_insert child ?c (ent_object e) (rts e)) = Ok ()"
    using lt Cons.prems(3) [of e] by (simp add: space_insert_result not_le)
  then obtain s1 where s1: "space_insert child ?c (ent_object e) (rts e) = (Ok (), s1)" by (metis okI)
  note ins = slot_entry_insert_Ok [OF s1] and view = space_insert_view [OF Cons.prems(1) s1]
  have "unat (sp_used s1) = unat (sp_used child) + 1" using lt ins(3) by (simp add: unat_inc)
  moreover have "slot_entry s1 (slot_of (token_id (ent_capability e'))) = None" if "e' \<in> set es" for e'
  proof -
    have "slot_of (token_id (ent_capability e')) \<in> (\<lambda>e. slot_of (token_id (ent_capability e))) ` set es"
      using that by (rule imageI)
    then have "slot_of (token_id (ent_capability e')) \<noteq> slot_of (token_id ?c)" using Cons.prems(2) by auto
    then show ?thesis using that Cons.prems(3) by (simp add: ins(2))
  qed
  ultimately obtain child' where
    fold: "fold (\<lambda>e acc. inherit_entry e (rts e) acc) es (n + 1, s1) = (n + 1 + of_nat (length es), child')"
    and v: "\<And>c. space_view child' c =
       (case map_of (map (\<lambda>e. (ent_capability e, ent_object e, rts e)) es) c of
          Some v \<Rightarrow> Some v | None \<Rightarrow> space_view s1 c)"
    using Cons.IH [of s1 "n + 1"] Cons.prems(2,4) view(3) ins(6) by auto
  have "map_of (map (\<lambda>e. (ent_capability e, ent_object e, rts e)) es) ?c = None"
    using Cons.prems(2) by (auto simp: map_of_eq_None_iff image_iff)
  then have "space_view child' c =
       (case map_of (map (\<lambda>e. (ent_capability e, ent_object e, rts e)) (e # es)) c of
          Some v \<Rightarrow> Some v | None \<Rightarrow> space_view child c)" for c
    by (simp add: v view(1) split: option.splits)
  moreover have "fold (\<lambda>e acc. inherit_entry e (rts e) acc) (e # es) (n, child) =
      (n + of_nat (length (e # es)), child')"
    using fold by (simp add: inherit_entry_def s1 algebra_simps)
  ultimately show ?case by blast
qed simp

lemma space_entries_slots:
  assumes "space_wf s"
  shows "distinct (map (\<lambda>e. slot_of (token_id (ent_capability e))) (space_entries s))"
proof (rule card_distinct)
  have wf: "bt_wf (l2_tables s)" using assms by (simp add: space_wf_def)
  have "set (map (\<lambda>e. slot_of (token_id (ent_capability e))) (space_entries s)) = dom (slot_entry s)"
    using space_wfD [OF assms] by (force simp: set_space_entries [OF wf])
  then show "card (set (map (\<lambda>e. slot_of (token_id (ent_capability e))) (space_entries s))) =
      length (map (\<lambda>e. slot_of (token_id (ent_capability e))) (space_entries s))"
    by (simp add: length_space_entries [OF wf])
qed

lemma map_of_space_entries:
  assumes "space_wf s"
  shows "map_of (map (\<lambda>e. (ent_capability e, ent_object e, ent_rights e)) (space_entries s)) c = space_view s c"
proof -
  let ?xs = "map (\<lambda>e. (ent_capability e, ent_object e, ent_rights e)) (space_entries s)"
  have wf: "bt_wf (l2_tables s)" using assms by (simp add: space_wf_def)
  have "distinct (map (slot_of \<circ> token_id) (map fst ?xs))"
    using space_entries_slots [OF assms] by (simp add: o_def)
  then have "distinct (map fst ?xs)" by (simp only: distinct_map)
  then have "map_of ?xs c = Some v \<longleftrightarrow> (c, v) \<in> set ?xs" for v by (rule map_of_eq_Some_iff)
  also have "(c, v) \<in> set ?xs \<longleftrightarrow> space_view s c = Some v" for v
  proof
    assume "(c, v) \<in> set ?xs"
    then obtain e sl where "slot_entry s sl = Some e" "c = ent_capability e" "v = (ent_object e, ent_rights e)"
      by (auto simp: set_space_entries [OF wf])
    with space_wfD [OF assms this(1)] show "space_view s c = Some v" by (simp add: space_view_def)
  next
    assume "space_view s c = Some v"
    then obtain e where "slot_entry s (slot_of (token_id c)) = Some e" "c = ent_capability e"
      "v = (ent_object e, ent_rights e)"
      by (auto simp: space_view_def split: option.splits if_splits)
    moreover from this have "e \<in> set (space_entries s)" by (auto simp: set_space_entries [OF wf])
    ultimately show "(c, v) \<in> set ?xs" by simp
  qed
  finally have eq: "map_of ?xs c = Some v \<longleftrightarrow> space_view s c = Some v" for v .
  show ?thesis
    using eq [of "the (map_of ?xs c)"] eq [of "the (space_view s c)"]
    by (cases "map_of ?xs c"; cases "space_view s c") simp_all
qed


section \<open>Properties\<close>

abbreviation demo_space :: capability_space where
  "demo_space \<equiv> space_step (space_step (space_with_quota 8) (OpInsert 5 (ObjDevice 7) RIGHTS_ALL))
     (OpInsert 0x102 (ObjProcess 3) (READ OR WRITE))"

lemma demo_space_kernel: "kernel_space demo_space" "kernel_space (space_with_quota 8)"
  by (intro ks_op ks_new)+

text \<open>
  C14. Inheritance follows the policy and adds nothing: whatever the child holds afterwards it held
  before, or the parent holds it under the same token with flags the policy accepts, for the same
  object, with the parent's rights or, under the reducing policy, those without grant and revoke.
\<close>

theorem inheritance_follows_policy:
  assumes "kernel_space parent" "kernel_space child"
    and "space_view (snd (inherit_capabilities parent child policy)) c = Some (obj, r)"
  shows "space_view child c = Some (obj, r) \<or>
    (\<exists>e. get_entry parent (token_id c) = Some e \<and> ent_capability e = c \<and> ent_object e = obj \<and>
       should_inherit c (ent_inheritance_flags e) policy \<and>
       r = (if policy = PolReduced then reduce_rights_for_inheritance (ent_rights e) else ent_rights e) \<and>
       rights_contains (ent_rights e) r)"
proof -
  note wf = kernel_space_inv(1) [OF assms(1)] kernel_space_inv(1) [OF assms(2)]
  have l2: "bt_wf (l2_tables parent)" using wf(1) by (simp add: space_wf_def)
  have red: "rights_contains x (if policy = PolReduced then reduce_rights_for_inheritance x else x)" for x
    by (simp add: rights_contains_bits reduce_rights_bits)
  have "space_view child c = Some (obj, r) \<or> (c, obj, r) \<in> set (inherited_triples policy parent)"
    using cs.insert_all_view [OF wf(2)] assms(3) unfolding inherit_capabilities_batch [OF wf(1)] by blast
  then show ?thesis
  proof
    assume "(c, obj, r) \<in> set (inherited_triples policy parent)"
    then obtain e where e: "e \<in> set (space_entries parent)" "ent_capability e = c" "ent_object e = obj"
      "should_inherit c (ent_inheritance_flags e) policy"
      "r = (if policy = PolReduced then reduce_rights_for_inheritance (ent_rights e) else ent_rights e)"
      unfolding inherited_triples_def by auto
    then obtain sl where sl: "slot_entry parent sl = Some e" by (auto simp: set_space_entries [OF l2])
    have "get_entry parent (token_id c) = Some e"
      using space_wfD [OF wf(1) sl] sl e(2) by (simp add: get_entry_slot)
    then show ?thesis using e red by metis
  qed blast
qed

text \<open>
  C32. Fork copies everything: into a fresh space with room for the parent's entries, fork
  inheritance succeeds, counts every entry, and the child holds exactly what the parent holds.
\<close>

theorem fork_copies_everything:
  assumes "kernel_space parent" "length (space_entries parent) \<le> unat q"
    and "child = snd (fork_inherit_capabilities parent (space_with_quota q))"
  shows "fst (inherit_capabilities parent (space_with_quota q) PolAll) =
      Ok (of_nat (length (space_entries parent))) \<and> space_view child = space_view parent"
proof -
  note wf = kernel_space_inv(1) [OF assms(1)]
  have empty: "slot_entry (space_with_quota q) sl = None" for sl
    by (cases sl) (simp_all add: space_with_quota_def empty_table_def bt.get_empty)
  have "unat (sp_used (space_with_quota q)) + length (space_entries parent) \<le> unat (sp_quota (space_with_quota q))"
    using assms(2) by (simp add: space_with_quota_def)
  from inherit_batch_all [OF space_wf_with_quota(1) space_entries_slots [OF wf] empty this,
      of ent_rights 0]
  obtain child' where c: "fold (\<lambda>e acc. inherit_entry e (ent_rights e) acc) (space_entries parent)
        (0, space_with_quota q) = (of_nat (length (space_entries parent)), child')"
    and v: "\<And>c. space_view child' c =
      (case map_of (map (\<lambda>e. (ent_capability e, ent_object e, ent_rights e)) (space_entries parent)) c of
         Some v \<Rightarrow> Some v | None \<Rightarrow> space_view (space_with_quota q) c)" by auto
  have "space_view (space_with_quota q) c = None" for c by (simp add: space_view_def empty)
  then have "space_view child' = space_view parent"
    by (intro ext) (simp add: v map_of_space_entries [OF wf] split: option.splits)
  then show ?thesis
    using c by (simp add: assms(3) fork_inherit_snd inherit_capabilities_list [OF wf] inherit_list_def)
qed

text \<open>
  Nothing survives exec: no operation of the kernel ever marks an entry with \<open>PRESERVE_EXEC\<close>, so
  exec inheritance always succeeds and always leaves the new space as it was.
\<close>

theorem exec_inherits_nothing:
  assumes "kernel_space old"
  shows "exec_inherit_capabilities old new = (Ok (), new)"
proof -
  note inv = kernel_space_inv [OF assms]
  have "ent_inheritance_flags e AND PRESERVE_EXEC = 0" if "e \<in> set (table_entries (l1_table old))" for e
  proof -
    from that obtain i where "slot_entry old (L1Slot i) = Some e" by (auto simp: set_table_entries)
    then have "ent_inheritance_flags e = INHERITABLE" using inv(2) unfolding default_flags_def by blast
    then show ?thesis by (simp add: INHERITABLE_def PRESERVE_EXEC_def)
  qed
  then have "filter (\<lambda>e. ent_inheritance_flags e AND PRESERVE_EXEC \<noteq> 0) (table_entries (l1_table old)) = []"
    by (simp add: filter_empty_conv)
  then have "snd (exec_inherit_capabilities old new) = new"
    unfolding exec_inherit_batch by simp
  then show ?thesis by (simp add: exec_inherit_capabilities_def)
qed

text \<open>
  Delegating one capability attenuates it: it succeeds only for a token the source holds with
  the grant right, and adds to the target one token, with a new identifier, for the same object,
  with the requested rights, which the source must hold, or the source's rights without grant.
\<close>

theorem delegate_capability_attenuates:
  assumes "kernel_space source" "kernel_space target"
    and "delegate_capability source target cap new_rights counter = (Ok new_cap, source', target', counter')"
  shows "\<exists>obj r r'. space_view source cap = Some (obj, r) \<and> rights_contains r GRANT \<and>
    rights_contains r r' \<and> r' = (case new_rights of Some q \<Rightarrow> q | None \<Rightarrow> rights_remove r GRANT) \<and>
    space_view target' = (space_view target)(new_cap \<mapsto> (obj, r')) \<and>
    space_view source' = space_view source \<and> token_id new_cap = counter \<and> counter < counter'"
proof -
  note wf = kernel_space_inv(1) [OF assms(1)] kernel_space_inv(1) [OF assms(2)]
  obtain res s1 where l: "lookup_entry source cap = (res, s1)" by force
  have s1: "res = space_view source cap" "space_view s1 = space_view source"
    using lookup_entry_spec [OF wf(1), of cap] l by simp_all
  note eq = assms(3) [unfolded delegate_capability_def l]
  obtain obj r where res: "res = Some (obj, r)" using eq by (cases res) auto
  have grant: "rights_contains r GRANT" using eq res by (auto split: if_splits)
  define r' where "r' = (case new_rights of Some q \<Rightarrow> q | None \<Rightarrow> rights_remove r GRANT)"
  have ok: "(case new_rights of
       Some requested \<Rightarrow> if \<not> rights_contains r requested
         then Err (KeInsufficientRights (rights_bits requested) (rights_bits r)) else Ok requested
     | None \<Rightarrow> Ok (r AND NOT GRANT)) = Ok r'" and r': "rights_contains r r'"
    using eq res grant
    by (auto simp: r'_def rights_remove_def rights_contains_remove [unfolded rights_remove_def]
        split: option.splits if_splits)
  obtain cid where al: "alloc_cap_id counter = (Ok cid, counter')"
    and nc: "new_cap = from_parts cid 0 (sp_generation target) 0"
    and ins: "space_insert target new_cap obj r' = (Ok (), target')" and src: "source' = s1"
    using eq unfolding res by (auto simp: grant ok Let_def split: prod.splits result.splits)
  have "token_id new_cap = counter"
    using alloc_cap_id_Ok(1,2) [OF al] by (simp add: nc from_parts_def token_id_new_small)
  moreover have "space_view source cap = Some (obj, r)" using s1(1) res by simp
  ultimately show ?thesis
    using s1(2) grant r' space_insert_view(1) [OF wf(2) ins] src alloc_cap_id_Ok(1,3) [OF al]
    by (intro exI [of _ obj] exI [of _ r] exI [of _ r']) (simp add: r'_def)
qed

theorem inheritance_follows_policy_witness:
  "space_view (snd (inherit_capabilities demo_space (space_with_quota 8) PolReduced)) 5 =
     Some (ObjDevice 7, reduce_rights_for_inheritance RIGHTS_ALL) \<and>
   (\<exists>e. get_entry demo_space (token_id 5) = Some e \<and> ent_capability e = 5 \<and>
      rights_contains (ent_rights e) (reduce_rights_for_inheritance RIGHTS_ALL))"
proof -
  have 1: "space_view (snd (inherit_capabilities demo_space (space_with_quota 8) PolReduced)) 5 =
     Some (ObjDevice 7, reduce_rights_for_inheritance RIGHTS_ALL)" by code_simp
  have 2: "space_view (space_with_quota 8) 5 = None" by code_simp
  show ?thesis
    using inheritance_follows_policy [OF demo_space_kernel 1] 1 unfolding 2 by blast
qed

theorem fork_copies_everything_witness:
  "space_view (snd (fork_inherit_capabilities demo_space (space_with_quota 8))) = space_view demo_space"
proof -
  have "length (space_entries demo_space) \<le> unat (8 :: usize)" by code_simp
  then show ?thesis using fork_copies_everything [OF demo_space_kernel(1) _ refl] by blast
qed

theorem exec_inherits_nothing_witness:
  "exec_inherit_capabilities demo_space (space_with_quota 8) = (Ok (), space_with_quota 8)"
  by (rule exec_inherits_nothing [OF demo_space_kernel(1)])

theorem delegate_capability_attenuates_witness:
  "\<exists>obj r'. space_view (fst (snd (snd (delegate_capability demo_space (space_with_quota 8) 5 (Some READ) 1)))) 1
     = Some (obj, r') \<and> r' = READ"
proof -
  let ?d = "delegate_capability demo_space (space_with_quota 8) 5 (Some READ) 1"
  have "fst ?d = Ok 1" by code_simp
  then have "?d = (Ok 1, fst (snd ?d), fst (snd (snd ?d)), snd (snd (snd ?d)))" by (metis prod.collapse)
  from delegate_capability_attenuates [OF demo_space_kernel this] show ?thesis by auto
qed

end
