(* ===== verification/Cap_Revocation.thy ===== *)
theory Cap_Revocation
  imports Cap_Manager
begin

text \<open>
  Revocation from \<open>src/kernel/src/cap/revocation.rs\<close>: the global revocation list with its epoch, the
  per-CPU cache of it, the derivation tree with cascading revocation, and the bounded
  notification queues of the processes.

  The static variables of the file are the fields of \<open>rev_state\<close>, next to the capability system. The
  clock is read once per operation and is an argument \<open>now\<close>.
\<close>

section \<open>State\<close>

type_synonym revoked_set = "(u64 \<times> u8) btree_set"

datatype revocation_reason = Explicit | ParentRevoked | ProcessExit | PolicyEnforced

fun reason_as_str :: "revocation_reason \<Rightarrow> string" where
  "reason_as_str Explicit = ''explicit''"
| "reason_as_str ParentRevoked = ''parent_revoked''"
| "reason_as_str ProcessExit = ''process_exit''"
| "reason_as_str PolicyEnforced = ''policy_enforced''"

record revocation_notification =
  rn_cap_id :: u64
  rn_revoked_at :: u64
  rn_reason :: revocation_reason

record rev_state =
  rv_sys :: cap_system
  rv_revoked :: revoked_set
  rv_epoch :: u64
  rv_tree :: "(u64, u64 list) btree_map"
  rv_queue :: "(u64, revocation_notification list) btree_map"

section \<open>The revocation list\<close>

definition list_add :: "capability_token \<Rightarrow> rev_state \<Rightarrow> rev_state" where
  "list_add cap st =
     st\<lparr>rv_revoked := bs_insert (token_id cap, token_generation cap) (rv_revoked st),
        rv_epoch := rv_epoch st + 1\<rparr>"

definition list_is_revoked :: "rev_state \<Rightarrow> capability_token \<Rightarrow> bool" where
  "list_is_revoked st cap = bs_contains (rv_revoked st) (token_id cap, token_generation cap)"

text \<open>The arithmetic on \<open>keep_recent\<close> is on \<open>usize\<close> and wraps; the epoch is left alone.\<close>

definition list_cleanup :: "usize \<Rightarrow> rev_state \<Rightarrow> rev_state" where
  "list_cleanup keep_recent st =
     (let revoked = rv_revoked st in
      if length revoked > unat (keep_recent * 2)
      then let to_remove = (of_nat (length revoked) :: usize) - keep_recent in
           st\<lparr>rv_revoked := fold bs_remove (take (unat to_remove) revoked) revoked\<rparr>
      else st)"

section \<open>Revoking\<close>

definition revoke_capability :: "capability_token \<Rightarrow> rev_state \<Rightarrow>
    (unit, kernel_error) result \<times> rev_state" where
  "revoke_capability cap st =
     (let st1 = list_add cap st;
          sys1 = snd (manager_revoke cap (rv_sys st1))
      in (Ok (), st1\<lparr>rv_sys := broadcast_revocation cap sys1\<rparr>))"

fun revoke_each :: "capability_token list \<Rightarrow> u32 \<Rightarrow> rev_state \<Rightarrow> u32 \<times> rev_state" where
  "revoke_each [] n st = (n, st)"
| "revoke_each (cap # caps) n st =
     (case revoke_capability cap st of
        (Ok _, st1) \<Rightarrow> revoke_each caps (n + 1) st1
      | (Err _, st1) \<Rightarrow> revoke_each caps n st1)"

definition revoke_batch :: "capability_token list \<Rightarrow> rev_state \<Rightarrow>
    (u32, kernel_error) result \<times> rev_state" where
  "revoke_batch caps st = (case revoke_each caps 0 st of (n, st1) \<Rightarrow> (Ok n, st1))"

text \<open>
  \<open>revoke_cascading\<close> on the space with key \<open>sp\<close>: the other entries for the same object that do not
  have all of the parent's rights.
\<close>

definition revoke_cascading :: "capability_token \<Rightarrow> u64 \<Rightarrow> rev_state \<Rightarrow>
    (u32, kernel_error) result \<times> rev_state" where
  "revoke_cascading cap sp st =
     (case lookup_entry (sys_spaces (rv_sys st) sp) cap of
        (parent_info, s) \<Rightarrow>
          let st1 = st\<lparr>rv_sys := set_space sp s (rv_sys st)\<rparr> in
          (case revoke_capability cap st1 of
             (Err e, st2) \<Rightarrow> (Err e, st2)
           | (Ok _, st2) \<Rightarrow>
               (case parent_info of
                  None \<Rightarrow> (Ok 1, st2)
                | Some (obj, parent_rights) \<Rightarrow>
                    let to_revoke = iter_capabilities (sys_spaces (rv_sys st2) sp)
                          (\<lambda>e caps. (True,
                             if object_eq (ent_object e) obj \<and> ent_capability e \<noteq> cap \<and>
                                \<not> rights_contains (ent_rights e) parent_rights
                             then caps @ [ent_capability e] else caps)) []
                    in (case revoke_each to_revoke 1 st2 of (n, st3) \<Rightarrow> (Ok n, st3)))))"

definition sys_capability_revoke :: "u64 \<Rightarrow> rev_state \<Rightarrow> (unit, kernel_error) result \<times> rev_state" where
  "sys_capability_revoke cap_value st =
     (let cap = token_from_u64 cap_value in
      if \<not> manager_is_valid cap (sys_manager (rv_sys st))
      then (Err (KeInvalidCapability (token_id cap) KcNotFound), st)
      else revoke_capability cap st)"

section \<open>The per-CPU cache\<close>

record revocation_cache =
  rc_epoch :: u64
  rc_cache :: revoked_set

definition revocation_cache_new :: revocation_cache where
  "revocation_cache_new = \<lparr>rc_epoch = 0, rc_cache = []\<rparr>"

definition update_cache :: "rev_state \<Rightarrow> revocation_cache \<Rightarrow> revocation_cache" where
  "update_cache st rc = \<lparr>rc_epoch = rv_epoch st, rc_cache = fold bs_insert (rv_revoked st) []\<rparr>"

definition cache_is_revoked :: "rev_state \<Rightarrow> capability_token \<Rightarrow> revocation_cache \<Rightarrow>
    bool \<times> revocation_cache" where
  "cache_is_revoked st cap rc =
     (let rc1 = (if rv_epoch st \<noteq> rc_epoch rc then update_cache st rc else rc) in
      (bs_contains (rc_cache rc1) (token_id cap, token_generation cap), rc1))"

section \<open>The derivation tree\<close>

definition get_children :: "rev_state \<Rightarrow> u64 \<Rightarrow> u64 list" where
  "get_children st cap_id = (case bt_get (rv_tree st) cap_id of Some cs \<Rightarrow> cs | None \<Rightarrow> [])"

definition record_derivation :: "u64 \<Rightarrow> u64 \<Rightarrow> rev_state \<Rightarrow> rev_state" where
  "record_derivation parent child st =
     st\<lparr>rv_tree := bt_insert parent (get_children st parent @ [child]) (rv_tree st)\<rparr>"

definition cleanup_capability :: "u64 \<Rightarrow> rev_state \<Rightarrow> rev_state" where
  "cleanup_capability cap_id st =
     st\<lparr>rv_tree := map (\<lambda>(k, cs). (k, filter (\<lambda>c. c \<noteq> cap_id) cs)) (bt_remove cap_id (rv_tree st))\<rparr>"

definition derivation_tree_stats :: "rev_state \<Rightarrow> nat \<times> nat" where
  "derivation_tree_stats st = (length (rv_tree st), sum_list (map (\<lambda>b. length (snd b)) (rv_tree st)))"

text \<open>One round of the loop of \<open>revoke_cascade\<close>: revoke the identifier at the front of the queue.\<close>

definition cascade_visit :: "u64 \<Rightarrow> rev_state \<Rightarrow> rev_state" where
  "cascade_visit current st =
     (let cap = token_from_u64 current; st1 = list_add cap st in
      st1\<lparr>rv_sys := snd (manager_revoke cap (rv_sys st1))\<rparr>)"

lemma rv_tree_visit [simp]: "rv_tree (cascade_visit current st) = rv_tree st"
  by (simp add: cascade_visit_def Let_def list_add_def)

lemma get_children_visit [simp]: "get_children (cascade_visit current st) = get_children st"
  by (rule ext) (simp add: get_children_def)

text \<open>
  The loop ends although an identifier can be queued more than once: a round revokes an identifier
  that was not revoked before, or it takes one of the already revoked ones out of the queue and
  puts only others in.
\<close>

function cascade_loop :: "u64 list \<Rightarrow> u64 list \<Rightarrow> rev_state \<Rightarrow> u64 list \<times> rev_state" where
  "cascade_loop [] revoked st = (revoked, st)"
| "cascade_loop (current # queue) revoked st =
     (let st1 = cascade_visit current st;
          revoked1 = revoked @ [current]
      in cascade_loop (queue @ filter (\<lambda>c. c \<notin> set revoked1) (get_children st1 current)) revoked1 st1)"
  by pat_completeness auto
termination
proof (relation "measures [\<lambda>(q, r, st). card (UNIV - set r), \<lambda>(q, r, st). length (filter (\<lambda>c. c \<in> set r) q)]")
  fix current queue revoked st st1 revoked1
  assume "st1 = cascade_visit current st" and r: "revoked1 = revoked @ [current]"
  show "((queue @ filter (\<lambda>c. c \<notin> set revoked1) (get_children st1 current), revoked1, st1),
      current # queue, revoked, st)
    \<in> measures [\<lambda>(q, r, st). card (UNIV - set r), \<lambda>(q, r, st). length (filter (\<lambda>c. c \<in> set r) q)]"
  proof (cases "current \<in> set revoked")
    case True
    then have "set revoked1 = set revoked" by (auto simp: r)
    moreover have "filter (\<lambda>c. c \<in> set revoked) (filter (\<lambda>c. c \<notin> set revoked) xs) = []" for xs
      by (simp add: filter_empty_conv)
    ultimately show ?thesis using True by simp
  next
    case False
    then have "card (UNIV - set revoked1) < card (UNIV - set revoked)"
      by (intro psubset_card_mono) (auto simp: r)
    then show ?thesis by simp
  qed
qed simp

fun broadcast_each :: "u64 list \<Rightarrow> cap_system \<Rightarrow> cap_system" where
  "broadcast_each [] sys = sys"
| "broadcast_each (cap_id # ids) sys =
     broadcast_each ids (broadcast_revocation (token_from_u64 cap_id) sys)"

section \<open>Notifications\<close>

definition MAX_NOTIFICATIONS_PER_PROCESS :: nat where
  "MAX_NOTIFICATIONS_PER_PROCESS = 256"

definition queue_of :: "(u64, revocation_notification list) btree_map \<Rightarrow> u64 \<Rightarrow> revocation_notification list" where
  "queue_of q pid = (case bt_get q pid of Some ns \<Rightarrow> ns | None \<Rightarrow> [])"

text \<open>Append one notification, dropping the oldest one of a full queue.\<close>

definition push_notification :: "revocation_notification \<Rightarrow> revocation_notification list \<Rightarrow>
    revocation_notification list" where
  "push_notification n ns =
     (if length ns \<ge> MAX_NOTIFICATIONS_PER_PROCESS then tl ns else ns) @ [n]"

definition notify_pid :: "u64 list \<Rightarrow> u64 \<Rightarrow> revocation_reason \<Rightarrow> u64 \<Rightarrow>
    (u64, revocation_notification list) btree_map \<Rightarrow> (u64, revocation_notification list) btree_map" where
  "notify_pid cap_ids now reason pid q =
     bt_insert pid
       (fold (\<lambda>cap_id. push_notification \<lparr>rn_cap_id = cap_id, rn_revoked_at = now, rn_reason = reason\<rparr>)
          cap_ids (queue_of q pid)) q"

definition push_revocation_notifications :: "u64 \<Rightarrow> u64 list \<Rightarrow> revocation_reason \<Rightarrow> rev_state \<Rightarrow> rev_state" where
  "push_revocation_notifications now cap_ids reason st =
     st\<lparr>rv_queue := fold (notify_pid cap_ids now reason) (sys_pids (rv_sys st)) (rv_queue st)\<rparr>"

definition notify_process :: "u64 \<Rightarrow> u64 \<Rightarrow> u64 \<Rightarrow> revocation_reason \<Rightarrow> rev_state \<Rightarrow> rev_state" where
  "notify_process now pid cap_id reason st =
     st\<lparr>rv_queue := bt_insert pid
        (push_notification \<lparr>rn_cap_id = cap_id, rn_revoked_at = now, rn_reason = reason\<rparr>
          (queue_of (rv_queue st) pid)) (rv_queue st)\<rparr>"

definition drain_notifications :: "u64 \<Rightarrow> rev_state \<Rightarrow> revocation_notification list \<times> rev_state" where
  "drain_notifications pid st =
     (queue_of (rv_queue st) pid, st\<lparr>rv_queue := bt_remove pid (rv_queue st)\<rparr>)"

definition peek_notifications :: "u64 \<Rightarrow> rev_state \<Rightarrow> revocation_notification list" where
  "peek_notifications pid st = queue_of (rv_queue st) pid"

definition notification_count :: "u64 \<Rightarrow> rev_state \<Rightarrow> nat" where
  "notification_count pid st = length (queue_of (rv_queue st) pid)"

definition cleanup_process_notifications :: "u64 \<Rightarrow> rev_state \<Rightarrow> rev_state" where
  "cleanup_process_notifications pid st = st\<lparr>rv_queue := bt_remove pid (rv_queue st)\<rparr>"

definition notification_stats :: "rev_state \<Rightarrow> nat \<times> nat" where
  "notification_stats st = (length (rv_queue st), sum_list (map (\<lambda>b. length (snd b)) (rv_queue st)))"

section \<open>Cascading revocation and subtrees\<close>

definition revoke_cascade :: "u64 \<Rightarrow> u64 \<Rightarrow> rev_state \<Rightarrow> u64 list \<times> rev_state" where
  "revoke_cascade now cap_id st =
     (case cascade_loop [cap_id] [] st of
        (revoked_ids, st1) \<Rightarrow>
          (revoked_ids,
           push_revocation_notifications now revoked_ids ParentRevoked
             (st1\<lparr>rv_sys := broadcast_each revoked_ids (rv_sys st1)\<rparr>)))"

text \<open>The inner loop over the children of one node: the new ones go to both lists.\<close>

fun add_descendants :: "u64 list \<Rightarrow> u64 list \<Rightarrow> u64 list \<Rightarrow> u64 list \<times> u64 list" where
  "add_descendants [] descendants queue = (descendants, queue)"
| "add_descendants (c # cs) descendants queue =
     (if c \<notin> set descendants then add_descendants cs (descendants @ [c]) (queue @ [c])
      else add_descendants cs descendants queue)"

lemma add_descendants_spec:
  "\<exists>new. add_descendants cs ds q = (ds @ new, q @ new) \<and> set new = set cs - set ds \<and> distinct new"
proof (induction cs ds q rule: add_descendants.induct)
  case (2 c cs ds q)
  show ?case
  proof (cases "c \<in> set ds")
    case True
    then show ?thesis using 2 by fastforce
  next
    case False
    then obtain new where "add_descendants cs (ds @ [c]) (q @ [c]) = ((ds @ [c]) @ new, (q @ [c]) @ new)"
      "set new = set cs - set (ds @ [c])" "distinct new" using 2 by blast
    then show ?thesis using False by (intro exI [of _ "c # new"]) auto
  qed
qed simp

function tree_loop :: "(u64, u64 list) btree_map \<Rightarrow> u64 list \<Rightarrow> u64 list \<Rightarrow> u64 list" where
  "tree_loop tree [] descendants = descendants"
| "tree_loop tree (current # queue) descendants =
     (case (case bt_get tree current of
              Some cs \<Rightarrow> add_descendants cs descendants queue
            | None \<Rightarrow> (descendants, queue)) of
        (descendants1, queue1) \<Rightarrow> tree_loop tree queue1 descendants1)"
  by pat_completeness auto
termination
proof (relation "measure (\<lambda>(tree, q, ds). card (UNIV - set ds) + length q)")
  fix tree :: "(u64, u64 list) btree_map" and current queue descendants descendants1 queue1
  assume x: "(descendants1, queue1) = (case bt_get tree current of
      Some cs \<Rightarrow> add_descendants cs descendants queue | None \<Rightarrow> (descendants, queue))"
  obtain new where new: "descendants1 = descendants @ new" "queue1 = queue @ new"
    "set new \<inter> set descendants = {}" "distinct new"
  proof (cases "bt_get tree current")
    case (Some cs)
    obtain new where "add_descendants cs descendants queue = (descendants @ new, queue @ new)"
      "set new = set cs - set descendants" "distinct new" using add_descendants_spec by blast
    then show thesis using Some x by (intro that [of new]) auto
  qed (use that [of "[]"] x in simp)
  have "card (UNIV - set descendants1) + length new = card (UNIV - set descendants)"
  proof -
    have "UNIV - set descendants = (UNIV - set descendants1) \<union> set new" using new by auto
    moreover have "card \<dots> = card (UNIV - set descendants1) + card (set new)"
      using new by (intro card_Un_disjoint) auto
    ultimately show ?thesis using new(4) by (simp add: distinct_card)
  qed
  then show "((tree, queue1, descendants1), tree, current # queue, descendants)
      \<in> measure (\<lambda>(tree, q, ds). card (UNIV - set ds) + length q)"
    using new by simp
qed simp

definition get_derivation_tree :: "u64 \<Rightarrow> rev_state \<Rightarrow> u64 list" where
  "get_derivation_tree cap_id st = tree_loop (rv_tree st) [cap_id] []"

section \<open>Reachability in the derivation tree\<close>

definition derivations :: "rev_state \<Rightarrow> (u64 \<times> u64) set" where
  "derivations st = {(p, c). c \<in> set (get_children st p)}"

lemma derivations_visit [simp]: "derivations (cascade_visit current st) = derivations st"
  by (simp add: derivations_def)

lemma closed_reach:
  assumes "r `` A \<subseteq> A" "x \<in> A" "(x, y) \<in> r\<^sup>*"
  shows "y \<in> A"
  using assms(3,1,2) by (induction rule: rtrancl_induct) auto

text \<open>The list that comes back holds the start of the queue and is closed under derivation.\<close>

lemma cascade_loop_ids:
  assumes "cascade_loop queue revoked st = (ids, st')"
    and "derivations st `` set revoked \<subseteq> set revoked \<union> set queue"
  shows "set revoked \<union> set queue \<subseteq> set ids" "derivations st `` set ids \<subseteq> set ids"
    "set ids \<subseteq> set revoked \<union> (derivations st)\<^sup>* `` set queue"
proof -
  have "set revoked \<union> set queue \<subseteq> set ids \<and> derivations st `` set ids \<subseteq> set ids \<and>
      set ids \<subseteq> set revoked \<union> (derivations st)\<^sup>* `` set queue"
    using assms
  proof (induction queue revoked st arbitrary: ids st' rule: cascade_loop.induct)
    case (2 current queue revoked st)
    let ?new = "filter (\<lambda>c. c \<notin> set (revoked @ [current])) (get_children st current)"
    have run: "cascade_loop (queue @ ?new) (revoked @ [current]) (cascade_visit current st) = (ids, st')"
      using 2(2) by (simp add: Let_def)
    have "derivations st `` set (revoked @ [current]) \<subseteq> set (revoked @ [current]) \<union> set (queue @ ?new)"
      using 2(3) by (auto simp: derivations_def)
    with 2(1) [OF refl refl, of ids st'] run
    have IH: "set (revoked @ [current]) \<union> set (queue @ ?new) \<subseteq> set ids" "derivations st `` set ids \<subseteq> set ids"
      "set ids \<subseteq> set (revoked @ [current]) \<union> (derivations st)\<^sup>* `` set (queue @ ?new)"
      by (simp_all add: Let_def)
    have "(derivations st)\<^sup>* `` set ?new \<subseteq> (derivations st)\<^sup>* `` {current}"
      by (auto simp: derivations_def intro: converse_rtrancl_into_rtrancl)
    then have "set ids \<subseteq> set revoked \<union> (derivations st)\<^sup>* `` set (current # queue)"
      using IH(3) by fastforce
    then show ?case using IH(1,2) by auto
  qed auto
  then show "set revoked \<union> set queue \<subseteq> set ids" "derivations st `` set ids \<subseteq> set ids"
    "set ids \<subseteq> set revoked \<union> (derivations st)\<^sup>* `` set queue" by blast+
qed

lemma tree_loop_set:
  assumes "\<forall>p \<in> insert root (set ds). p \<in> set queue \<or> derivations st `` {p} \<subseteq> set ds"
    and "set queue \<subseteq> insert root (set ds)" "set ds \<subseteq> (derivations st)\<^sup>+ `` {root}" "distinct ds"
  shows "distinct (tree_loop (rv_tree st) queue ds) \<and>
    set (tree_loop (rv_tree st) queue ds) = (derivations st)\<^sup>+ `` {root}"
  using assms
proof (induction "rv_tree st" queue ds rule: tree_loop.induct)
  case (1 ds)
  have "y \<in> set ds" if "(root, y) \<in> (derivations st)\<^sup>+" for y
    using that 1 by (induction rule: trancl_induct) auto
  then show ?case using 1 by auto
next
  case (2 current queue ds)
  obtain new where new: "(case bt_get (rv_tree st) current of
        Some cs \<Rightarrow> add_descendants cs ds queue | None \<Rightarrow> (ds, queue)) = (ds @ new, queue @ new)"
    "set new = derivations st `` {current} - set ds" "distinct new"
  proof (cases "bt_get (rv_tree st) current")
    case None
    then have "derivations st `` {current} = {}" by (auto simp: derivations_def get_children_def)
    then show thesis using that [of "[]"] None by simp
  next
    case (Some cs)
    then have "derivations st `` {current} = set cs" by (auto simp: derivations_def get_children_def)
    then show thesis using that add_descendants_spec [of cs ds queue] Some by auto
  qed
  have cur: "current = root \<or> (root, current) \<in> (derivations st)\<^sup>+" using 2(3,4) by auto
  have "set new \<subseteq> (derivations st)\<^sup>+ `` {root}"
  proof
    fix y assume "y \<in> set new"
    then have "(current, y) \<in> derivations st" using new(2) by auto
    with cur show "y \<in> (derivations st)\<^sup>+ `` {root}" by (auto intro: trancl.intros)
  qed
  moreover have "\<forall>p \<in> insert root (set (ds @ new)). p \<in> set (queue @ new) \<or> derivations st `` {p} \<subseteq> set (ds @ new)"
  proof
    fix p assume "p \<in> insert root (set (ds @ new))"
    then consider "p \<in> set new" | "p \<in> insert root (set ds)" by auto
    then show "p \<in> set (queue @ new) \<or> derivations st `` {p} \<subseteq> set (ds @ new)"
    proof cases
      case 2
      show ?thesis
      proof (cases "p = current")
        case True
        then show ?thesis using new(2) by auto
      next
        case False
        with "2.prems"(1) 2 show ?thesis by auto
      qed
    qed simp
  qed
  moreover have "set (queue @ new) \<subseteq> insert root (set (ds @ new))" using 2(3) by auto
  moreover have "distinct (ds @ new)" using 2(5) new by auto
  ultimately show ?case
    using 2(1) [OF new(1) [symmetric]] 2(4) by (simp add: new(1))
qed

section \<open>What a cascade leaves behind\<close>

definition dead_id :: "cap_system \<Rightarrow> u64 \<Rightarrow> bool" where
  "dead_id sys cid \<longleftrightarrow> (\<forall>e. registered sys cid = Some e \<longrightarrow> re_revoked e)"

lemma manager_revoke_dead:
  assumes "sys_wf sys"
  shows "sys_wf (snd (manager_revoke cap sys))" "dead_id (snd (manager_revoke cap sys)) (token_id cap)"
    "dead_id sys cid \<Longrightarrow> dead_id (snd (manager_revoke cap sys)) cid"
proof -
  note rv = manager_revoke_spec(1,3) [OF prod.collapse [symmetric] assms, of cap]
  show "sys_wf (snd (manager_revoke cap sys))" by (rule rv)
  show d: "dead_id (snd (manager_revoke cap sys)) (token_id cap)"
    by (cases "registered sys (token_id cap)") (simp_all add: dead_id_def rv(2))
  show "dead_id (snd (manager_revoke cap sys)) cid" if "dead_id sys cid"
  proof (cases "cid = token_id cap")
    case False
    with that show ?thesis by (simp add: dead_id_def rv(2))
  qed (use d in simp)
qed

lemma dead_id_check:
  assumes "sys_wf sys" "dead_id sys (token_id c)"
  shows "\<not> is_ok (fst (check_capability c required sp sys))"
  using check_capability_spec(5) [OF prod.collapse [symmetric] assms(1), of c required sp] assms(2)
  by (auto simp: dead_id_def split: option.splits)

lemma set_bs_insert_pair: "set (bs_insert x s) = insert x (set s)" for x :: "u64 \<times> u8"
  by (rule set_bs_insert)

lemma cascade_loop_state:
  assumes "cascade_loop queue revoked st = (ids, st')" "sys_wf (rv_sys st)"
  shows "sys_wf (rv_sys st')"
    "dead_id (rv_sys st) cid \<Longrightarrow> dead_id (rv_sys st') cid"
    "set (rv_revoked st) \<subseteq> set (rv_revoked st')"
    "d \<in> set ids \<Longrightarrow> d \<notin> set revoked \<Longrightarrow>
       dead_id (rv_sys st') (token_id (token_from_u64 d)) \<and> list_is_revoked st' (token_from_u64 d)"
proof -
  have "sys_wf (rv_sys st') \<and> (\<forall>cid. dead_id (rv_sys st) cid \<longrightarrow> dead_id (rv_sys st') cid) \<and>
      set (rv_revoked st) \<subseteq> set (rv_revoked st') \<and>
      (\<forall>d. d \<in> set ids \<longrightarrow> d \<notin> set revoked \<longrightarrow>
        dead_id (rv_sys st') (token_id (token_from_u64 d)) \<and> list_is_revoked st' (token_from_u64 d))"
    using assms
  proof (induction queue revoked st arbitrary: ids st' rule: cascade_loop.induct)
    case (2 current queue revoked st)
    let ?new = "filter (\<lambda>c. c \<notin> set (revoked @ [current])) (get_children st current)"
    let ?st1 = "cascade_visit current st" and ?cap = "token_from_u64 current"
    have st1: "sys_wf (rv_sys ?st1)" "dead_id (rv_sys ?st1) (token_id ?cap)"
      "\<And>cid. dead_id (rv_sys st) cid \<Longrightarrow> dead_id (rv_sys ?st1) cid"
      "set (rv_revoked ?st1) = insert (token_id ?cap, token_generation ?cap) (set (rv_revoked st))"
      using manager_revoke_dead [OF 2(3)]
      by (simp_all add: cascade_visit_def Let_def list_add_def set_bs_insert_pair)
    have run: "cascade_loop (queue @ ?new) (revoked @ [current]) ?st1 = (ids, st')"
      using 2(2) by (simp add: Let_def)
    have IH: "sys_wf (rv_sys st')" "\<And>cid. dead_id (rv_sys ?st1) cid \<Longrightarrow> dead_id (rv_sys st') cid"
      "set (rv_revoked ?st1) \<subseteq> set (rv_revoked st')"
      "\<And>d. d \<in> set ids \<Longrightarrow> d \<notin> set (revoked @ [current]) \<Longrightarrow>
        dead_id (rv_sys st') (token_id (token_from_u64 d)) \<and> list_is_revoked st' (token_from_u64 d)"
      using 2(1) [OF refl refl, of ids st'] run st1(1) by (simp_all add: Let_def)
    have "dead_id (rv_sys st') (token_id ?cap) \<and> list_is_revoked st' ?cap"
      using IH(2,3) st1(2,4) by (auto simp: list_is_revoked_def bs.contains_elems)
    then show ?case using IH st1(3,4) by auto
  qed auto
  then show "sys_wf (rv_sys st')" "dead_id (rv_sys st) cid \<Longrightarrow> dead_id (rv_sys st') cid"
    "set (rv_revoked st) \<subseteq> set (rv_revoked st')"
    "d \<in> set ids \<Longrightarrow> d \<notin> set revoked \<Longrightarrow>
       dead_id (rv_sys st') (token_id (token_from_u64 d)) \<and> list_is_revoked st' (token_from_u64 d)"
    by blast+
qed

lemma broadcast_each_same:
  "sys_manager (broadcast_each ids sys) = sys_manager sys" "sys_spaces (broadcast_each ids sys) = sys_spaces sys"
  by (induction ids sys rule: broadcast_each.induct) simp_all

lemma broadcast_each_dead:
  "sys_wf (broadcast_each ids sys) = sys_wf sys" "dead_id (broadcast_each ids sys) = dead_id sys"
  by (simp_all add: sys_wf_def spaces_wf_def broadcast_each_same dead_id_def registered_def fun_eq_iff)

section \<open>Notification queues\<close>

lemma push_notification_last:
  "length ns \<le> 256 \<Longrightarrow> push_notification n ns = drop (length (ns @ [n]) - 256) (ns @ [n])"
  by (cases ns) (auto simp: push_notification_def MAX_NOTIFICATIONS_PER_PROCESS_def)

lemma push_all_last:
  "length ns \<le> 256 \<Longrightarrow> fold push_notification xs ns = drop (length (ns @ xs) - 256) (ns @ xs)"
proof (induction xs arbitrary: ns)
  case (Cons x xs)
  let ?p = "drop (length (ns @ [x]) - 256) (ns @ [x])"
  have "fold push_notification (x # xs) ns = fold push_notification xs ?p"
    by (simp add: push_notification_last [OF Cons.prems])
  also have "\<dots> = drop (length (?p @ xs) - 256) (?p @ xs)" by (rule Cons.IH) simp
  also have "?p @ xs = drop (length (ns @ [x]) - 256) (ns @ x # xs)" using Cons.prems by simp
  finally have *: "fold push_notification (x # xs) ns =
      drop (length (?p @ xs) - 256) (drop (length (ns @ [x]) - 256) (ns @ x # xs))" by simp
  have "length (?p @ xs) - 256 + (length (ns @ [x]) - 256) = length (ns @ x # xs) - 256"
    using Cons.prems by simp
  then show ?case unfolding * drop_drop by simp
qed simp

lemma queue_of_insert: "queue_of (bt_insert pid ns q) p = (if p = pid then ns else queue_of q p)"
  by (simp add: queue_of_def bt_simps)

lemma notify_pid_queue:
  assumes "length (queue_of q pid) \<le> 256"
  shows "queue_of (notify_pid cap_ids now reason pid q) p =
    (if p = pid then
       let ns = queue_of q pid @ map (\<lambda>i. \<lparr>rn_cap_id = i, rn_revoked_at = now, rn_reason = reason\<rparr>) cap_ids
       in drop (length ns - 256) ns
     else queue_of q p)"
  using push_all_last [OF assms, of "map (\<lambda>i. \<lparr>rn_cap_id = i, rn_revoked_at = now, rn_reason = reason\<rparr>) cap_ids"]
  by (simp add: notify_pid_def queue_of_insert fold_map o_def Let_def)

lemma notify_pids_queue:
  assumes "distinct pids" "\<And>p. length (queue_of q p) \<le> 256"
  shows "queue_of (fold (notify_pid cap_ids now reason) pids q) p =
    (if p \<in> set pids then
       let ns = queue_of q p @ map (\<lambda>i. \<lparr>rn_cap_id = i, rn_revoked_at = now, rn_reason = reason\<rparr>) cap_ids
       in drop (length ns - 256) ns
     else queue_of q p)"
  using assms
proof (induction pids arbitrary: q)
  case (Cons pid pids)
  have "length (queue_of (notify_pid cap_ids now reason pid q) p) \<le> 256" for p
    unfolding notify_pid_queue [OF Cons.prems(2)] using Cons.prems(2) by (auto simp: Let_def)
  from Cons.IH [OF _ this] Cons.prems(1) show ?case
    by (simp add: notify_pid_queue [OF Cons.prems(2)])
qed simp

section \<open>The cache\<close>

lemma set_fold_bs_insert: "set (fold bs_insert xs s) = set xs \<union> set s" for s :: revoked_set
  by (induction xs arbitrary: s) (auto simp: set_bs_insert_pair)

datatype list_action = AddRevoked capability_token | Cleanup usize | Query capability_token

fun cache_step :: "list_action \<Rightarrow> rev_state \<times> revocation_cache \<Rightarrow> rev_state \<times> revocation_cache" where
  "cache_step (AddRevoked cap) (st, rc) = (list_add cap st, rc)"
| "cache_step (Cleanup n) (st, rc) = (list_cleanup n st, rc)"
| "cache_step (Query cap) (st, rc) = (st, snd (cache_is_revoked st cap rc))"

definition list_init :: "cap_system \<Rightarrow> rev_state" where
  "list_init sys = \<lparr>rv_sys = sys, rv_revoked = [], rv_epoch = 0, rv_tree = [], rv_queue = []\<rparr>"

fun adds :: "list_action list \<Rightarrow> nat" where
  "adds [] = 0"
| "adds (AddRevoked cap # as) = Suc (adds as)"
| "adds (_ # as) = adds as"

lemma set_fold_bs_remove: "set (fold bs_remove xs s) = set s - set xs" for s :: revoked_set
  by (induction xs arbitrary: s) (auto simp: bs.elems_remove)

definition cache_inv :: "nat \<Rightarrow> rev_state \<times> revocation_cache \<Rightarrow> bool" where
  "cache_inv n p \<longleftrightarrow> (case p of (st, rc) \<Rightarrow> rv_epoch st = of_nat n \<and>
     (\<exists>m \<le> n. rc_epoch rc = of_nat m \<and> (m = n \<longrightarrow> set (rv_revoked st) \<subseteq> set (rc_cache rc))))"

lemma cache_inv_step:
  assumes "cache_inv n p" "n + adds [a] < 2 ^ 64"
  shows "cache_inv (n + adds [a]) (cache_step a p)"
proof -
  obtain st rc where p: "p = (st, rc)" by force
  obtain m where m: "m \<le> n" "rc_epoch rc = of_nat m" "m = n \<longrightarrow> set (rv_revoked st) \<subseteq> set (rc_cache rc)"
    and n: "rv_epoch st = of_nat n" using assms(1) by (auto simp: cache_inv_def p)
  show ?thesis
  proof (cases a)
    case (AddRevoked cap)
    have "\<exists>k \<le> Suc n. rc_epoch rc = of_nat k \<and> k \<noteq> Suc n"
      using m(1,2) by (intro exI [of _ m]) simp
    then show ?thesis using n by (auto simp: AddRevoked p cache_inv_def list_add_def)
  next
    case (Cleanup k)
    then show ?thesis using m n
      by (auto simp: p cache_inv_def list_cleanup_def Let_def set_fold_bs_remove)
  next
    case (Query cap)
    have "m = n" if "rv_epoch st = rc_epoch rc"
    proof -
      have "unat (of_nat n :: u64) = unat (of_nat m :: u64)" using that m n by simp
      then show ?thesis using assms(2) m(1) by (simp add: Query unat_of_nat)
    qed
    then show ?thesis using m n
      by (auto simp: Query p cache_inv_def cache_is_revoked_def Let_def update_cache_def set_fold_bs_insert)
  qed
qed

lemma cache_inv_run:
  "cache_inv n p \<Longrightarrow> n + adds acts < 2 ^ 64 \<Longrightarrow> cache_inv (n + adds acts) (fold cache_step acts p)"
proof (induction acts arbitrary: n p)
  case (Cons a acts)
  have split: "adds (a # acts) = adds [a] + adds acts" by (cases a) simp_all
  have "n + adds [a] < 2 ^ 64" using Cons.prems(2) unfolding split by linarith
  from Cons.IH [OF cache_inv_step [OF Cons.prems(1) this]] Cons.prems(2)
  show ?case unfolding split by (simp add: add.assoc)
qed simp


lemma fold_bs_remove: "fold bs_remove xs s = filter (\<lambda>x. x \<notin> set xs) s" for s :: revoked_set
  by (induction xs arbitrary: s) (auto simp: bs_remove_def intro: filter_cong)

lemma filter_notin_take: "distinct xs \<Longrightarrow> filter (\<lambda>x. x \<notin> set (take n xs)) xs = drop n xs"
proof (induction xs arbitrary: n)
  case (Cons x xs)
  show ?case
  proof (cases n)
    case (Suc k)
    have "filter (\<lambda>y. y \<noteq> x \<and> y \<notin> set (take k xs)) xs = filter (\<lambda>y. y \<notin> set (take k xs)) xs"
      using Cons.prems by (intro filter_cong) auto
    then show ?thesis using Cons Suc by simp
  qed simp
qed simp

section \<open>Properties\<close>

abbreviation demo_rev :: rev_state where
  "demo_rev \<equiv> record_derivation 2 3 (record_derivation 1 2
     (list_init (cap_run [Create (ObjProcess 7) RIGHTS_ALL 1] (boot_system (\<lambda>_. 256) [4]))))"

text \<open>
  C8. Cascading revocation returns exactly the identifiers reachable in the derivation tree from
  the one revoked, cycles and diamonds included. Every one is in the revocation list afterwards,
  and no token with such an identifier passes a check in any space.
\<close>

theorem cascade_revokes_descendants:
  assumes "cap_reachable (rv_sys st)" "revoke_cascade now cap_id st = (ids, st')"
  shows "set ids = {d. (cap_id, d) \<in> (derivations st)\<^sup>*} \<and>
    (\<forall>d \<in> set ids. list_is_revoked st' (token_from_u64 d) \<and>
       (\<forall>c required sp. token_id c = token_id (token_from_u64 d) \<longrightarrow>
          \<not> is_ok (fst (check_capability c required sp (rv_sys st')))))"
proof -
  obtain ids' st1 where loop: "cascade_loop [cap_id] [] st = (ids', st1)" by force
  have ids: "ids' = ids" and sys: "rv_sys st' = broadcast_each ids (rv_sys st1)"
    and rev: "rv_revoked st' = rv_revoked st1"
    using assms(2) unfolding revoke_cascade_def loop prod.case push_revocation_notifications_def by auto
  have r: "set ids \<subseteq> {d. (cap_id, d) \<in> (derivations st)\<^sup>*}" "cap_id \<in> set ids"
    "derivations st `` set ids \<subseteq> set ids"
    using cascade_loop_ids [OF loop [unfolded ids]] by auto
  have "d \<in> set ids" if "(cap_id, d) \<in> (derivations st)\<^sup>*" for d by (rule closed_reach [OF r(3,2) that])
  with r(1) have "set ids = {d. (cap_id, d) \<in> (derivations st)\<^sup>*}" by (intro equalityI subsetI) auto
  moreover have "list_is_revoked st' (token_from_u64 d) \<and>
      (\<forall>c required sp. token_id c = token_id (token_from_u64 d) \<longrightarrow>
          \<not> is_ok (fst (check_capability c required sp (rv_sys st'))))" if "d \<in> set ids" for d
  proof -
    note cl = cascade_loop_state [OF loop [unfolded ids] cap_reachable_wf [OF assms(1)]]
    have d: "dead_id (rv_sys st') (token_id (token_from_u64 d))" "list_is_revoked st1 (token_from_u64 d)"
      "sys_wf (rv_sys st')"
      using cl(1) cl(4) [OF that] by (simp_all add: sys broadcast_each_dead)
    then show ?thesis using dead_id_check [OF d(3)] by (simp add: list_is_revoked_def rev)
  qed
  ultimately show ?thesis by blast
qed

theorem cascade_revokes_descendants_witness:
  "3 \<in> set (fst (revoke_cascade 0 1 demo_rev)) \<and>
   \<not> is_ok (fst (check_capability 0xF100000000000001 READ 1 (rv_sys (snd (revoke_cascade 0 1 demo_rev)))))"
proof -
  have sys: "rv_sys demo_rev = cap_run [Create (ObjProcess 7) RIGHTS_ALL 1] (boot_system (\<lambda>_. 256) [4])"
    by (simp add: record_derivation_def list_init_def)
  have "cap_reachable (rv_sys demo_rev)" unfolding sys by (rule cap_reachable_run, rule reach_boot)
  note c = cascade_revokes_descendants [OF this prod.collapse [symmetric], of 0 1]
  have "fst (revoke_cascade 0 1 demo_rev) = [1, 2, 3]" by code_simp
  then have ids: "3 \<in> set (fst (revoke_cascade 0 1 demo_rev))" "1 \<in> set (fst (revoke_cascade 0 1 demo_rev))"
    by simp_all
  have same: "token_id 0xF100000000000001 = token_id (token_from_u64 1)" by code_simp
  have "\<not> is_ok (fst (check_capability 0xF100000000000001 READ 1
      (rv_sys (snd (revoke_cascade 0 1 demo_rev)))))"
    using bspec [OF conjunct2 [OF c] ids(2), THEN conjunct2] same by (elim allE impE)
  then show ?thesis using ids(1) by (rule conjI [rotated])
qed

text \<open>
  \<open>get_derivation_tree\<close> ends on every tree and lists each proper descendant once: the identifiers
  reachable by at least one derivation step. The root is among them only if it lies on a cycle.
\<close>

theorem derivation_tree_descendants:
  "distinct (get_derivation_tree cap_id st) \<and>
   set (get_derivation_tree cap_id st) = {d. (cap_id, d) \<in> (derivations st)\<^sup>+}"
  using tree_loop_set [of cap_id "[]" "[cap_id]" st] by (auto simp: get_derivation_tree_def)

text \<open>
  C31. The per-CPU cache never misses a revocation: after any sequence of additions, cleanups and
  queries, with fewer than \<open>2 ^ 64\<close> additions so that the epoch does not wrap, a capability in the
  global list is also reported by the cache.
\<close>

theorem revocation_cache_never_misses:
  assumes "adds acts < 2 ^ 64"
    and "(st, rc) = fold cache_step acts (list_init sys, revocation_cache_new)"
    and "list_is_revoked st cap"
  shows "fst (cache_is_revoked st cap rc)"
proof -
  have "cache_inv 0 (list_init sys, revocation_cache_new)"
    by (simp add: cache_inv_def list_init_def revocation_cache_new_def)
  from cache_inv_run [OF this, of acts] assms(1)
  have inv: "cache_inv (adds acts) (st, rc)" unfolding assms(2) by simp
  have "cache_inv (adds acts) (st, snd (cache_is_revoked st cap rc)) \<and>
      rc_epoch (snd (cache_is_revoked st cap rc)) = rv_epoch st"
    using cache_inv_step [OF inv, of "Query cap"] assms(1)
    by (auto simp: cache_is_revoked_def Let_def update_cache_def)
  then have "set (rv_revoked st) \<subseteq> set (rc_cache (snd (cache_is_revoked st cap rc)))"
    using assms(1) unfolding cache_inv_def
    by (auto simp: word_of_nat_eq_iff take_bit_nat_eq_self)
  then show ?thesis
    using assms(3) by (auto simp: list_is_revoked_def cache_is_revoked_def Let_def bs.contains_elems)
qed

theorem revocation_cache_never_misses_witness:
  "fst (cache_is_revoked (list_add 5 (list_init (boot_system (\<lambda>_. 1) []))) 5 revocation_cache_new)"
proof -
  have "list_is_revoked (list_add 5 (list_init (boot_system (\<lambda>_. 1) []))) 5" by code_simp
  then show ?thesis
    by (intro revocation_cache_never_misses [of "[AddRevoked 5]" _ _ "boot_system (\<lambda>_. 1) []"]) simp_all
qed

text \<open>
  Notification queues are bounded and keep the newest entries: after a cascade every known
  process has at most 256 notifications, the last 256 of its old ones followed by one per revoked
  identifier, and no other queue changes.
\<close>

theorem notifications_keep_newest:
  assumes "distinct (sys_pids (rv_sys st))" "\<forall>p. length (queue_of (rv_queue st) p) \<le> 256"
    and "st' = push_revocation_notifications now cap_ids reason st"
    and "ns = queue_of (rv_queue st) pid @
      map (\<lambda>i. \<lparr>rn_cap_id = i, rn_revoked_at = now, rn_reason = reason\<rparr>) cap_ids"
  shows "queue_of (rv_queue st') pid =
      (if pid \<in> set (sys_pids (rv_sys st)) then drop (length ns - 256) ns else queue_of (rv_queue st) pid) \<and>
    length (queue_of (rv_queue st') pid) \<le> 256"
  using notify_pids_queue [OF assms(1), of "rv_queue st" cap_ids now reason pid] assms(2)
  by (auto simp: assms(3,4) push_revocation_notifications_def Let_def)

theorem notifications_keep_newest_witness:
  "queue_of (rv_queue (push_revocation_notifications 9 [5, 6] Explicit demo_rev)) 4 =
     [\<lparr>rn_cap_id = 5, rn_revoked_at = 9, rn_reason = Explicit\<rparr>,
      \<lparr>rn_cap_id = 6, rn_revoked_at = 9, rn_reason = Explicit\<rparr>]"
proof -
  have "sys_pids (rv_sys demo_rev) = [4]" by code_simp
  moreover have "queue_of (rv_queue demo_rev) p = []" for p
    by (simp add: record_derivation_def list_init_def queue_of_def bt.get_empty)
  ultimately show ?thesis
    using notifications_keep_newest [OF _ _ refl refl, of demo_rev 9 "[5, 6]" Explicit 4] by simp
qed

text \<open>
  Garbage collection of the revocation list does not keep the most recent revocations: what
  survives is the part with the largest identifier and generation pairs, whenever they were added.
\<close>

theorem cleanup_keeps_largest:
  assumes "sorted_wrt (<) (rv_revoked st)" "2 * unat keep_recent < length (rv_revoked st)"
    and "length (rv_revoked st) < 2 ^ 64"
  shows "rv_revoked (list_cleanup keep_recent st) =
    drop (length (rv_revoked st) - unat keep_recent) (rv_revoked st)"
proof -
  let ?l = "length (rv_revoked st)"
  have "unat (keep_recent * 2) = 2 * unat keep_recent"
    using assms(2,3) by (simp add: unat_word_ariths)
  moreover have "unat ((of_nat ?l :: usize) - keep_recent) = ?l - unat keep_recent"
    using assms(2,3) by (subst unat_sub) (simp_all add: word_le_nat_alt unat_of_nat)
  moreover have "distinct (rv_revoked st)" using bs.distinct_elems [OF assms(1)] .
  ultimately show ?thesis
    using assms(2) by (simp add: list_cleanup_def Let_def fold_bs_remove filter_notin_take)
qed

theorem cleanup_keeps_largest_witness:
  "\<not> list_is_revoked (list_cleanup 1 (list_add 5 (list_add 7 (list_add 9 (list_init (boot_system (\<lambda>_. 1) [])))))) 5"
proof -
  let ?st = "list_add 5 (list_add 7 (list_add 9 (list_init (boot_system (\<lambda>_. 1) []))))"
  have "rv_revoked ?st = [(5, 0), (7, 0), (9, 0)]" by code_simp
  then show ?thesis
    using cleanup_keeps_largest [of ?st 1]
    by (simp add: list_is_revoked_def bs.contains_elems token_id_def)
qed

end
