(* ===== verification/Ipc_Message.thy ===== *)
theory Ipc_Message
  imports Kernel_Error
begin

text \<open>
  The data of the IPC subsystem: errors (\<open>src/kernel/src/ipc/error.rs\<close>), messages
  (\<open>src/kernel/src/ipc/message.rs\<close>) and IPC capabilities with their table
  (\<open>src/kernel/src/ipc/capability.rs\<close>).
\<close>

unbundle bit_operations_syntax

section \<open>Errors\<close>

datatype ipc_error =
    IpcInvalidCapability | IpcProcessNotFound | IpcEndpointNotFound | IpcMessageTooLarge
  | IpcOutOfMemory | IpcWouldBlock | IpcRateLimitExceeded | IpcTimeout | IpcPermissionDenied
  | IpcInvalidMessage | IpcChannelFull | IpcChannelEmpty | IpcEndpointBusy
  | IpcInvalidMemoryRegion | IpcResourceBusy | IpcNotInitialized

fun ipc_to_errno :: "ipc_error \<Rightarrow> int" where
  "ipc_to_errno IpcInvalidCapability = -1"
| "ipc_to_errno IpcProcessNotFound = -2"
| "ipc_to_errno IpcEndpointNotFound = -3"
| "ipc_to_errno IpcMessageTooLarge = -4"
| "ipc_to_errno IpcOutOfMemory = -5"
| "ipc_to_errno IpcWouldBlock = -6"
| "ipc_to_errno IpcRateLimitExceeded = -7"
| "ipc_to_errno IpcTimeout = -8"
| "ipc_to_errno IpcPermissionDenied = -9"
| "ipc_to_errno IpcInvalidMessage = -10"
| "ipc_to_errno IpcChannelFull = -11"
| "ipc_to_errno IpcChannelEmpty = -12"
| "ipc_to_errno IpcEndpointBusy = -13"
| "ipc_to_errno IpcInvalidMemoryRegion = -14"
| "ipc_to_errno IpcResourceBusy = -15"
| "ipc_to_errno IpcNotInitialized = -16"

section \<open>Messages\<close>

definition SMALL_MESSAGE_MAX_SIZE :: nat where "SMALL_MESSAGE_MAX_SIZE = 64"
definition DATA_REGISTERS :: nat where "DATA_REGISTERS = 4"

record small_message =
  sm_capability :: u64
  sm_opcode :: u32
  sm_flags :: u32
  sm_data :: "u64 list"

definition small_new :: "u64 \<Rightarrow> u32 \<Rightarrow> small_message" where
  "small_new capability opcode =
     \<lparr>sm_capability = capability, sm_opcode = opcode, sm_flags = 0,
      sm_data = replicate DATA_REGISTERS 0\<rparr>"

definition small_with_flags :: "small_message \<Rightarrow> u32 \<Rightarrow> small_message" where
  "small_with_flags m flags = m\<lparr>sm_flags := flags\<rparr>"

definition small_with_data :: "small_message \<Rightarrow> nat \<Rightarrow> u64 \<Rightarrow> small_message" where
  "small_with_data m index val =
     (if index < DATA_REGISTERS then m\<lparr>sm_data := (sm_data m)[index := val]\<rparr> else m)"

record message_header =
  mh_capability :: u64
  mh_opcode :: u32
  mh_flags :: u32
  mh_total_size :: u64
  mh_checksum :: u32
  mh_reserved :: u32

definition header_new :: "u64 \<Rightarrow> u32 \<Rightarrow> u64 \<Rightarrow> message_header" where
  "header_new capability opcode total_size =
     \<lparr>mh_capability = capability, mh_opcode = opcode, mh_flags = 0, mh_total_size = total_size,
      mh_checksum = 0, mh_reserved = 0\<rparr>"

record memory_region =
  mr_base_addr :: u64
  mr_size :: u64
  mr_permissions :: u32
  mr_cache_policy :: u32

definition region_new :: "u64 \<Rightarrow> u64 \<Rightarrow> memory_region" where
  "region_new base sz = \<lparr>mr_base_addr = base, mr_size = sz, mr_permissions = 0, mr_cache_policy = 0\<rparr>"

definition region_with_permissions :: "memory_region \<Rightarrow> u32 \<Rightarrow> memory_region" where
  "region_with_permissions r p = r\<lparr>mr_permissions := p\<rparr>"

definition region_with_cache_policy :: "memory_region \<Rightarrow> u32 \<Rightarrow> memory_region" where
  "region_with_cache_policy r p = r\<lparr>mr_cache_policy := p\<rparr>"

record large_message =
  lm_header :: message_header
  lm_region :: memory_region
  lm_inline :: "u8 list"

text \<open>\<open>size_of::<LargeMessage>()\<close> is 120: a header of 32 bytes, a region of 24 and 64 bytes inline.\<close>

definition LARGE_MESSAGE_SIZE :: u64 where "LARGE_MESSAGE_SIZE = 120"

definition large_new :: "u64 \<Rightarrow> u32 \<Rightarrow> memory_region \<Rightarrow> large_message" where
  "large_new capability opcode region =
     \<lparr>lm_header = header_new capability opcode (mr_size region + LARGE_MESSAGE_SIZE),
      lm_region = region, lm_inline = replicate SMALL_MESSAGE_MAX_SIZE 0\<rparr>"

definition large_with_inline :: "large_message \<Rightarrow> u8 list \<Rightarrow> large_message" where
  "large_with_inline m data =
     (let len = min (length data) SMALL_MESSAGE_MAX_SIZE in
      m\<lparr>lm_inline := take len data @ drop len (lm_inline m)\<rparr>)"

datatype message = Small small_message | Large large_message

fun msg_capability :: "message \<Rightarrow> u64" where
  "msg_capability (Small m) = sm_capability m"
| "msg_capability (Large m) = mh_capability (lm_header m)"

fun msg_opcode :: "message \<Rightarrow> u32" where
  "msg_opcode (Small m) = sm_opcode m"
| "msg_opcode (Large m) = mh_opcode (lm_header m)"

fun msg_flags :: "message \<Rightarrow> u32" where
  "msg_flags (Small m) = sm_flags m"
| "msg_flags (Large m) = mh_flags (lm_header m)"

fun msg_set_flags :: "u32 \<Rightarrow> message \<Rightarrow> message" where
  "msg_set_flags f (Small m) = Small (m\<lparr>sm_flags := f\<rparr>)"
| "msg_set_flags f (Large m) = Large (m\<lparr>lm_header := (lm_header m)\<lparr>mh_flags := f\<rparr>\<rparr>)"

text \<open>The sizes the source's arrays have; the operations keep them.\<close>

fun msg_wf :: "message \<Rightarrow> bool" where
  "msg_wf (Small m) = (length (sm_data m) = DATA_REGISTERS)"
| "msg_wf (Large m) = (length (lm_inline m) = SMALL_MESSAGE_MAX_SIZE)"

lemma msg_wf_new: "msg_wf (Small (small_new c op))" "msg_wf (Large (large_new c op region))"
  by (simp_all add: small_new_def large_new_def)

lemma msg_wf_updates:
  "msg_wf (Small m) \<Longrightarrow> msg_wf (Small (small_with_data m i v))"
  "msg_wf (Large l) \<Longrightarrow> msg_wf (Large (large_with_inline l data))"
  "msg_wf msg \<Longrightarrow> msg_wf (msg_set_flags f msg)"
  by (simp add: small_with_data_def)
    (simp add: large_with_inline_def Let_def, cases msg, simp_all)

lemma msg_flags_set [simp]: "msg_flags (msg_set_flags f msg) = f"
  "msg_capability (msg_set_flags f msg) = msg_capability msg" "msg_opcode (msg_set_flags f msg) = msg_opcode msg"
  by (cases msg; simp)+

section \<open>IPC capabilities\<close>

datatype ipc_cap_type_enum = CtInvalid | CtEndpoint | CtMemory | CtProcess | CtInterrupt | CtChannel

fun cap_type_code :: "ipc_cap_type_enum \<Rightarrow> u16" where
  "cap_type_code CtInvalid = 0"
| "cap_type_code CtEndpoint = 1"
| "cap_type_code CtMemory = 2"
| "cap_type_code CtProcess = 3"
| "cap_type_code CtInterrupt = 4"
| "cap_type_code CtChannel = 5"

definition cap_type_from_u16 :: "u16 \<Rightarrow> ipc_cap_type_enum option" where
  "cap_type_from_u16 v =
     (if v = 0 then Some CtInvalid else if v = 1 then Some CtEndpoint else if v = 2 then Some CtMemory
      else if v = 3 then Some CtProcess else if v = 4 then Some CtInterrupt
      else if v = 5 then Some CtChannel else None)"

datatype permission = PermSend | PermReceive | PermShare

record ipc_permissions =
  can_send :: bool
  can_receive :: bool
  can_share :: bool
  max_message_size :: usize

definition permissions_all :: ipc_permissions where
  "permissions_all = \<lparr>can_send = True, can_receive = True, can_share = True, max_message_size = 0\<rparr>"

definition permissions_send_only :: ipc_permissions where
  "permissions_send_only =
     \<lparr>can_send = True, can_receive = False, can_share = False, max_message_size = 0\<rparr>"

definition permissions_receive_only :: ipc_permissions where
  "permissions_receive_only =
     \<lparr>can_send = False, can_receive = True, can_share = False, max_message_size = 0\<rparr>"

record ipc_limits =
  il_rate_limit :: u32
  il_bandwidth_limit :: u64
  il_expiration :: u64

definition limits_unlimited :: ipc_limits where
  "limits_unlimited = \<lparr>il_rate_limit = 0, il_bandwidth_limit = 0, il_expiration = 0\<rparr>"

definition limits_with_rate :: "u32 \<Rightarrow> ipc_limits" where
  "limits_with_rate n = \<lparr>il_rate_limit = n, il_bandwidth_limit = 0, il_expiration = 0\<rparr>"

record ipc_capability =
  ic_value :: u64
  ic_target :: u64
  ic_permissions :: ipc_permissions
  ic_limits :: ipc_limits

text \<open>\<open>counter\<close> is \<open>CAPABILITY_COUNTER\<close>, which the call increments.\<close>

definition ipc_cap_new :: "u64 \<Rightarrow> ipc_permissions \<Rightarrow> u64 \<Rightarrow> ipc_capability \<times> u64" where
  "ipc_cap_new target perms counter =
     (\<lparr>ic_value = push_bit 48 0 OR push_bit 32 (ucast (cap_type_code CtEndpoint)) OR (counter AND 0xFFFFFFFF),
       ic_target = target, ic_permissions = perms, ic_limits = limits_unlimited\<rparr>, counter + 1)"

definition ipc_cap_id :: "ipc_capability \<Rightarrow> u64" where
  "ipc_cap_id c = ic_value c AND 0xFFFFFFFF"

definition ipc_cap_generation :: "ipc_capability \<Rightarrow> u16" where
  "ipc_cap_generation c = ucast (drop_bit 48 (ic_value c) AND 0xFFFF)"

definition ipc_cap_type :: "ipc_capability \<Rightarrow> ipc_cap_type_enum" where
  "ipc_cap_type c =
     (case cap_type_from_u16 (ucast (drop_bit 32 (ic_value c) AND 0xFFFF)) of
        Some t \<Rightarrow> t | None \<Rightarrow> CtInvalid)"

fun has_permission :: "ipc_capability \<Rightarrow> permission \<Rightarrow> bool" where
  "has_permission c PermSend = can_send (ic_permissions c)"
| "has_permission c PermReceive = can_receive (ic_permissions c)"
| "has_permission c PermShare = can_share (ic_permissions c)"

definition ipc_cap_derive :: "ipc_capability \<Rightarrow> ipc_permissions \<Rightarrow> ipc_capability option" where
  "ipc_cap_derive c np =
     (if can_send np \<and> \<not> can_send (ic_permissions c) then None
      else if can_receive np \<and> \<not> can_receive (ic_permissions c) then None
      else if can_share np \<and> \<not> can_share (ic_permissions c) then None
      else if max_message_size np > max_message_size (ic_permissions c) then None
      else Some (c\<lparr>ic_permissions := np\<rparr>))"

definition ipc_cap_revoke :: "ipc_capability \<Rightarrow> ipc_capability" where
  "ipc_cap_revoke c =
     (let generation = ipc_cap_generation c + 1; t = cap_type_code (ipc_cap_type c) in
      c\<lparr>ic_value := push_bit 48 (ucast generation) OR push_bit 32 (ucast t) OR ipc_cap_id c\<rparr>)"

section \<open>The capability table\<close>

type_synonym ipc_cap_table = "(u64, ipc_capability) btree_map"

definition table_new :: ipc_cap_table where
  "table_new = []"

definition table_len :: "ipc_cap_table \<Rightarrow> nat" where
  "table_len t = length t"

definition table_is_empty :: "ipc_cap_table \<Rightarrow> bool" where
  "table_is_empty t = (table_len t = 0)"

definition table_insert :: "ipc_capability \<Rightarrow> ipc_cap_table \<Rightarrow> (unit, kernel_error) result \<times> ipc_cap_table" where
  "table_insert c t =
     (let i = ipc_cap_id c in
      if bt_get t i \<noteq> None then (Err (KeAlreadyExists ''ipc_capability'' i), t)
      else (Ok (), bt_insert i c t))"

definition table_lookup :: "u64 \<Rightarrow> ipc_cap_table \<Rightarrow> ipc_capability option" where
  "table_lookup i t = bt_get t i"

definition table_remove :: "u64 \<Rightarrow> ipc_cap_table \<Rightarrow> ipc_capability option \<times> ipc_cap_table" where
  "table_remove i t = (bt_get t i, bt_remove i t)"

definition validate_permission :: "u64 \<Rightarrow> permission \<Rightarrow> ipc_cap_table \<Rightarrow> bool" where
  "validate_permission cap_id perm t =
     (case bt_get t cap_id of Some c \<Rightarrow> has_permission c perm | None \<Rightarrow> False)"

section \<open>Lemmas\<close>

lemma mask_values:
  "(0xFFFFFFFF :: u64) = mask 32" "(0xFFFF :: u64) = mask 16"
  by (simp_all add: mask_eq_exp_minus_1)

lemma packed_fields:
  fixes g t :: u16 and i :: u64
  defines "v \<equiv> push_bit 48 (ucast g) OR push_bit 32 (ucast t) OR (i AND 0xFFFFFFFF) :: u64"
  shows "v AND 0xFFFFFFFF = i AND 0xFFFFFFFF" "ucast (drop_bit 48 v AND 0xFFFF) = g"
    "ucast (drop_bit 32 v AND 0xFFFF) = t"
  unfolding v_def mask_values
  by (rule bit_eqI; auto simp: bit_simps dest: bit_imp_le_length)+

lemma cap_type_roundtrip: "cap_type_from_u16 (cap_type_code t) = Some t"
  by (cases t) (simp_all add: cap_type_from_u16_def)

lemma ipc_cap_new_fields:
  assumes "ipc_cap_new target perms counter = (c, counter')"
  shows "ipc_cap_id c = counter AND 0xFFFFFFFF" "ipc_cap_generation c = 0" "ipc_cap_type c = CtEndpoint"
    "ic_target c = target" "ic_permissions c = perms"
proof -
  have v: "ic_value c = push_bit 48 (ucast (0 :: u16)) OR push_bit 32 (ucast (cap_type_code CtEndpoint))
      OR (counter AND 0xFFFFFFFF)"
    using assms by (auto simp: ipc_cap_new_def)
  show "ipc_cap_id c = counter AND 0xFFFFFFFF" unfolding ipc_cap_id_def v by (rule packed_fields)
  show "ipc_cap_generation c = 0" unfolding ipc_cap_generation_def v by (rule packed_fields)
  show "ipc_cap_type c = CtEndpoint"
    unfolding ipc_cap_type_def v packed_fields cap_type_roundtrip by simp
  show "ic_target c = target" "ic_permissions c = perms" using assms by (auto simp: ipc_cap_new_def)
qed

lemma ipc_cap_revoke_fields:
  "ipc_cap_id (ipc_cap_revoke c) = ipc_cap_id c"
  "ipc_cap_generation (ipc_cap_revoke c) = ipc_cap_generation c + 1"
  "ipc_cap_type (ipc_cap_revoke c) = ipc_cap_type c"
proof -
  have v: "ic_value (ipc_cap_revoke c) = push_bit 48 (ucast (ipc_cap_generation c + 1)) OR
      push_bit 32 (ucast (cap_type_code (ipc_cap_type c))) OR (ic_value c AND 0xFFFFFFFF)"
    by (simp add: ipc_cap_revoke_def Let_def ipc_cap_id_def)
  show "ipc_cap_id (ipc_cap_revoke c) = ipc_cap_id c" unfolding ipc_cap_id_def v by (rule packed_fields)
  show "ipc_cap_generation (ipc_cap_revoke c) = ipc_cap_generation c + 1"
    unfolding ipc_cap_generation_def v by (rule packed_fields)
  show "ipc_cap_type (ipc_cap_revoke c) = ipc_cap_type c"
    unfolding ipc_cap_type_def [of "ipc_cap_revoke c"] v packed_fields cap_type_roundtrip by simp
qed

section \<open>Properties\<close>

text \<open>What a set of permissions allows: a limit of 0 stands for no limit.\<close>

definition size_allowed :: "ipc_permissions \<Rightarrow> usize \<Rightarrow> bool" where
  "size_allowed p n = (max_message_size p = 0 \<or> n \<le> max_message_size p)"

lemma derive_rights:
  assumes "ipc_cap_derive c np = Some d" "has_permission d p"
  shows "has_permission c p"
  using assms by (cases p) (auto simp: ipc_cap_derive_def split: if_splits)

lemma derive_Some:
  "ipc_cap_derive c np = Some d \<Longrightarrow>
     d = c\<lparr>ic_permissions := np\<rparr> \<and> max_message_size np \<le> max_message_size (ic_permissions c)"
  by (auto simp: ipc_cap_derive_def not_less split: if_splits)

lemma size_limit_lifted:
  assumes le: "max_message_size np \<le> max_message_size p"
  shows "(\<forall>n. size_allowed np n \<longrightarrow> size_allowed p n) \<longleftrightarrow>
     \<not> (max_message_size np = 0 \<and> max_message_size p \<notin> {0, - 1})"
proof
  assume all: "\<forall>n. size_allowed np n \<longrightarrow> size_allowed p n"
  have "max_message_size p = - 1" if "- 1 \<le> max_message_size p"
    using that word_order.extremum_unique [of "max_message_size p"] by simp
  then show "\<not> (max_message_size np = 0 \<and> max_message_size p \<notin> {0, - 1})"
    using all [rule_format, of "- 1"] by (auto simp: size_allowed_def)
next
  have top: "n \<le> - 1" for n :: usize
    using word_order.extremum [of n] by simp
  assume "\<not> (max_message_size np = 0 \<and> max_message_size p \<notin> {0, - 1})"
  then show "\<forall>n. size_allowed np n \<longrightarrow> size_allowed p n"
    using le top by (auto simp: size_allowed_def intro: order_trans)
qed

lemma has_permission_all: "(\<forall>p. P p) \<longleftrightarrow> P PermSend \<and> P PermReceive \<and> P PermShare"
  by (metis permission.exhaust)

text \<open>
  Deriving an IPC capability never adds a right to send, receive or share. The limit on the
  message size is compared as a plain number although 0 stands for no limit, so every size the
  derived capability admits is one its parent admits, except exactly when an unlimited
  capability is derived from one whose limit excludes some size (\<open>- 1\<close> is \<open>usize::MAX\<close>).
\<close>

theorem derive_attenuates_unless_limit_lifted:
  assumes "ipc_cap_derive c np = Some d"
  shows "((\<forall>p. has_permission d p \<longrightarrow> has_permission c p) \<and>
           (\<forall>n. size_allowed (ic_permissions d) n \<longrightarrow> size_allowed (ic_permissions c) n)) \<longleftrightarrow>
         \<not> (max_message_size (ic_permissions d) = 0 \<and>
            max_message_size (ic_permissions c) \<notin> {0, - 1})"
proof -
  have d: "ic_permissions d = np" and le: "max_message_size np \<le> max_message_size (ic_permissions c)"
    using derive_Some [OF assms] by auto
  show ?thesis unfolding d
    using size_limit_lifted [OF le] derive_rights [OF assms] by blast
qed

theorem derive_attenuates_unless_limit_lifted_witness:
  "let c = fst (ipc_cap_new 7 (permissions_all\<lparr>max_message_size := 64\<rparr>) 1);
       d = c\<lparr>ic_permissions := permissions_send_only\<rparr>
   in \<not> (\<forall>n. size_allowed (ic_permissions d) n \<longrightarrow> size_allowed (ic_permissions c) n)"
proof -
  let ?c = "fst (ipc_cap_new 7 (permissions_all\<lparr>max_message_size := 64\<rparr>) 1)"
  have "ipc_cap_derive ?c permissions_send_only = Some (?c\<lparr>ic_permissions := permissions_send_only\<rparr>)"
    by (simp add: ipc_cap_derive_def ipc_cap_new_def permissions_all_def permissions_send_only_def)
  note derive_attenuates_unless_limit_lifted [OF this]
  then show ?thesis
    by (simp add: ipc_cap_new_def permissions_all_def permissions_send_only_def has_permission_all)
qed

end
