(* ===== verification/Ipc_Transfer.thy ===== *)
theory Ipc_Transfer
  imports Cap_Manager Ipc_Message
begin

text \<open>
  Capabilities in IPC: the permission checks of \<open>src/kernel/src/cap/ipc_integration.rs\<close> and the
  transfer of capabilities through messages (\<open>src/kernel/src/ipc/cap_transfer.rs\<close>). Spaces are
  named as in the capability system; \<open>procs\<close> is the process table, which gives a live process
  its space.
\<close>

section \<open>Permission checks\<close>

definition IPC_SEND :: rights where "IPC_SEND = WRITE"
definition IPC_RECEIVE :: rights where "IPC_RECEIVE = READ"
definition IPC_BIND :: rights where "IPC_BIND = EXECUTE"
definition IPC_GRANT :: rights where "IPC_GRANT = GRANT"

fun ipc_error_of_cap :: "cap_error \<Rightarrow> ipc_error" where
  "ipc_error_of_cap CeInvalidCapability = IpcInvalidCapability"
| "ipc_error_of_cap CeInsufficientRights = IpcPermissionDenied"
| "ipc_error_of_cap CeCapabilityRevoked = IpcInvalidCapability"
| "ipc_error_of_cap _ = IpcPermissionDenied"

definition check_ipc :: "rights \<Rightarrow> capability_token \<Rightarrow> u64 \<Rightarrow> cap_system \<Rightarrow>
    (unit, ipc_error) result \<times> cap_system" where
  "check_ipc required cap sp sys =
     (case check_capability cap required sp sys of
        (Ok _, sys') \<Rightarrow> (Ok (), sys')
      | (Err e, sys') \<Rightarrow> (Err (ipc_error_of_cap e), sys'))"

definition check_send_permission :: "capability_token \<Rightarrow> u64 \<Rightarrow> cap_system \<Rightarrow>
    (unit, ipc_error) result \<times> cap_system" where
  "check_send_permission = check_ipc IPC_SEND"

definition check_receive_permission :: "capability_token \<Rightarrow> u64 \<Rightarrow> cap_system \<Rightarrow>
    (unit, ipc_error) result \<times> cap_system" where
  "check_receive_permission = check_ipc IPC_RECEIVE"

definition check_bind_permission :: "capability_token \<Rightarrow> u64 \<Rightarrow> cap_system \<Rightarrow>
    (unit, ipc_error) result \<times> cap_system" where
  "check_bind_permission = check_ipc IPC_BIND"

definition delegate_endpoint_capability :: "capability_token \<Rightarrow> u64 \<Rightarrow> u64 \<Rightarrow> rights \<Rightarrow> cap_system \<Rightarrow>
    (capability_token, ipc_error) result \<times> cap_system" where
  "delegate_endpoint_capability cap source target new_rights sys =
     (case delegate cap source target new_rights sys of
        (Ok c, sys') \<Rightarrow> (Ok c, sys')
      | (Err CeInvalidCapability, sys') \<Rightarrow> (Err IpcInvalidCapability, sys')
      | (Err _, sys') \<Rightarrow> (Err IpcPermissionDenied, sys'))"

section \<open>Transfer through messages\<close>

fun transfer_check_error :: "cap_error \<Rightarrow> ipc_error" where
  "transfer_check_error CeInsufficientRights = IpcPermissionDenied"
| "transfer_check_error _ = IpcInvalidCapability"

definition transfer_capability :: "(u64 \<Rightarrow> u64 option) \<Rightarrow> message \<Rightarrow> u64 \<Rightarrow> u64 \<Rightarrow> cap_system \<Rightarrow>
    (capability_token option, ipc_error) result \<times> cap_system" where
  "transfer_capability procs msg sender receiver_pid sys =
     (let cap_id = msg_capability msg in
      if cap_id = 0 then (Ok None, sys)
      else
        let cap_token = token_from_u64 cap_id in
        (case check_capability cap_token GRANT sender sys of
           (Err e, sys1) \<Rightarrow> (Err (transfer_check_error e), sys1)
         | (Ok _, sys1) \<Rightarrow>
             (case procs receiver_pid of
                None \<Rightarrow> (Err IpcProcessNotFound, sys1)
              | Some receiver \<Rightarrow>
                  (case space_lookup (sys_spaces sys1 sender) cap_token of
                     (None, s) \<Rightarrow> (Err IpcInvalidCapability, set_space sender s sys1)
                   | (Some sender_rights, s) \<Rightarrow>
                       (case delegate cap_token sender receiver (rights_difference sender_rights GRANT)
                               (set_space sender s sys1) of
                          (Ok new_cap, sys2) \<Rightarrow> (Ok (Some new_cap), sys2)
                        | (Err CeOutOfMemory, sys2) \<Rightarrow> (Err IpcOutOfMemory, sys2)
                        | (Err _, sys2) \<Rightarrow> (Err IpcPermissionDenied, sys2))))))"

definition receive_capability :: "message \<Rightarrow> u64 \<Rightarrow> cap_system \<Rightarrow>
    (capability_token option, ipc_error) result \<times> cap_system" where
  "receive_capability msg receiver sys =
     (let cap_id = msg_capability msg in
      if cap_id = 0 then (Ok None, sys)
      else
        let cap_token = token_from_u64 cap_id in
        (case space_lookup (sys_spaces sys receiver) cap_token of
           (Some _, s) \<Rightarrow> (Ok (Some cap_token), set_space receiver s sys)
         | (None, s) \<Rightarrow> (Err IpcInvalidCapability, set_space receiver s sys)))"

definition revoke_transferred_capability :: "capability_token \<Rightarrow> u64 \<Rightarrow> cap_system \<Rightarrow>
    (unit, ipc_error) result \<times> cap_system" where
  "revoke_transferred_capability cap owner sys =
     (case space_lookup (sys_spaces sys owner) cap of
        (None, s) \<Rightarrow> (Err IpcInvalidCapability, set_space owner s sys)
      | (Some _, s) \<Rightarrow>
          (case manager_revoke cap (set_space owner s sys) of
             (Ok _, sys1) \<Rightarrow> (Ok (), sys1)
           | (Err CeInvalidCapability, sys1) \<Rightarrow> (Err IpcInvalidCapability, sys1)
           | (Err _, sys1) \<Rightarrow> (Err IpcPermissionDenied, sys1)))"

section \<open>Tokens carry the flags of their rights\<close>

definition labelled :: "cap_system \<Rightarrow> bool" where
  "labelled sys \<longleftrightarrow>
     (\<forall>sp c obj r. holds sys sp c = Some (obj, r) \<longrightarrow> token_flags c = rights_to_flags r)"

lemma labelledD: "labelled sys \<Longrightarrow> holds sys sp c = Some (obj, r) \<Longrightarrow> token_flags c = rights_to_flags r"
  unfolding labelled_def by blast

lemma labelled_add:
  assumes "labelled sys" "holds sys' = (holds sys)(sp := (holds sys sp)(c \<mapsto> (obj, r)))"
    "token_flags c = rights_to_flags r"
  shows "labelled sys'"
  using assms unfolding labelled_def by auto

lemma token_cap_type_bound: "token_cap_type c \<le> 0xF"
proof -
  have "token_cap_type c = token_cap_type c AND 0xF"
    unfolding token_defs token_masks by (rule bit_eqI) (auto simp: bit_simps)
  then show ?thesis by (metis word_and_le1)
qed

lemma labelled_token: "t \<le> 0xF \<Longrightarrow> token_flags (token_new cid g t (rights_to_flags r)) = rights_to_flags r"
  by (simp add: token_flags_new rights_to_flags_bound)

lemma labelled_same: "labelled sys \<Longrightarrow> holds sys' = holds sys \<Longrightarrow> labelled sys'"
  by (simp add: labelled_def)

lemma labelled_create:
  assumes "labelled sys" "sys_wf sys" "create_capability obj r sp sys = (res, sys')"
  shows "labelled sys'"
  using assms(3,2)
proof (cases rule: create_capability_cases)
  case (created cid cap)
  show ?thesis
    by (rule labelled_add [OF assms(1) created(5)])
      (simp add: created(4) labelled_token type_code_bound)
qed (use assms(1) labelled_same in auto)

lemma labelled_delegate:
  assumes "labelled sys" "sys_wf sys" "delegate cap source target r sys = (res, sys')"
  shows "labelled sys'"
  using assms(3,2)
proof (cases rule: delegate_cases)
  case (delegated src_obj src_rights entry new_cap)
  show ?thesis
    by (rule labelled_add [OF assms(1) delegated(9)])
      (simp add: delegated(7) labelled_token token_cap_type_bound)
qed (use assms(1) labelled_same in auto)

lemma labelled_apply:
  assumes lab: "labelled sys" and wf: "sys_wf sys"
  shows "labelled (cap_apply a sys)"
proof (cases a)
  case (Create obj r sp)
  show ?thesis unfolding Create
    using labelled_create [OF lab wf prod.collapse [symmetric]] by simp
next
  case (Delegate cap source target r)
  show ?thesis unfolding Delegate
    using labelled_delegate [OF lab wf prod.collapse [symmetric]] by simp
next
  case (Revoke cap)
  show ?thesis unfolding Revoke
    using labelled_same [OF lab manager_revoke_spec(2) [OF prod.collapse [symmetric] wf]] by simp
next
  case (Delete cap)
  show ?thesis unfolding Delete
    using labelled_same [OF lab manager_delete_spec(2) [OF prod.collapse [symmetric] wf]] by simp
next
  case (Discard cap sp)
  have "holds (cap_apply a sys) = (holds sys)(sp := (\<lambda>c. if slot_of (token_id c) = slot_of (token_id cap)
      then None else holds sys sp c))"
    unfolding Discard cap_apply.simps by (rule space_remove_spec(4) [OF wf refl])
  then show ?thesis using lab by (auto simp: labelled_def split: if_splits)
next
  case (Check cap r sp)
  show ?thesis unfolding Check
    using labelled_same [OF lab check_capability_spec(2) [OF prod.collapse [symmetric] wf]] by simp
qed

lemma labelled_init: "labelled (snd (cap_init k (boot_system quota pids)))"
  by (auto simp: labelled_def holds_init root_token_def labelled_token split: if_splits)

lemma cap_reachable_labelled: "cap_reachable sys \<Longrightarrow> labelled sys"
  by (induction rule: cap_reachable.induct)
    (simp_all add: labelled_init labelled_apply cap_reachable_wf, simp add: labelled_def)

section \<open>Where a transferred capability goes\<close>

lemma delegate_target_fresh:
  assumes d: "delegate cap source target r sys = (Ok new_cap, sys')" and wf: "sys_wf sys"
    and c: "token_id c = token_id cap"
  shows "holds sys target c = None"
proof -
  obtain lr s where lk: "space_lookup (sys_spaces sys source) cap = (lr, s)" by force
  have s: "space_view s = space_view (sys_spaces sys source)" "space_wf s"
    using space_lookup_spec [OF sys_wfD(1) [OF wf], of source cap] lk by simp_all
  note same = set_space_same_view [OF wf s]
  obtain obj ri s' where ins: "space_insert (sys_spaces (set_space source s sys) target) new_cap obj ri = (Ok (), s')"
    and "new_cap = token_new (token_id cap) (token_generation cap) (token_cap_type cap) (rights_to_flags ri)"
    using d lk by (auto simp: delegate_def Let_def split: option.splits if_splits prod.splits result.splits)
  then have "token_id new_cap = token_id cap" by (simp add: token_id_new_small token_id_bound)
  with space_insert_view(2) [OF sys_wfD(1) [OF same(3)] ins, of c] c same(1)
  show ?thesis by (metis holds_def)
qed

lemma receive_capability_spec:
  assumes "msg_capability msg \<noteq> 0" "sys_wf sys"
  shows "fst (receive_capability msg sp sys) =
    (if holds sys sp (msg_capability msg) = None then Err IpcInvalidCapability
     else Ok (Some (msg_capability msg)))"
  using space_lookup_spec(1) [OF sys_wfD(1) [OF assms(2)], of sp "msg_capability msg"] assms(1)
  by (cases "space_lookup (sys_spaces sys sp) (msg_capability msg)")
    (auto simp: receive_capability_def token_from_u64_def holds_def Let_def split: option.splits)

lemma transfer_capability_Ok:
  assumes t: "transfer_capability procs msg sender pid sys = (Ok (Some new_cap), sys')" and wf: "sys_wf sys"
  obtains sys1 receiver obj r where "procs pid = Some receiver" "sys_wf sys1" "holds sys1 = holds sys"
    "registered sys1 = registered sys" "msg_capability msg \<noteq> 0"
    "holds sys sender (msg_capability msg) = Some (obj, r)"
    "delegate (msg_capability msg) sender receiver (rights_difference r GRANT) sys1 = (Ok new_cap, sys')"
proof -
  let ?cap = "msg_capability msg"
  have nz: "?cap \<noteq> 0" using t by (auto simp: transfer_capability_def)
  obtain u sysc where ck: "check_capability ?cap GRANT sender sys = (Ok u, sysc)"
    using t nz by (auto simp: transfer_capability_def token_from_u64_def Let_def split: prod.splits result.splits)
  obtain receiver where rc: "procs pid = Some receiver"
    using t nz ck by (auto simp: transfer_capability_def token_from_u64_def Let_def split: option.splits)
  obtain lr s where lk: "space_lookup (sys_spaces sysc sender) ?cap = (lr, s)" by force
  note c = check_capability_spec [OF ck wf]
  have s: "space_view s = space_view (sys_spaces sysc sender)" "space_wf s"
    and lr: "lr = map_option snd (holds sysc sender ?cap)"
    using space_lookup_spec [OF sys_wfD(1) [OF c(1)], of sender ?cap] lk by (simp_all add: holds_def)
  note same = set_space_same_view [OF c(1) s]
  obtain obj r where h: "holds sys sender ?cap = Some (obj, r)" and lr': "lr = Some r"
    using t nz ck rc lk lr c(2)
    by (cases "holds sys sender ?cap") (auto simp: transfer_capability_def token_from_u64_def Let_def)
  have "delegate ?cap sender receiver (rights_difference r GRANT) (set_space sender s sysc) = (Ok new_cap, sys')"
    using t nz ck rc lk lr'
    by (auto simp: transfer_capability_def token_from_u64_def Let_def
        split: prod.splits result.splits cap_error.splits)
  with that [OF rc same(3) _ _ nz h] same(1,2) c(2,3) show thesis by simp
qed

section \<open>Properties\<close>

text \<open>
  A capability that \<open>transfer_capability\<close> hands over is never found by \<open>receive_capability\<close>: the
  receiver is given a token without the grant flag, but the message still names the sender's
  token, which carries that flag. After every successful transfer in a reachable system the
  receiver's check of the same message fails with an invalid capability.
\<close>

theorem transferred_capability_not_received:
  assumes "cap_reachable sys" "transfer_capability procs msg sender pid sys = (Ok (Some new_cap), sys')"
    and "procs pid = Some receiver"
  shows "fst (receive_capability msg receiver sys') = Err IpcInvalidCapability"
proof -
  let ?cap = "msg_capability msg"
  note wf = cap_reachable_wf [OF assms(1)]
  obtain sys1 obj r where wf1: "sys_wf sys1" and h1: "holds sys1 = holds sys" and nz: "?cap \<noteq> 0"
    and h: "holds sys sender ?cap = Some (obj, r)"
    and d: "delegate ?cap sender receiver (rights_difference r GRANT) sys1 = (Ok new_cap, sys')"
    using transfer_capability_Ok [OF assms(2) wf] assms(3) by (metis option.inject)
  have flags: "token_flags ?cap = rights_to_flags r"
    using labelledD [OF cap_reachable_labelled [OF assms(1)] h] .
  have fresh: "holds sys1 receiver ?cap = None" by (rule delegate_target_fresh [OF d wf1 refl])
  from d wf1 show ?thesis
  proof (cases rule: delegate_cases)
    case (delegated src_obj src_rights entry nc)
    have sr: "src_rights = r" and g: "bit r 3"
      using delegated(3,4) h h1 by (simp_all add: rights_contains_flag)
    have nf: "token_flags new_cap = rights_to_flags (rights_intersection r (rights_difference r GRANT))"
      using delegated(1,7) by (simp add: sr labelled_token token_cap_type_bound)
    have "bit (token_flags ?cap) 3" "\<not> bit (token_flags new_cap) 3"
      using g unfolding flags nf
      by (simp_all add: rights_to_flags_bits rights_intersection_def rights_difference_def GRANT_def bit_simps)
    then have "?cap \<noteq> new_cap" by auto
    then have "holds sys' receiver ?cap = None" using delegated(1,9) fresh by simp
    then show ?thesis using receive_capability_spec [OF nz delegated(2)] by simp
  qed simp
qed

abbreviation transfer_msg :: message where
  "transfer_msg \<equiv> Small (small_new demo_cap 7)"

theorem transferred_capability_not_received_witness:
  "fst (receive_capability transfer_msg 2
     (snd (transfer_capability (\<lambda>pid. Some pid) transfer_msg 1 2 demo))) = Err IpcInvalidCapability"
proof -
  let ?t = "transfer_capability (\<lambda>pid. Some pid) transfer_msg 1 2 demo"
  have "fst ?t = Ok (Some 0x7000000000000001)" by code_simp
  from transferred_capability_not_received [OF demo_reachable okI [OF this], of 2]
  show ?thesis by blast
qed

end
