(* ===== verification/Bounded_Queue.thy ===== *)
theory Bounded_Queue
  imports Prelude
begin

text \<open>
  The contract of a bounded first-in first-out queue. The kernel has several array
  implementations of it (the run queues of the scheduler, the ring buffer of the asynchronous
  channels); each is shown to satisfy the locale \<open>bounded_queue\<close>, whose lemmas say that no
  sequence of operations can tell the implementation from a list.
\<close>

section \<open>Operations and their results\<close>

datatype 'a queue_op = Enq 'a | Deq

datatype 'a queue_res = Accepted | Refused | Delivered 'a | Nothing

fun queue_step ::
  "('a \<Rightarrow> 'q \<Rightarrow> bool \<times> 'q) \<Rightarrow> ('q \<Rightarrow> 'a option \<times> 'q) \<Rightarrow> 'a queue_op \<Rightarrow> 'q \<Rightarrow> 'a queue_res \<times> 'q" where
  "queue_step enq deq (Enq x) q = (let (ok, q') = enq x q in (if ok then Accepted else Refused, q'))"
| "queue_step enq deq Deq q =
     (let (r, q') = deq q in (case r of Some x \<Rightarrow> Delivered x | None \<Rightarrow> Nothing, q'))"

fun queue_run ::
  "('a \<Rightarrow> 'q \<Rightarrow> bool \<times> 'q) \<Rightarrow> ('q \<Rightarrow> 'a option \<times> 'q) \<Rightarrow> 'a queue_op list \<Rightarrow> 'q \<Rightarrow>
     'a queue_res list \<times> 'q" where
  "queue_run enq deq [] q = ([], q)"
| "queue_run enq deq (op # ops) q =
     (let (r, q') = queue_step enq deq op q; (rs, q'') = queue_run enq deq ops q' in (r # rs, q''))"

text \<open>The specification: a list of at most \<open>n\<close> elements.\<close>

definition list_enq :: "nat \<Rightarrow> 'a \<Rightarrow> 'a list \<Rightarrow> bool \<times> 'a list" where
  "list_enq n x xs = (if length xs < n then (True, xs @ [x]) else (False, xs))"

fun list_deq :: "'a list \<Rightarrow> 'a option \<times> 'a list" where
  "list_deq [] = (None, [])"
| "list_deq (x # xs) = (Some x, xs)"

text \<open>What went in and what came out of a run.\<close>

fun accepted :: "'a queue_op list \<Rightarrow> 'a queue_res list \<Rightarrow> 'a list" where
  "accepted (Enq x # ops) (Accepted # rs) = x # accepted ops rs"
| "accepted (op # ops) (r # rs) = accepted ops rs"
| "accepted ops rs = []"

fun delivered :: "'a queue_res list \<Rightarrow> 'a list" where
  "delivered (Delivered x # rs) = x # delivered rs"
| "delivered (r # rs) = delivered rs"
| "delivered [] = []"

lemma list_run_fifo:
  assumes "queue_run (list_enq n) list_deq ops xs = (rs, ys)"
  shows "xs @ accepted ops rs = delivered rs @ ys"
  using assms
proof (induction ops arbitrary: xs rs)
  case (Cons op ops)
  obtain r xs' where st: "queue_step (list_enq n) list_deq op xs = (r, xs')" by force
  obtain rs' where run: "queue_run (list_enq n) list_deq ops xs' = (rs', ys)" and rs: "rs = r # rs'"
    using Cons.prems st by (auto split: prod.splits)
  note IH = Cons.IH [OF run]
  show ?case
  proof (cases op)
    case (Enq x)
    with st IH show ?thesis by (auto simp: rs list_enq_def split: if_splits)
  next
    case Deq
    with st IH show ?thesis by (cases xs) (auto simp: rs)
  qed
qed simp

lemma list_run_bound:
  assumes "queue_run (list_enq n) list_deq ops xs = (rs, ys)" "length xs \<le> n"
  shows "length ys \<le> n"
  using assms
proof (induction ops arbitrary: xs rs)
  case (Cons op ops)
  obtain r xs' where st: "queue_step (list_enq n) list_deq op xs = (r, xs')" by force
  then obtain rs' where "queue_run (list_enq n) list_deq ops xs' = (rs', ys)"
    using Cons.prems by (auto split: prod.splits)
  moreover have "length xs' \<le> n"
    using st Cons.prems(2) by (cases op; cases xs) (auto simp: list_enq_def split: if_splits)
  ultimately show ?case using Cons.IH by blast
qed simp

section \<open>The contract\<close>

locale bounded_queue =
  fixes capacity :: nat
    and inv :: "'q \<Rightarrow> bool"
    and contents :: "'q \<Rightarrow> 'a list"
    and enq :: "'a \<Rightarrow> 'q \<Rightarrow> bool \<times> 'q"
    and deq :: "'q \<Rightarrow> 'a option \<times> 'q"
  assumes bound: "inv q \<Longrightarrow> length (contents q) \<le> capacity"
    and enq_inv: "inv q \<Longrightarrow> inv (snd (enq x q))"
    and enq_contents: "inv q \<Longrightarrow>
      (fst (enq x q), contents (snd (enq x q))) = list_enq capacity x (contents q)"
    and deq_inv: "inv q \<Longrightarrow> inv (snd (deq q))"
    and deq_contents: "inv q \<Longrightarrow>
      (fst (deq q), contents (snd (deq q))) = list_deq (contents q)"
begin

lemma step_refines:
  assumes "inv q" "queue_step enq deq op q = (r, q')"
  shows "inv q' \<and> queue_step (list_enq capacity) list_deq op (contents q) = (r, contents q')"
proof (cases op)
  case (Enq x)
  then show ?thesis
    using assms enq_inv [of q x] enq_contents [of q x, symmetric] by (auto split: prod.splits)
next
  case Deq
  then show ?thesis
    using assms deq_inv [of q] deq_contents [of q, symmetric] by (auto split: prod.splits)
qed

lemma run_refines:
  assumes "inv q" "queue_run enq deq ops q = (rs, q')"
  shows "inv q' \<and> queue_run (list_enq capacity) list_deq ops (contents q) = (rs, contents q')"
  using assms
proof (induction ops arbitrary: q rs)
  case (Cons op ops)
  obtain r q1 where st: "queue_step enq deq op q = (r, q1)" by force
  then obtain rs1 where run: "queue_run enq deq ops q1 = (rs1, q')" and rs: "rs = r # rs1"
    using Cons.prems(2) by (auto split: prod.splits)
  note one = step_refines [OF Cons.prems(1) st]
  from one Cons.IH [OF _ run] show ?case by (simp add: rs)
qed simp

lemma run_fifo:
  assumes "inv q" "queue_run enq deq ops q = (rs, q')"
  shows "contents q @ accepted ops rs = delivered rs @ contents q'"
  using run_refines [OF assms] list_run_fifo by blast

end

section \<open>Circular arrays\<close>

text \<open>The \<open>n\<close> elements of a circular array from position \<open>h\<close> on.\<close>

definition ring_contents :: "'a list \<Rightarrow> nat \<Rightarrow> nat \<Rightarrow> 'a list" where
  "ring_contents buf h n = map (\<lambda>i. buf ! ((h + i) mod length buf)) [0..<n]"

lemma length_ring_contents [simp]: "length (ring_contents buf h n) = n"
  by (simp add: ring_contents_def)

lemma ring_contents_0 [simp]: "ring_contents buf h 0 = []"
  by (simp add: ring_contents_def)

lemma ring_index_neq:
  assumes "i < j" "j < (N :: nat) + i"
  shows "(h + i) mod N \<noteq> (h + j) mod N"
proof
  assume "(h + i) mod N = (h + j) mod N"
  then have "(h + j - (h + i)) mod N = 0" by (metis mod_eq_dvd_iff_nat assms(1) add_le_cancel_left less_imp_le_nat dvd_eq_mod_eq_0)
  then have "(j - i) mod N = 0" by simp
  moreover have "j - i < N" "0 < j - i" using assms by auto
  ultimately show False by simp
qed

lemma ring_contents_mod [simp]: "ring_contents buf (h mod length buf) n = ring_contents buf h n"
  by (simp add: ring_contents_def mod_add_left_eq)

lemma ring_contents_upd_outside:
  assumes "n \<le> m" "m < length buf"
  shows "ring_contents (buf[(h + m) mod length buf := x]) h n = ring_contents buf h n"
proof -
  have "(h + i) mod length buf \<noteq> (h + m) mod length buf" if "i < n" for i
    using that assms by (intro ring_index_neq) auto
  then have "buf[(h + m) mod length buf := x] ! ((h + i) mod length buf) = buf ! ((h + i) mod length buf)"
    if "i < n" for i using that by (metis nth_list_update_neq)
  then show ?thesis by (simp add: ring_contents_def)
qed

lemma ring_contents_snoc:
  assumes "n < length buf"
  shows "ring_contents (buf[(h + n) mod length buf := x]) h (Suc n) = ring_contents buf h n @ [x]"
proof -
  have "(h + n) mod length buf < length buf" using assms by (intro mod_less_divisor) linarith
  then show ?thesis
    using ring_contents_upd_outside [of n n buf h x] assms by (simp add: ring_contents_def)
qed

lemma ring_contents_Cons:
  "ring_contents buf h (Suc n) = buf ! (h mod length buf) # ring_contents buf (Suc h) n"
proof -
  have "[0..<Suc n] = 0 # map Suc [0..<n]" by (simp add: map_Suc_upt upt_conv_Cons del: upt_Suc)
  then show ?thesis by (simp add: ring_contents_def del: upt_Suc)
qed

lemma ring_contents_clear_head:
  assumes "n < length buf"
  shows "ring_contents (buf[h mod length buf := x]) (Suc h) n = ring_contents buf (Suc h) n"
proof -
  have "(h + 0) mod length buf \<noteq> (h + Suc i) mod length buf" if "i < n" for i
    using that assms by (intro ring_index_neq) auto
  then show ?thesis by (auto simp: ring_contents_def)
qed

end
