(* ===== verification/Sched_Queue.thy ===== *)
theory Sched_Queue
  imports Bounded_Queue
begin

text \<open>
  The ready queues of the scheduler (\<open>src/kernel/src/sched/queue.rs\<close>) and the part of the task
  control block they read (\<open>src/kernel/src/sched/task.rs\<close>). A task is named by its address; the
  memory that holds the tasks is a function from addresses to control blocks. Indices and
  counts of the circular arrays stay below 256, so they are natural numbers.
\<close>

unbundle bit_operations_syntax

section \<open>Tasks\<close>

datatype priority =
    RealTimeHigh | RealTimeNormal | RealTimeLow | SystemHigh | SystemNormal
  | UserHigh | UserNormal | UserLow | IdlePriority

fun priority_code :: "priority \<Rightarrow> nat" where
  "priority_code RealTimeHigh = 0"
| "priority_code RealTimeNormal = 10"
| "priority_code RealTimeLow = 20"
| "priority_code SystemHigh = 30"
| "priority_code SystemNormal = 40"
| "priority_code UserHigh = 50"
| "priority_code UserNormal = 60"
| "priority_code UserLow = 70"
| "priority_code IdlePriority = 99"

datatype sched_class = ScRealTime | ScNormal | ScIdle

datatype process_state =
    PsCreating | PsReady | PsRunning | PsBlocked | PsSleeping | PsZombie | PsDead

type_synonym task_ptr = nat

record task =
  t_pid :: u64
  t_tid :: u64
  t_state :: process_state
  t_priority :: priority
  t_sched_class :: sched_class
  t_affinity :: u64
  t_current_cpu :: "u8 option"
  t_vruntime :: u64
  t_blocked_on :: "u64 option"
  t_thread_ref :: "nat option"
  t_time_slice :: u32
  t_priority_boost :: "priority option"
  t_runtime :: u64
  t_run_count :: u64
  t_voluntary_switches :: u64
  t_involuntary_switches :: u64
  t_last_run :: u64
  t_last_cpu :: "u8 option"
  t_migrations :: u32

type_synonym task_store = "task_ptr \<Rightarrow> task"

section \<open>One priority level\<close>

definition MAX_TASKS_PER_QUEUE :: nat where "MAX_TASKS_PER_QUEUE = 256"

record priority_queue =
  pq_tasks :: "task_ptr option list"
  pq_head :: nat
  pq_tail :: nat
  pq_count :: nat

definition pq_new :: priority_queue where
  "pq_new = \<lparr>pq_tasks = replicate MAX_TASKS_PER_QUEUE None, pq_head = 0, pq_tail = 0, pq_count = 0\<rparr>"

definition pq_is_empty :: "priority_queue \<Rightarrow> bool" where
  "pq_is_empty q = (pq_count q = 0)"

definition pq_is_full :: "priority_queue \<Rightarrow> bool" where
  "pq_is_full q = (pq_count q = MAX_TASKS_PER_QUEUE)"

definition pq_enqueue :: "task_ptr \<Rightarrow> priority_queue \<Rightarrow> bool \<times> priority_queue" where
  "pq_enqueue t q =
     (if pq_is_full q then (False, q)
      else (True, q\<lparr>pq_tasks := (pq_tasks q)[pq_tail q := Some t],
                    pq_tail := (pq_tail q + 1) mod MAX_TASKS_PER_QUEUE,
                    pq_count := pq_count q + 1\<rparr>))"

definition pq_dequeue :: "priority_queue \<Rightarrow> task_ptr option \<times> priority_queue" where
  "pq_dequeue q =
     (if pq_is_empty q then (None, q)
      else (pq_tasks q ! pq_head q,
            q\<lparr>pq_tasks := (pq_tasks q)[pq_head q := None],
              pq_head := (pq_head q + 1) mod MAX_TASKS_PER_QUEUE,
              pq_count := pq_count q - 1\<rparr>))"

definition pq_peek :: "priority_queue \<Rightarrow> task_ptr option" where
  "pq_peek q = (if pq_is_empty q then None else pq_tasks q ! pq_head q)"

text \<open>The loop of \<open>remove\<close>: \<open>n\<close> iterations from index \<open>idx\<close>, copying all tasks but the target.\<close>

fun pq_remove_loop ::
  "task_ptr option list \<Rightarrow> task_ptr \<Rightarrow> nat \<Rightarrow> nat \<Rightarrow> bool \<times> task_ptr option list \<times> nat \<Rightarrow>
     bool \<times> task_ptr option list \<times> nat" where
  "pq_remove_loop tasks target 0 idx st = st"
| "pq_remove_loop tasks target (Suc n) idx (found, new_tasks, new_count) =
     pq_remove_loop tasks target n ((idx + 1) mod MAX_TASKS_PER_QUEUE)
       (case tasks ! idx of
          None \<Rightarrow> (found, new_tasks, new_count)
        | Some t \<Rightarrow> if t \<noteq> target then (found, new_tasks[new_count := Some t], new_count + 1)
                   else (True, new_tasks, new_count))"

definition pq_remove :: "task_ptr \<Rightarrow> priority_queue \<Rightarrow> bool \<times> priority_queue" where
  "pq_remove target q =
     (if pq_is_empty q then (False, q)
      else case pq_remove_loop (pq_tasks q) target (pq_count q) (pq_head q)
                  (False, replicate MAX_TASKS_PER_QUEUE None, 0) of
             (found, new_tasks, new_count) \<Rightarrow>
               if found then (True, \<lparr>pq_tasks = new_tasks, pq_head = 0, pq_tail = new_count,
                                     pq_count = new_count\<rparr>)
               else (False, q))"

section \<open>The multi-level ready queue\<close>

definition NUM_RT_PRIORITIES :: nat where "NUM_RT_PRIORITIES = 30"
definition NUM_NORMAL_PRIORITIES :: nat where "NUM_NORMAL_PRIORITIES = 4"

record ready_queue =
  rq_rt :: "priority_queue list"
  rq_normal :: "priority_queue list"
  rq_idle :: priority_queue
  rq_rt_bitmap :: u32
  rq_normal_bitmap :: u32
  rq_idle_flag :: bool

definition rq_new :: ready_queue where
  "rq_new = \<lparr>rq_rt = replicate NUM_RT_PRIORITIES pq_new,
             rq_normal = replicate NUM_NORMAL_PRIORITIES pq_new, rq_idle = pq_new,
             rq_rt_bitmap = 0, rq_normal_bitmap = 0, rq_idle_flag = False\<rparr>"

definition rt_index :: "task \<Rightarrow> nat" where
  "rt_index t = min (priority_code (t_priority t)) (NUM_RT_PRIORITIES - 1)"

definition normal_index :: "task \<Rightarrow> nat" where
  "normal_index t = min ((priority_code (t_priority t) - 30) div 10) (NUM_NORMAL_PRIORITIES - 1)"

text \<open>\<open>trailing_zeros\<close> of the standard library; 32 when no bit is set.\<close>

definition trailing_zeros :: "u32 \<Rightarrow> nat" where
  "trailing_zeros w = length (takeWhile (\<lambda>i. \<not> bit w i) [0..<32])"

text \<open>An array of queues with its bitmap: the common part of the two kinds of levels.\<close>

definition levels_enqueue ::
  "nat \<Rightarrow> task_ptr \<Rightarrow> priority_queue list \<times> u32 \<Rightarrow> bool \<times> priority_queue list \<times> u32" where
  "levels_enqueue idx t qb =
     (case qb of (qs, bitmap) \<Rightarrow>
        (case pq_enqueue t (qs ! idx) of
           (True, q') \<Rightarrow> (True, qs[idx := q'], bitmap OR push_bit idx 1)
         | (False, q') \<Rightarrow> (False, qs[idx := q'], bitmap)))"

definition levels_dequeue ::
  "priority_queue list \<times> u32 \<Rightarrow> task_ptr option \<times> priority_queue list \<times> u32" where
  "levels_dequeue qb =
     (case qb of (qs, bitmap) \<Rightarrow>
        if bitmap \<noteq> 0 then
          let idx = trailing_zeros bitmap in
          (case pq_dequeue (qs ! idx) of
             (Some t, q') \<Rightarrow> (Some t, qs[idx := q'],
                if pq_is_empty q' then bitmap AND NOT (push_bit idx 1) else bitmap)
           | (None, q') \<Rightarrow> (None, qs[idx := q'], bitmap))
        else (None, qs, bitmap))"

definition levels_remove ::
  "nat \<Rightarrow> task_ptr \<Rightarrow> priority_queue list \<times> u32 \<Rightarrow> bool \<times> priority_queue list \<times> u32" where
  "levels_remove idx t qb =
     (case qb of (qs, bitmap) \<Rightarrow>
        (case pq_remove t (qs ! idx) of
           (removed, q') \<Rightarrow> (removed, qs[idx := q'],
              if removed \<and> pq_is_empty q' then bitmap AND NOT (push_bit idx 1) else bitmap)))"

definition rq_enqueue :: "task_store \<Rightarrow> task_ptr \<Rightarrow> ready_queue \<Rightarrow> bool \<times> ready_queue" where
  "rq_enqueue store t rq =
     (case t_sched_class (store t) of
        ScRealTime \<Rightarrow>
          (case levels_enqueue (rt_index (store t)) t (rq_rt rq, rq_rt_bitmap rq) of
             (ok, qs, b) \<Rightarrow> (ok, rq\<lparr>rq_rt := qs, rq_rt_bitmap := b\<rparr>))
      | ScNormal \<Rightarrow>
          (case levels_enqueue (normal_index (store t)) t (rq_normal rq, rq_normal_bitmap rq) of
             (ok, qs, b) \<Rightarrow> (ok, rq\<lparr>rq_normal := qs, rq_normal_bitmap := b\<rparr>))
      | ScIdle \<Rightarrow>
          (case pq_enqueue t (rq_idle rq) of
             (True, q') \<Rightarrow> (True, rq\<lparr>rq_idle := q', rq_idle_flag := True\<rparr>)
           | (False, q') \<Rightarrow> (False, rq\<lparr>rq_idle := q'\<rparr>)))"

definition rq_dequeue_idle :: "ready_queue \<Rightarrow> task_ptr option \<times> ready_queue" where
  "rq_dequeue_idle rq =
     (if rq_idle_flag rq then
        (case pq_dequeue (rq_idle rq) of
           (Some t, q') \<Rightarrow> (Some t, rq\<lparr>rq_idle := q', rq_idle_flag := \<not> pq_is_empty q'\<rparr>)
         | (None, q') \<Rightarrow> (None, rq\<lparr>rq_idle := q'\<rparr>))
      else (None, rq))"

definition rq_dequeue :: "ready_queue \<Rightarrow> task_ptr option \<times> ready_queue" where
  "rq_dequeue rq =
     (case levels_dequeue (rq_rt rq, rq_rt_bitmap rq) of
        (Some t, qs, b) \<Rightarrow> (Some t, rq\<lparr>rq_rt := qs, rq_rt_bitmap := b\<rparr>)
      | (None, qs, b) \<Rightarrow>
          let rq1 = rq\<lparr>rq_rt := qs, rq_rt_bitmap := b\<rparr> in
          (case levels_dequeue (rq_normal rq1, rq_normal_bitmap rq1) of
             (Some t, qs, b) \<Rightarrow> (Some t, rq1\<lparr>rq_normal := qs, rq_normal_bitmap := b\<rparr>)
           | (None, qs, b) \<Rightarrow> rq_dequeue_idle (rq1\<lparr>rq_normal := qs, rq_normal_bitmap := b\<rparr>)))"

definition rq_remove :: "task_store \<Rightarrow> task_ptr \<Rightarrow> ready_queue \<Rightarrow> bool \<times> ready_queue" where
  "rq_remove store t rq =
     (case t_sched_class (store t) of
        ScRealTime \<Rightarrow>
          (case levels_remove (rt_index (store t)) t (rq_rt rq, rq_rt_bitmap rq) of
             (ok, qs, b) \<Rightarrow> (ok, rq\<lparr>rq_rt := qs, rq_rt_bitmap := b\<rparr>))
      | ScNormal \<Rightarrow>
          (case levels_remove (normal_index (store t)) t (rq_normal rq, rq_normal_bitmap rq) of
             (ok, qs, b) \<Rightarrow> (ok, rq\<lparr>rq_normal := qs, rq_normal_bitmap := b\<rparr>))
      | ScIdle \<Rightarrow>
          (case pq_remove t (rq_idle rq) of
             (removed, q') \<Rightarrow> (removed, rq\<lparr>rq_idle := q',
                rq_idle_flag := (if removed \<and> pq_is_empty q' then False else rq_idle_flag rq)\<rparr>)))"

definition has_ready_tasks :: "ready_queue \<Rightarrow> bool" where
  "has_ready_tasks rq = (rq_rt_bitmap rq \<noteq> 0 \<or> rq_normal_bitmap rq \<noteq> 0 \<or> rq_idle_flag rq)"

section \<open>The fair queue\<close>

fun priority_to_weight :: "priority \<Rightarrow> u64" where
  "priority_to_weight SystemHigh = 200"
| "priority_to_weight SystemNormal = 100"
| "priority_to_weight UserHigh = 50"
| "priority_to_weight UserNormal = 20"
| "priority_to_weight UserLow = 10"
| "priority_to_weight IdlePriority = 1"
| "priority_to_weight _ = 0"

record cfs_run_queue =
  cfs_tasks :: "(u64, task_ptr list) btree_map"
  cfs_min_vruntime :: u64
  cfs_total_weight :: u64

definition cfs_new :: cfs_run_queue where
  "cfs_new = \<lparr>cfs_tasks = [], cfs_min_vruntime = 0, cfs_total_weight = 0\<rparr>"

definition saturating_sub :: "u64 \<Rightarrow> u64 \<Rightarrow> u64" where
  "saturating_sub a b = (if b \<le> a then a - b else 0)"

definition cfs_enqueue :: "task_store \<Rightarrow> task_ptr \<Rightarrow> cfs_run_queue \<Rightarrow> cfs_run_queue" where
  "cfs_enqueue store t c =
     (let vruntime = max (t_vruntime (store t)) (cfs_min_vruntime c);
          tasks = (case bt_get (cfs_tasks c) vruntime of None \<Rightarrow> [] | Some ts \<Rightarrow> ts) in
      c\<lparr>cfs_tasks := bt_insert vruntime (tasks @ [t]) (cfs_tasks c),
        cfs_total_weight := cfs_total_weight c + priority_to_weight (t_priority (store t))\<rparr>)"

text \<open>The first key of the map, and the last task of its list.\<close>

definition cfs_dequeue :: "task_store \<Rightarrow> cfs_run_queue \<Rightarrow> task_ptr option \<times> cfs_run_queue" where
  "cfs_dequeue store c =
     (case cfs_tasks c of
        [] \<Rightarrow> (None, c)
      | (vruntime, tasks) # rest \<Rightarrow>
          let c1 = c\<lparr>cfs_min_vruntime := vruntime\<rparr>;
              tasks' = butlast tasks;
              c2 = c1\<lparr>cfs_tasks := (if tasks' = [] then bt_remove vruntime (cfs_tasks c1)
                                  else bt_insert vruntime tasks' (cfs_tasks c1))\<rparr> in
          if tasks = [] then (None, c2)
          else (Some (last tasks),
                c2\<lparr>cfs_total_weight :=
                     saturating_sub (cfs_total_weight c2) (priority_to_weight (t_priority (store (last tasks))))\<rparr>))"

definition cfs_remove :: "task_store \<Rightarrow> task_ptr \<Rightarrow> cfs_run_queue \<Rightarrow> bool \<times> cfs_run_queue" where
  "cfs_remove store target c =
     (let vruntime = t_vruntime (store target) in
      case bt_get (cfs_tasks c) vruntime of
        None \<Rightarrow> (False, c)
      | Some tasks \<Rightarrow>
          if target \<in> set tasks then
            let tasks' = remove1 target tasks in
            (True, c\<lparr>cfs_tasks := (if tasks' = [] then bt_remove vruntime (cfs_tasks c)
                                  else bt_insert vruntime tasks' (cfs_tasks c)),
                     cfs_total_weight :=
                       saturating_sub (cfs_total_weight c) (priority_to_weight (t_priority (store target)))\<rparr>)
          else (False, c))"

definition update_min_vruntime :: "u64 \<Rightarrow> cfs_run_queue \<Rightarrow> cfs_run_queue" where
  "update_min_vruntime v c = c\<lparr>cfs_min_vruntime := max (cfs_min_vruntime c) v\<rparr>"

definition cfs_is_empty :: "cfs_run_queue \<Rightarrow> bool" where
  "cfs_is_empty c = (cfs_tasks c = [])"

section \<open>A level is a bounded queue\<close>

definition pq_ring :: "priority_queue \<Rightarrow> task_ptr option list" where
  "pq_ring q = ring_contents (pq_tasks q) (pq_head q) (pq_count q)"

definition pq_contents :: "priority_queue \<Rightarrow> task_ptr list" where
  "pq_contents q = map the (pq_ring q)"

definition pq_inv :: "priority_queue \<Rightarrow> bool" where
  "pq_inv q \<longleftrightarrow>
     length (pq_tasks q) = MAX_TASKS_PER_QUEUE \<and> pq_head q < MAX_TASKS_PER_QUEUE \<and>
     pq_count q \<le> MAX_TASKS_PER_QUEUE \<and>
     pq_tail q = (pq_head q + pq_count q) mod MAX_TASKS_PER_QUEUE \<and>
     None \<notin> set (pq_ring q)"

lemma max_tasks_pos: "0 < MAX_TASKS_PER_QUEUE"
  by (simp add: MAX_TASKS_PER_QUEUE_def)

lemma length_pq_contents [simp]: "length (pq_contents q) = pq_count q"
  by (simp add: pq_contents_def pq_ring_def)

lemma pq_is_empty_iff: "pq_is_empty q \<longleftrightarrow> pq_contents q = []"
  by (metis length_0_conv length_pq_contents pq_is_empty_def)

lemma pq_ring_some: "pq_inv q \<Longrightarrow> pq_ring q = map Some (pq_contents q)"
proof -
  assume "pq_inv q"
  then have "None \<notin> set (pq_ring q)" by (simp add: pq_inv_def)
  then have "map (Some \<circ> the) (pq_ring q) = pq_ring q"
    by (intro map_idI) (metis comp_apply option.collapse)
  then show ?thesis by (simp add: pq_contents_def)
qed

lemma pq_new_inv: "pq_inv pq_new" "pq_contents pq_new = []"
  by (simp_all add: pq_inv_def pq_new_def pq_contents_def pq_ring_def max_tasks_pos)

lemma pq_enqueue_ring:
  assumes "pq_inv q" "\<not> pq_is_full q"
  shows "pq_ring (snd (pq_enqueue t q)) = pq_ring q @ [Some t]"
  using assms ring_contents_snoc [of "pq_count q" "pq_tasks q" "pq_head q" "Some t"]
  by (simp add: pq_enqueue_def pq_inv_def pq_ring_def pq_is_full_def)

lemma pq_enqueue_inv:
  assumes "pq_inv q"
  shows "pq_inv (snd (pq_enqueue t q))"
proof (cases "pq_is_full q")
  case True
  with assms show ?thesis by (simp add: pq_enqueue_def)
next
  case False
  have "None \<notin> set (pq_ring (snd (pq_enqueue t q)))"
    using assms pq_enqueue_ring [OF assms False] by (auto simp: pq_inv_def)
  with assms False show ?thesis
    by (simp add: pq_inv_def pq_enqueue_def pq_is_full_def mod_Suc_eq)
qed

lemma pq_enqueue_contents:
  assumes "pq_inv q"
  shows "(fst (pq_enqueue t q), pq_contents (snd (pq_enqueue t q))) =
    list_enq MAX_TASKS_PER_QUEUE t (pq_contents q)"
proof (cases "pq_is_full q")
  case True
  then show ?thesis by (simp add: pq_enqueue_def list_enq_def pq_is_full_def)
next
  case False
  have "pq_count q < MAX_TASKS_PER_QUEUE" using assms False by (simp add: pq_inv_def pq_is_full_def)
  moreover have "pq_contents (snd (pq_enqueue t q)) = pq_contents q @ [t]"
    unfolding pq_contents_def pq_enqueue_ring [OF assms False] by simp
  moreover have "fst (pq_enqueue t q)" using False by (simp add: pq_enqueue_def)
  ultimately show ?thesis by (simp add: list_enq_def)
qed

lemma pq_dequeue_ring:
  assumes "pq_inv q" "\<not> pq_is_empty q"
  shows "pq_ring q = fst (pq_dequeue q) # pq_ring (snd (pq_dequeue q))"
proof -
  obtain n where n: "pq_count q = Suc n" using assms(2) by (cases "pq_count q") (auto simp: pq_is_empty_def)
  have len: "length (pq_tasks q) = MAX_TASKS_PER_QUEUE" and h: "pq_head q < MAX_TASKS_PER_QUEUE"
    and nl: "n < length (pq_tasks q)" using assms n by (auto simp: pq_inv_def)
  have hm: "pq_head q mod length (pq_tasks q) = pq_head q" using h len by simp
  have "ring_contents ((pq_tasks q)[pq_head q := None]) (Suc (pq_head q)) n =
      ring_contents (pq_tasks q) (Suc (pq_head q)) n"
    using ring_contents_clear_head [OF nl, of "pq_head q" None] by (simp add: hm)
  moreover have "ring_contents ((pq_tasks q)[pq_head q := None]) (Suc (pq_head q) mod MAX_TASKS_PER_QUEUE) n =
      ring_contents ((pq_tasks q)[pq_head q := None]) (Suc (pq_head q)) n"
    using ring_contents_mod [of "(pq_tasks q)[pq_head q := None]" "Suc (pq_head q)" n] len by simp
  ultimately show ?thesis
    using assms(2) n by (simp add: pq_dequeue_def pq_ring_def ring_contents_Cons hm)
qed

lemma pq_dequeue_inv:
  assumes "pq_inv q"
  shows "pq_inv (snd (pq_dequeue q))"
proof (cases "pq_is_empty q")
  case True
  with assms show ?thesis by (simp add: pq_dequeue_def)
next
  case False
  have "None \<notin> set (pq_ring (snd (pq_dequeue q)))"
    using assms pq_dequeue_ring [OF assms False] by (auto simp: pq_inv_def)
  moreover obtain n where "pq_count q = Suc n" using False by (cases "pq_count q") (auto simp: pq_is_empty_def)
  ultimately show ?thesis
    using assms False max_tasks_pos by (simp add: pq_inv_def pq_dequeue_def mod_simps)
qed

lemma pq_dequeue_contents:
  assumes "pq_inv q"
  shows "(fst (pq_dequeue q), pq_contents (snd (pq_dequeue q))) = list_deq (pq_contents q)"
proof (cases "pq_is_empty q")
  case True
  then show ?thesis using pq_is_empty_iff [of q] by (simp add: pq_dequeue_def)
next
  case False
  have "None \<notin> set (pq_ring q)" using assms by (simp add: pq_inv_def)
  then obtain t where "fst (pq_dequeue q) = Some t"
    using pq_dequeue_ring [OF assms False] by (cases "fst (pq_dequeue q)") auto
  with pq_dequeue_ring [OF assms False] show ?thesis by (simp add: pq_contents_def)
qed

interpretation pq: bounded_queue MAX_TASKS_PER_QUEUE pq_inv pq_contents pq_enqueue pq_dequeue
  by unfold_locales
    (simp_all add: pq_enqueue_inv pq_enqueue_contents pq_dequeue_inv pq_dequeue_contents, simp add: pq_inv_def)

section \<open>Removal from a level\<close>

lemma pq_remove_loop_spec:
  assumes "pq_remove_loop tasks target n idx (found, map Some kept @ replicate k None, length kept) = (f, nt, c)"
    "map Some xs = ring_contents tasks idx n" "length tasks = MAX_TASKS_PER_QUEUE"
    "n \<le> k" "idx < MAX_TASKS_PER_QUEUE"
  shows "f = (found \<or> target \<in> set xs) \<and> c = length (kept @ filter (\<lambda>t. t \<noteq> target) xs) \<and>
    nt = map Some (kept @ filter (\<lambda>t. t \<noteq> target) xs) @
         replicate (k - length (filter (\<lambda>t. t \<noteq> target) xs)) None"
  using assms
proof (induction n arbitrary: idx found kept k xs)
  case 0
  then show ?case by simp
next
  case (Suc n)
  note ring = ring_contents_Cons [of tasks idx n]
  obtain x ys where xs: "xs = x # ys" and tx: "tasks ! idx = Some x"
    and ys: "map Some ys = ring_contents tasks (Suc idx) n"
    using Suc.prems(2,3,5) ring by (cases xs) auto
  have ys': "map Some ys = ring_contents tasks (Suc idx mod MAX_TASKS_PER_QUEUE) n"
    using ys ring_contents_mod [of tasks "Suc idx" n] Suc.prems(3) by simp
  have lt: "Suc idx mod MAX_TASKS_PER_QUEUE < MAX_TASKS_PER_QUEUE" by (simp add: max_tasks_pos)
  show ?case
  proof (cases "x = target")
    case True
    with Suc.prems(1) tx
    have "pq_remove_loop tasks target n (Suc idx mod MAX_TASKS_PER_QUEUE)
        (True, map Some kept @ replicate k None, length kept) = (f, nt, c)" by simp
    from Suc.IH [OF this ys' Suc.prems(3) _ lt] Suc.prems(4) True xs show ?thesis by simp
  next
    case False
    obtain k' where k: "k = Suc k'" using Suc.prems(4) by (cases k) auto
    have "(map Some kept @ replicate k None)[length kept := Some x] = map Some (kept @ [x]) @ replicate k' None"
      by (simp add: k list_update_append)
    with Suc.prems(1) tx False
    have "pq_remove_loop tasks target n (Suc idx mod MAX_TASKS_PER_QUEUE)
        (found, map Some (kept @ [x]) @ replicate k' None, length (kept @ [x])) = (f, nt, c)" by simp
    from Suc.IH [OF this ys' Suc.prems(3) _ lt] Suc.prems(4) False xs k show ?thesis by simp
  qed
qed

lemma ring_contents_prefix:
  assumes "tasks = map Some xs @ replicate k None"
  shows "ring_contents tasks 0 (length xs) = map Some xs"
  using assms by (auto simp: ring_contents_def nth_append intro!: nth_equalityI)

lemma pq_remove_spec:
  assumes inv: "pq_inv q"
  shows "fst (pq_remove t q) = (t \<in> set (pq_contents q)) \<and> pq_inv (snd (pq_remove t q)) \<and>
    pq_contents (snd (pq_remove t q)) = filter (\<lambda>u. u \<noteq> t) (pq_contents q)"
proof (cases "pq_is_empty q")
  case True
  with inv show ?thesis using pq_is_empty_iff [of q] by (simp add: pq_remove_def)
next
  case False
  let ?xs = "pq_contents q" and ?N = MAX_TASKS_PER_QUEUE
  let ?ys = "filter (\<lambda>u. u \<noteq> t) ?xs"
  obtain f nt c where loop: "pq_remove_loop (pq_tasks q) t (pq_count q) (pq_head q)
      (False, map Some [] @ replicate ?N None, length ([] :: nat list)) = (f, nt, c)"
    by (metis prod_cases3)
  have "f = (t \<in> set ?xs) \<and> c = length ?ys \<and> nt = map Some ?ys @ replicate (?N - length ?ys) None"
    using pq_remove_loop_spec [OF loop pq_ring_some [OF inv, unfolded pq_ring_def, symmetric]] inv
    by (simp add: pq_inv_def)
  then have f: "f = (t \<in> set ?xs)" and c: "c = length ?ys"
    and nt: "nt = map Some ?ys @ replicate (?N - length ?ys) None" by auto
  have le: "length ?ys \<le> ?N"
    using length_filter_le [of "\<lambda>u. u \<noteq> t" ?xs] inv by (simp add: pq_inv_def)
  show ?thesis
  proof (cases f)
    case True
    have lt: "length ?ys < ?N"
      using f True length_filter_less [of t ?xs "\<lambda>u. u \<noteq> t"] inv by (simp add: pq_inv_def)
    have r: "snd (pq_remove t q) = \<lparr>pq_tasks = nt, pq_head = 0, pq_tail = c, pq_count = c\<rparr>"
      "fst (pq_remove t q)"
      using loop True \<open>\<not> pq_is_empty q\<close> by (simp_all add: pq_remove_def)
    have ring: "pq_ring (snd (pq_remove t q)) = map Some ?ys"
      using ring_contents_prefix [OF nt] by (simp add: r pq_ring_def c)
    have "pq_contents (snd (pq_remove t q)) = ?ys" using ring by (simp add: pq_contents_def)
    moreover have "pq_inv (snd (pq_remove t q))"
      using ring lt nt le c max_tasks_pos by (auto simp: pq_inv_def r)
    ultimately show ?thesis using r(2) f True by simp
  next
    case notf: False
    then have "pq_remove t q = (False, q)" using loop False by (simp add: pq_remove_def)
    moreover have "?ys = ?xs" using f notf by (auto intro: filter_True)
    ultimately show ?thesis using inv f notf by simp
  qed
qed

section \<open>Arrays of levels\<close>

text \<open>The specification of an array of levels: the lists of its queues, in order.\<close>

fun first_deq :: "'a list list \<Rightarrow> 'a option \<times> 'a list list" where
  "first_deq [] = (None, [])"
| "first_deq ([] # ls) = (let (r, ls') = first_deq ls in (r, [] # ls'))"
| "first_deq ((x # xs) # ls) = (Some x, xs # ls)"

definition level_enq :: "nat \<Rightarrow> 'a \<Rightarrow> 'a list list \<Rightarrow> bool \<times> 'a list list" where
  "level_enq i x ls =
     (if length (ls ! i) < MAX_TASKS_PER_QUEUE then (True, ls[i := ls ! i @ [x]]) else (False, ls))"

definition level_rem :: "nat \<Rightarrow> 'a \<Rightarrow> 'a list list \<Rightarrow> bool \<times> 'a list list" where
  "level_rem i x ls = (x \<in> set (ls ! i), ls[i := filter (\<lambda>y. y \<noteq> x) (ls ! i)])"

definition levels_inv :: "nat \<Rightarrow> priority_queue list \<times> u32 \<Rightarrow> bool" where
  "levels_inv n qb \<longleftrightarrow> n \<le> 32 \<and> length (fst qb) = n \<and> (\<forall>q \<in> set (fst qb). pq_inv q) \<and>
     (\<forall>i < 32. bit (snd qb) i \<longleftrightarrow> i < n \<and> pq_contents (fst qb ! i) \<noteq> [])"

lemma trailing_zeros_spec:
  assumes "w \<noteq> 0"
  shows "trailing_zeros w < 32" "bit w (trailing_zeros w)" "j < trailing_zeros w \<Longrightarrow> \<not> bit w j"
proof -
  let ?P = "\<lambda>i. \<not> bit w i"
  have "\<exists>i. bit w i" using assms by (metis bit_eqI bit_0_eq bot_apply bot_bool_def)
  then obtain i where "bit w i" "i < 32" using bit_imp_le_length [of w] by auto
  then have "\<exists>x \<in> set [0..<32]. \<not> ?P x" by auto
  then have lt: "length (takeWhile ?P [0..<32]) < length [0..<32]"
    by (metis length_takeWhile_le le_neq_implies_less takeWhile_eq_all_conv takeWhile_eq_take take_all_iff nle_le)
  then show "trailing_zeros w < 32" by (simp add: trailing_zeros_def)
  show "bit w (trailing_zeros w)"
    using nth_length_takeWhile [OF lt] lt by (simp add: trailing_zeros_def)
  assume "j < trailing_zeros w"
  then have "j < length (takeWhile ?P [0..<32])" by (simp add: trailing_zeros_def)
  note j = this nth_mem [OF this]
  have "takeWhile ?P [0..<32] ! j = j" using takeWhile_nth [OF j(1)] j(1) lt by simp
  then show "\<not> bit w j" using j(2) set_takeWhileD [of j ?P "[0..<32]"] by simp
qed

lemma first_deq_at:
  assumes "i < length ls" "\<forall>j < i. ls ! j = []" "ls ! i = x # xs"
  shows "first_deq ls = (Some x, ls[i := xs])"
  using assms
proof (induction i arbitrary: ls)
  case 0
  then show ?case by (cases ls) auto
next
  case (Suc i)
  then obtain ls' where ls: "ls = [] # ls'" by (cases ls) force+
  with Suc.prems have "first_deq ls' = (Some x, ls'[i := xs])" by (intro Suc.IH) force+
  with ls show ?case by simp
qed

lemma first_deq_none: "\<forall>l \<in> set ls. l = [] \<Longrightarrow> first_deq ls = (None, ls)"
  by (induction ls rule: first_deq.induct) auto

lemma first_deq_append:
  "first_deq (ls @ ms) = (case first_deq ls of
     (Some x, ls') \<Rightarrow> (Some x, ls' @ ms)
   | (None, ls') \<Rightarrow> (case first_deq ms of (r, ms') \<Rightarrow> (r, ls' @ ms')))"
  by (induction ls rule: first_deq.induct) (auto split: prod.splits option.splits)

lemma levels_inv_upd:
  assumes inv: "levels_inv n (qs, b)" and i: "i < n" and q: "pq_inv q"
    and b': "\<And>j. j < 32 \<Longrightarrow> bit b' j \<longleftrightarrow> (if j = i then pq_contents q \<noteq> [] else bit b j)"
  shows "levels_inv n (qs[i := q], b')"
  using assms set_update_subset_insert [of qs i q] by (auto simp: levels_inv_def nth_list_update)

lemma bit_set_bit32: "j < 32 \<Longrightarrow> bit (b OR 2 ^ i :: u32) j \<longleftrightarrow> bit b j \<or> j = i"
  by (auto simp: bit_simps)

lemma bit_clear_bit32: "j < 32 \<Longrightarrow> bit (b AND NOT (2 ^ i) :: u32) j \<longleftrightarrow> bit b j \<and> j \<noteq> i"
  by (auto simp: bit_simps)

lemma levels_enqueue_spec:
  assumes inv: "levels_inv n (qs, b)" and i: "i < n"
    and r: "levels_enqueue i t (qs, b) = (ok, qs', b')"
  shows "levels_inv n (qs', b') \<and> level_enq i t (map pq_contents qs) = (ok, map pq_contents qs')"
proof -
  obtain q' where e: "pq_enqueue t (qs ! i) = (ok, q')"
    using r by (auto simp: levels_enqueue_def split: prod.splits bool.splits)
  have il: "i < length qs" and q: "pq_inv (qs ! i)" and i32: "i < 32" using inv i by (auto simp: levels_inv_def)
  have q': "pq_inv q'" and c: "(ok, pq_contents q') = list_enq MAX_TASKS_PER_QUEUE t (pq_contents (qs ! i))"
    using pq.enq_inv [OF q, of t] pq.enq_contents [OF q, of t] e by simp_all
  have qs': "qs' = qs[i := q']" "b' = (if ok then b OR push_bit i 1 else b)"
    using r e by (auto simp: levels_enqueue_def split: bool.splits)
  have "levels_inv n (qs', b')"
    unfolding qs' using c inv i i32
    by (intro levels_inv_upd [OF inv i q'])
      (auto simp: bit_set_bit32 list_enq_def levels_inv_def split: if_splits)
  moreover have "level_enq i t (map pq_contents qs) = (ok, map pq_contents qs')"
    using c il list_update_id [of "map pq_contents qs" i]
    by (auto simp: qs' level_enq_def list_enq_def map_update split: if_splits)
  ultimately show ?thesis by blast
qed

lemma levels_remove_spec:
  assumes inv: "levels_inv n (qs, b)" and i: "i < n"
    and r: "levels_remove i t (qs, b) = (ok, qs', b')"
  shows "levels_inv n (qs', b') \<and> level_rem i t (map pq_contents qs) = (ok, map pq_contents qs')"
proof -
  obtain q' where e: "pq_remove t (qs ! i) = (ok, q')"
    and qs': "qs' = qs[i := q']" "b' = (if ok \<and> pq_is_empty q' then b AND NOT (push_bit i 1) else b)"
    using r by (auto simp: levels_remove_def split: prod.splits)
  have il: "i < length qs" and q: "pq_inv (qs ! i)" and i32: "i < 32" using inv i by (auto simp: levels_inv_def)
  have s: "ok = (t \<in> set (pq_contents (qs ! i)))" "pq_inv q'"
    "pq_contents q' = filter (\<lambda>u. u \<noteq> t) (pq_contents (qs ! i))"
    using pq_remove_spec [OF q, of t] e by simp_all
  have same: "pq_contents q' = pq_contents (qs ! i)" if "\<not> ok" using that s by (auto intro: filter_True)
  have nonempty: "pq_contents (qs ! i) \<noteq> []" if ok using that s(1) by auto
  have "levels_inv n (qs', b')"
    unfolding qs' using same nonempty inv i i32
    by (cases ok; intro levels_inv_upd [OF inv i s(2)])
      (auto simp: bit_clear_bit32 pq_is_empty_iff levels_inv_def split: if_splits)
  moreover have "level_rem i t (map pq_contents qs) = (ok, map pq_contents qs')"
    using s il by (auto simp: qs' level_rem_def map_update)
  ultimately show ?thesis by blast
qed

lemma levels_dequeue_spec:
  assumes inv: "levels_inv n (qs, b)" and r: "levels_dequeue (qs, b) = (res, qs', b')"
  shows "levels_inv n (qs', b') \<and> first_deq (map pq_contents qs) = (res, map pq_contents qs')"
proof (cases "b = 0")
  case True
  then have "\<forall>i < n. pq_contents (qs ! i) = []" using inv by (auto simp: levels_inv_def)
  then have "\<forall>l \<in> set (map pq_contents qs). l = []" using inv by (auto simp: levels_inv_def in_set_conv_nth)
  then have "first_deq (map pq_contents qs) = (None, map pq_contents qs)" by (rule first_deq_none)
  then show ?thesis using r True inv by (auto simp: levels_dequeue_def)
next
  case False
  let ?i = "trailing_zeros b"
  note tz = trailing_zeros_spec [OF False]
  have i: "?i < n" and ne: "pq_contents (qs ! ?i) \<noteq> []" using inv tz by (auto simp: levels_inv_def)
  have il: "?i < length qs" and q: "pq_inv (qs ! ?i)" using inv i by (auto simp: levels_inv_def)
  obtain t ts where c: "pq_contents (qs ! ?i) = t # ts" using ne by (cases "pq_contents (qs ! ?i)") auto
  obtain q' where d: "pq_dequeue (qs ! ?i) = (Some t, q')" and q': "pq_inv q'" "pq_contents q' = ts"
    using pq.deq_inv [OF q] pq.deq_contents [OF q] c by (cases "pq_dequeue (qs ! ?i)") auto
  have out: "res = Some t" "qs' = qs[?i := q']"
    "b' = (if pq_is_empty q' then b AND NOT (push_bit ?i 1) else b)"
    using r d False by (auto simp: levels_dequeue_def Let_def)
  have low: "\<forall>j < ?i. map pq_contents qs ! j = []"
    using tz i inv by (auto simp: levels_inv_def)
  have "first_deq (map pq_contents qs) = (Some t, (map pq_contents qs)[?i := ts])"
    using il low c by (intro first_deq_at) auto
  moreover have "levels_inv n (qs', b')"
    unfolding out using tz by (intro levels_inv_upd [OF inv i q'(1)])
      (auto simp: bit_clear_bit32 pq_is_empty_iff q' split: if_splits)
  ultimately show ?thesis by (simp add: out q' map_update)
qed

section \<open>The ready queue refines its levels\<close>

definition rq_inv :: "ready_queue \<Rightarrow> bool" where
  "rq_inv rq \<longleftrightarrow> levels_inv NUM_RT_PRIORITIES (rq_rt rq, rq_rt_bitmap rq) \<and>
     levels_inv NUM_NORMAL_PRIORITIES (rq_normal rq, rq_normal_bitmap rq) \<and>
     pq_inv (rq_idle rq) \<and> (rq_idle_flag rq \<longleftrightarrow> pq_contents (rq_idle rq) \<noteq> [])"

definition rq_levels :: "ready_queue \<Rightarrow> task_ptr list list" where
  "rq_levels rq = map pq_contents (rq_rt rq) @ map pq_contents (rq_normal rq) @ [pq_contents (rq_idle rq)]"

text \<open>The level of a task: the smaller, the more urgent.\<close>

definition level_of :: "task \<Rightarrow> nat" where
  "level_of t =
     (case t_sched_class t of
        ScRealTime \<Rightarrow> rt_index t
      | ScNormal \<Rightarrow> NUM_RT_PRIORITIES + normal_index t
      | ScIdle \<Rightarrow> NUM_RT_PRIORITIES + NUM_NORMAL_PRIORITIES)"

datatype rq_op = RqEnqueue task_ptr | RqDequeue | RqRemove task_ptr

datatype rq_res = RqFlag bool | RqTask "task_ptr option"

fun rq_step :: "task_store \<Rightarrow> rq_op \<Rightarrow> ready_queue \<Rightarrow> rq_res \<times> ready_queue" where
  "rq_step store (RqEnqueue t) rq = apfst RqFlag (rq_enqueue store t rq)"
| "rq_step store RqDequeue rq = apfst RqTask (rq_dequeue rq)"
| "rq_step store (RqRemove t) rq = apfst RqFlag (rq_remove store t rq)"

fun spec_step :: "task_store \<Rightarrow> rq_op \<Rightarrow> task_ptr list list \<Rightarrow> rq_res \<times> task_ptr list list" where
  "spec_step store (RqEnqueue t) ls = apfst RqFlag (level_enq (level_of (store t)) t ls)"
| "spec_step store RqDequeue ls = apfst RqTask (first_deq ls)"
| "spec_step store (RqRemove t) ls = apfst RqFlag (level_rem (level_of (store t)) t ls)"

fun run_steps :: "('op \<Rightarrow> 's \<Rightarrow> 'r \<times> 's) \<Rightarrow> 'op list \<Rightarrow> 's \<Rightarrow> 'r list \<times> 's" where
  "run_steps step [] s = ([], s)"
| "run_steps step (op # ops) s =
     (let (r, s') = step op s; (rs, s'') = run_steps step ops s' in (r # rs, s''))"

lemma num_levels: "NUM_RT_PRIORITIES = 30" "NUM_NORMAL_PRIORITIES = 4"
  by (simp_all add: NUM_RT_PRIORITIES_def NUM_NORMAL_PRIORITIES_def)

lemma index_bounds: "rt_index t < NUM_RT_PRIORITIES" "normal_index t < NUM_NORMAL_PRIORITIES"
  by (simp_all add: rt_index_def normal_index_def num_levels)

lemma levels_new: "n \<le> 32 \<Longrightarrow> levels_inv n (replicate n pq_new, 0)"
  by (auto simp: levels_inv_def pq_new_inv)

lemma rq_new_inv: "rq_inv rq_new" "rq_levels rq_new = replicate 35 []"
proof -
  show "rq_inv rq_new" using levels_new by (simp add: rq_inv_def rq_new_def num_levels pq_new_inv)
  have "replicate 35 ([] :: task_ptr list) = replicate 30 [] @ replicate 4 [] @ [[]]"
    using replicate_add [of 30 5 "[] :: task_ptr list"] replicate_add [of 4 1 "[] :: task_ptr list"] by simp
  then show "rq_levels rq_new = replicate 35 []" by (simp add: rq_levels_def rq_new_def num_levels pq_new_inv)
qed

lemma level_enq_append:
  "i < length ls \<Longrightarrow> level_enq i x (ls @ ms) = (case level_enq i x ls of (ok, ls') \<Rightarrow> (ok, ls' @ ms))"
  "level_enq (length ls + i) x (ls @ ms) = (case level_enq i x ms of (ok, ms') \<Rightarrow> (ok, ls @ ms'))"
  by (simp_all add: level_enq_def nth_append list_update_append)

lemma level_rem_append:
  "i < length ls \<Longrightarrow> level_rem i x (ls @ ms) = (case level_rem i x ls of (ok, ls') \<Rightarrow> (ok, ls' @ ms))"
  "level_rem (length ls + i) x (ls @ ms) = (case level_rem i x ms of (ok, ms') \<Rightarrow> (ok, ls @ ms'))"
  by (simp_all add: level_rem_def nth_append list_update_append)

lemma rq_lengths: "rq_inv rq \<Longrightarrow> length (rq_rt rq) = NUM_RT_PRIORITIES"
  "rq_inv rq \<Longrightarrow> length (rq_normal rq) = NUM_NORMAL_PRIORITIES"
  by (auto simp: rq_inv_def levels_inv_def)

lemma level_last:
  assumes "length ls = n" "length ms = m"
  shows "level_enq (n + m) x (ls @ ms @ [l]) = (case list_enq MAX_TASKS_PER_QUEUE x l of (ok, l') \<Rightarrow> (ok, ls @ ms @ [l']))"
    "level_rem (n + m) x (ls @ ms @ [l]) = (x \<in> set l, ls @ ms @ [filter (\<lambda>y. y \<noteq> x) l])"
  using assms by (auto simp: level_enq_def level_rem_def list_enq_def nth_append list_update_append)

lemma rq_enqueue_spec:
  assumes inv: "rq_inv rq" and r: "rq_enqueue store t rq = (ok, rq')"
  shows "rq_inv rq' \<and> level_enq (level_of (store t)) t (rq_levels rq) = (ok, rq_levels rq')"
proof (cases "t_sched_class (store t)")
  case ScRealTime
  obtain qs b where e: "levels_enqueue (rt_index (store t)) t (rq_rt rq, rq_rt_bitmap rq) = (ok, qs, b)"
    and rq': "rq' = rq\<lparr>rq_rt := qs, rq_rt_bitmap := b\<rparr>"
    using r ScRealTime by (auto simp: rq_enqueue_def split: prod.splits)
  from levels_enqueue_spec [OF _ index_bounds(1) e] inv
  show ?thesis using index_bounds(1) [of "store t"] rq_lengths [OF inv] ScRealTime
    by (auto simp: rq' rq_inv_def rq_levels_def level_of_def level_enq_append)
next
  case ScNormal
  obtain qs b where e: "levels_enqueue (normal_index (store t)) t (rq_normal rq, rq_normal_bitmap rq) = (ok, qs, b)"
    and rq': "rq' = rq\<lparr>rq_normal := qs, rq_normal_bitmap := b\<rparr>"
    using r ScNormal by (auto simp: rq_enqueue_def split: prod.splits)
  from levels_enqueue_spec [OF _ index_bounds(2) e] inv
  show ?thesis using index_bounds(2) [of "store t"] rq_lengths [OF inv] ScNormal
      level_enq_append(2) [of "map pq_contents (rq_rt rq)" "normal_index (store t)" t]
    by (auto simp: rq' rq_inv_def rq_levels_def level_of_def level_enq_append(1))
next
  case ScIdle
  have q: "pq_inv (rq_idle rq)" using inv by (simp add: rq_inv_def)
  obtain q' where e: "pq_enqueue t (rq_idle rq) = (ok, q')"
    and rq': "rq' = (if ok then rq\<lparr>rq_idle := q', rq_idle_flag := True\<rparr> else rq\<lparr>rq_idle := q'\<rparr>)"
    using r ScIdle by (auto simp: rq_enqueue_def split: prod.splits bool.splits)
  have "pq_inv q'" "list_enq MAX_TASKS_PER_QUEUE t (pq_contents (rq_idle rq)) = (ok, pq_contents q')"
    using pq.enq_inv [OF q, of t] pq.enq_contents [OF q, of t] e by simp_all
  with inv rq_lengths [OF inv] ScIdle show ?thesis
    by (auto simp: rq' rq_inv_def rq_levels_def level_of_def level_last list_enq_def split: if_splits)
qed

lemma rq_remove_spec:
  assumes inv: "rq_inv rq" and r: "rq_remove store t rq = (ok, rq')"
  shows "rq_inv rq' \<and> level_rem (level_of (store t)) t (rq_levels rq) = (ok, rq_levels rq')"
proof (cases "t_sched_class (store t)")
  case ScRealTime
  obtain qs b where e: "levels_remove (rt_index (store t)) t (rq_rt rq, rq_rt_bitmap rq) = (ok, qs, b)"
    and rq': "rq' = rq\<lparr>rq_rt := qs, rq_rt_bitmap := b\<rparr>"
    using r ScRealTime by (auto simp: rq_remove_def split: prod.splits)
  from levels_remove_spec [OF _ index_bounds(1) e] inv
  show ?thesis using index_bounds(1) [of "store t"] rq_lengths [OF inv] ScRealTime
    by (auto simp: rq' rq_inv_def rq_levels_def level_of_def level_rem_append)
next
  case ScNormal
  obtain qs b where e: "levels_remove (normal_index (store t)) t (rq_normal rq, rq_normal_bitmap rq) = (ok, qs, b)"
    and rq': "rq' = rq\<lparr>rq_normal := qs, rq_normal_bitmap := b\<rparr>"
    using r ScNormal by (auto simp: rq_remove_def split: prod.splits)
  from levels_remove_spec [OF _ index_bounds(2) e] inv
  show ?thesis using index_bounds(2) [of "store t"] rq_lengths [OF inv] ScNormal
      level_rem_append(2) [of "map pq_contents (rq_rt rq)" "normal_index (store t)" t]
    by (auto simp: rq' rq_inv_def rq_levels_def level_of_def level_rem_append(1))
next
  case ScIdle
  have q: "pq_inv (rq_idle rq)" using inv by (simp add: rq_inv_def)
  obtain q' where e: "pq_remove t (rq_idle rq) = (ok, q')"
    and rq': "rq' = rq\<lparr>rq_idle := q',
      rq_idle_flag := (if ok \<and> pq_is_empty q' then False else rq_idle_flag rq)\<rparr>"
    using r ScIdle by (auto simp: rq_remove_def split: prod.splits)
  have s: "ok = (t \<in> set (pq_contents (rq_idle rq)))" "pq_inv q'"
    "pq_contents q' = filter (\<lambda>u. u \<noteq> t) (pq_contents (rq_idle rq))"
    using pq_remove_spec [OF q, of t] e by simp_all
  have "\<not> ok \<Longrightarrow> pq_contents q' = pq_contents (rq_idle rq)" using s by (auto intro: filter_True)
  with s inv rq_lengths [OF inv] ScIdle show ?thesis
    by (cases ok) (auto simp: rq' rq_inv_def rq_levels_def level_of_def level_last pq_is_empty_iff)
qed

lemma rq_dequeue_idle_spec:
  assumes inv: "rq_inv rq" and r: "rq_dequeue_idle rq = (res, rq')"
  shows "rq_inv rq' \<and> list_deq (pq_contents (rq_idle rq)) = (res, pq_contents (rq_idle rq')) \<and>
    rq_rt rq' = rq_rt rq \<and> rq_normal rq' = rq_normal rq"
proof (cases "rq_idle_flag rq")
  case True
  have q: "pq_inv (rq_idle rq)" using inv by (simp add: rq_inv_def)
  obtain t ts where c: "pq_contents (rq_idle rq) = t # ts"
    using inv True by (cases "pq_contents (rq_idle rq)") (auto simp: rq_inv_def)
  obtain q' where d: "pq_dequeue (rq_idle rq) = (Some t, q')" "pq_inv q'" "pq_contents q' = ts"
    using pq.deq_inv [OF q] pq.deq_contents [OF q] c by (cases "pq_dequeue (rq_idle rq)") auto
  with r True inv c show ?thesis by (auto simp: rq_dequeue_idle_def rq_inv_def pq_is_empty_iff)
next
  case False
  with r inv show ?thesis by (auto simp: rq_dequeue_idle_def rq_inv_def)
qed

lemma first_deq_one: "first_deq [l] = (case list_deq l of (r, l') \<Rightarrow> (r, [l']))"
  by (cases l) auto

lemma first_deq_noneD: "first_deq ls = (None, ls') \<Longrightarrow> ls' = ls"
  by (induction ls arbitrary: ls' rule: first_deq.induct) (auto split: prod.splits)

lemma rq_dequeue_spec:
  assumes inv: "rq_inv rq" and r: "rq_dequeue rq = (res, rq')"
  shows "rq_inv rq' \<and> first_deq (rq_levels rq) = (res, rq_levels rq')"
proof -
  obtain r1 qs1 b1 where d1: "levels_dequeue (rq_rt rq, rq_rt_bitmap rq) = (r1, qs1, b1)" by (metis prod_cases3)
  define rq1 where "rq1 = rq\<lparr>rq_rt := qs1, rq_rt_bitmap := b1\<rparr>"
  have s1: "levels_inv NUM_RT_PRIORITIES (qs1, b1)"
    "first_deq (map pq_contents (rq_rt rq)) = (r1, map pq_contents qs1)"
    using levels_dequeue_spec [OF _ d1] inv by (auto simp: rq_inv_def)
  have inv1: "rq_inv rq1" using inv s1(1) by (simp add: rq_inv_def rq1_def)
  show ?thesis
  proof (cases r1)
    case (Some t)
    with r d1 have "res = Some t" "rq' = rq1" by (auto simp: rq_dequeue_def rq1_def)
    with inv1 s1 Some show ?thesis by (simp add: rq_levels_def first_deq_append rq1_def)
  next
    case None
    obtain r2 qs2 b2 where d2: "levels_dequeue (rq_normal rq1, rq_normal_bitmap rq1) = (r2, qs2, b2)"
      by (metis prod_cases3)
    define rq2 where "rq2 = rq1\<lparr>rq_normal := qs2, rq_normal_bitmap := b2\<rparr>"
    have s2: "levels_inv NUM_NORMAL_PRIORITIES (qs2, b2)"
      "first_deq (map pq_contents (rq_normal rq)) = (r2, map pq_contents qs2)"
      using levels_dequeue_spec [OF _ d2] inv1 by (auto simp: rq_inv_def rq1_def)
    have inv2: "rq_inv rq2" using inv1 s2(1) by (simp add: rq_inv_def rq2_def)
    show ?thesis
    proof (cases r2)
      case (Some t)
      with r d1 d2 None have "res = Some t" "rq' = rq2" by (auto simp: rq_dequeue_def rq1_def rq2_def Let_def)
      with inv2 s1 s2 Some None show ?thesis
        by (simp add: rq_levels_def first_deq_append rq1_def rq2_def)
    next
      case none2: None
      with r d1 d2 None have d3: "rq_dequeue_idle rq2 = (res, rq')"
        by (auto simp: rq_dequeue_def rq1_def rq2_def Let_def)
      from rq_dequeue_idle_spec [OF inv2 d3] s1 s2 None none2 show ?thesis
        by (auto simp: rq_levels_def first_deq_append rq1_def rq2_def first_deq_one)
    qed
  qed
qed

lemma rq_step_refines:
  assumes "rq_inv rq" "rq_step store op rq = (r, rq')"
  shows "rq_inv rq' \<and> spec_step store op (rq_levels rq) = (r, rq_levels rq')"
proof (cases op)
  case (RqEnqueue t)
  then show ?thesis
    using assms rq_enqueue_spec [OF assms(1)] by (cases "rq_enqueue store t rq") auto
next
  case RqDequeue
  then show ?thesis using assms rq_dequeue_spec [OF assms(1)] by (cases "rq_dequeue rq") auto
next
  case (RqRemove t)
  then show ?thesis
    using assms rq_remove_spec [OF assms(1)] by (cases "rq_remove store t rq") auto
qed

lemma rq_run_refines:
  assumes "rq_inv rq" "run_steps (rq_step store) ops rq = (rs, rq')"
  shows "rq_inv rq' \<and> run_steps (spec_step store) ops (rq_levels rq) = (rs, rq_levels rq')"
  using assms
proof (induction ops arbitrary: rq rs)
  case (Cons op ops)
  obtain r rq1 where st: "rq_step store op rq = (r, rq1)" by force
  then obtain rs1 where run: "run_steps (rq_step store) ops rq1 = (rs1, rq')" and rs: "rs = r # rs1"
    using Cons.prems(2) by (auto split: prod.splits)
  from rq_step_refines [OF Cons.prems(1) st] Cons.IH [OF _ run] show ?case by (simp add: rs)
qed simp

section \<open>Tasks stand at their level\<close>

definition levels_sorted :: "task_store \<Rightarrow> task_ptr list list \<Rightarrow> bool" where
  "levels_sorted store ls \<longleftrightarrow> length ls = 35 \<and> (\<forall>i < 35. \<forall>u \<in> set (ls ! i). level_of (store u) = i)"

lemma levels_sortedD:
  assumes "levels_sorted store ls" "i < length ls" "u \<in> set (ls ! i)"
  shows "level_of (store u) = i"
  using assms by (simp add: levels_sorted_def)

lemma level_of_bound: "level_of t < 35"
  using index_bounds [of t] by (auto simp: level_of_def num_levels split: sched_class.splits)

lemma levels_sorted_len: "levels_sorted store ls \<Longrightarrow> length ls = 35"
  by (simp add: levels_sorted_def)

lemma levels_sorted_upd:
  assumes "levels_sorted store ls" "i < 35" "\<forall>u \<in> set l. level_of (store u) = i"
  shows "levels_sorted store (ls[i := l])"
  using assms by (auto simp: levels_sorted_def nth_list_update)

lemma first_deq_first:
  assumes "first_deq ls = (Some x, ls')"
  shows "\<exists>i xs. i < length ls \<and> (\<forall>j < i. ls ! j = []) \<and> ls ! i = x # xs \<and> ls' = ls[i := xs]"
  using assms
proof (induction ls arbitrary: ls' rule: first_deq.induct)
  case (2 ls)
  obtain ls1 where l: "first_deq ls = (Some x, ls1)" "ls' = [] # ls1"
    using 2(2) by (auto split: prod.splits)
  from 2(1) [OF this(1)] obtain i xs where
    "i < length ls" "\<forall>j < i. ls ! j = []" "ls ! i = x # xs" "ls1 = ls[i := xs]" by blast
  then show ?case using l(2) by (intro exI [of _ "Suc i"]) (auto simp: nth_Cons split: nat.splits)
qed auto

lemma spec_step_sorted:
  assumes sorted: "levels_sorted store ls" and st: "spec_step store op ls = (r, ls')"
  shows "levels_sorted store ls'"
proof (cases op)
  case (RqEnqueue t)
  let ?i = "level_of (store t)"
  have "levels_sorted store (ls[?i := ls ! ?i @ [t]])"
    using levels_sortedD [OF sorted, of ?i] sorted
    by (intro levels_sorted_upd [OF sorted level_of_bound]) (auto simp: levels_sorted_len level_of_bound)
  with sorted st RqEnqueue show ?thesis by (auto simp: level_enq_def split: if_splits)
next
  case RqDequeue
  then obtain res where d: "first_deq ls = (res, ls')" using st by (cases "first_deq ls") auto
  show ?thesis
  proof (cases res)
    case None
    show ?thesis using sorted unfolding first_deq_noneD [OF d [unfolded None]] .
  next
    case (Some x)
    obtain i xs where i: "i < length ls" "ls ! i = x # xs" "ls' = ls[i := xs]"
      using first_deq_first [OF d [unfolded Some]] by blast
    have "level_of (store u) = i" if "u \<in> set xs" for u
      using levels_sortedD [OF sorted i(1)] that unfolding i(2) by simp
    then show ?thesis
      unfolding i(3) using sorted i(1) by (intro levels_sorted_upd) (simp_all add: levels_sorted_def)
  qed
next
  case (RqRemove t)
  have "levels_sorted store (ls[level_of (store t) := filter (\<lambda>y. y \<noteq> t) (ls ! level_of (store t))])"
    using levels_sortedD [OF sorted, of "level_of (store t)"] sorted
    by (intro levels_sorted_upd [OF sorted level_of_bound]) (auto simp: levels_sorted_len level_of_bound)
  with st RqRemove show ?thesis by (auto simp: level_rem_def)
qed

lemma spec_run_sorted:
  assumes "levels_sorted store ls" "run_steps (spec_step store) ops ls = (rs, ls')"
  shows "levels_sorted store ls'"
  using assms
proof (induction ops arbitrary: ls rs)
  case (Cons op ops)
  obtain r ls1 where st: "spec_step store op ls = (r, ls1)" by force
  then obtain rs1 where "run_steps (spec_step store) ops ls1 = (rs1, ls')"
    using Cons.prems(2) by (auto split: prod.splits)
  with spec_step_sorted [OF Cons.prems(1) st] Cons.IH show ?case by blast
qed simp

lemma levels_sorted_empty: "levels_sorted store (replicate 35 [])"
  by (simp add: levels_sorted_def)

lemma rq_run_new:
  assumes "run_steps (rq_step store) ops rq_new = (rs, rq)"
  shows "rq_inv rq" "levels_sorted store (rq_levels rq)"
    "run_steps (spec_step store) ops (replicate 35 []) = (rs, rq_levels rq)"
proof -
  have "rq_inv rq \<and> run_steps (spec_step store) ops (replicate 35 []) = (rs, rq_levels rq)"
    using rq_run_refines [OF rq_new_inv(1) assms] by (simp add: rq_new_inv)
  then show "rq_inv rq" and run: "run_steps (spec_step store) ops (replicate 35 []) = (rs, rq_levels rq)"
    by simp_all
  show "levels_sorted store (rq_levels rq)" using spec_run_sorted [OF levels_sorted_empty run] .
qed

lemma first_deq_urgent:
  assumes sorted: "levels_sorted store ls" and d: "first_deq ls = (Some t, ls')" and u: "u \<in> set (concat ls)"
  shows "level_of (store t) \<le> level_of (store u)"
proof -
  obtain i xs where i: "i < length ls" "\<forall>j < i. ls ! j = []" "ls ! i = t # xs"
    using first_deq_first [OF d] by blast
  obtain l where "l \<in> set ls" "u \<in> set l" using u by auto
  then obtain j where j: "j < length ls" "u \<in> set (ls ! j)" by (metis in_set_conv_nth)
  have "i \<le> j" using i(2) j(2) by (metis empty_iff empty_set not_le)
  moreover have "level_of (store t) = i" using levels_sortedD [OF sorted i(1)] unfolding i(3) by simp
  moreover have "level_of (store u) = j" using levels_sortedD [OF sorted j] .
  ultimately show ?thesis by simp
qed

section \<open>Properties\<close>

text \<open>
  C5. The ready queue, with its circular arrays and its bitmaps of non-empty levels, behaves as
  35 lists: for every sequence of enqueue, dequeue and remove operations on a new queue the
  results are those of the specification, in which dequeue takes the head of the first
  non-empty list.
\<close>

theorem ready_queue_refines_levels:
  "fst (run_steps (rq_step store) ops rq_new) = fst (run_steps (spec_step store) ops (replicate 35 []))"
proof -
  obtain rs rq where run: "run_steps (rq_step store) ops rq_new = (rs, rq)" by force
  show ?thesis using rq_run_new(3) [OF run] run by simp
qed


definition demo_task :: task where
  "demo_task = \<lparr>t_pid = 1, t_tid = 1, t_state = PsReady, t_priority = UserNormal, t_sched_class = ScNormal,
     t_affinity = - 1, t_current_cpu = None, t_vruntime = 0, t_blocked_on = None, t_thread_ref = None,
     t_time_slice = 10, t_priority_boost = None, t_runtime = 0, t_run_count = 0, t_voluntary_switches = 0,
     t_involuntary_switches = 0, t_last_run = 0, t_last_cpu = None, t_migrations = 0\<rparr>"

definition demo_store :: task_store where
  "demo_store p = (if p = 2 then demo_task\<lparr>t_priority := RealTimeHigh, t_sched_class := ScRealTime\<rparr>
     else if p = 3 then demo_task\<lparr>t_vruntime := 10\<rparr> else demo_task)"

abbreviation demo_ops :: "rq_op list" where
  "demo_ops \<equiv> [RqEnqueue 1, RqEnqueue 2]"

lemma demo_levels:
  "fst (first_deq (snd (run_steps (spec_step demo_store) demo_ops (replicate 35 [])))) = Some 2"
  "1 \<in> set (concat (snd (run_steps (spec_step demo_store) demo_ops (replicate 35 []))))"
  by code_simp+


text \<open>
  The fair queue files a task under the larger of its virtual runtime and the minimum of the
  queue, but \<open>remove\<close> looks it up under its virtual runtime alone: a task behind the minimum
  cannot be removed after it has been queued, and removal leaves it in the queue.
\<close>

theorem cfs_remove_misses_clamped_task:
  assumes "t_vruntime (store t) < cfs_min_vruntime c"
    and "\<forall>ts. bt_get (cfs_tasks c) (t_vruntime (store t)) = Some ts \<longrightarrow> t \<notin> set ts"
  shows "cfs_remove store t (cfs_enqueue store t c) = (False, cfs_enqueue store t c)"
proof -
  let ?v = "t_vruntime (store t)"
  have "max ?v (cfs_min_vruntime c) = cfs_min_vruntime c" using assms(1) by (intro max.absorb2 less_imp_le)
  then have "max ?v (cfs_min_vruntime c) \<noteq> ?v" using assms(1) by auto
  then have "bt_get (cfs_tasks (cfs_enqueue store t c)) ?v = bt_get (cfs_tasks c) ?v"
    by (simp add: cfs_enqueue_def Let_def bt_get_insert)
  with assms(2) show ?thesis
    by (cases "bt_get (cfs_tasks c) ?v") (simp_all add: cfs_remove_def Let_def)
qed

theorem cfs_remove_misses_clamped_task_witness:
  "let c = snd (cfs_dequeue demo_store (cfs_enqueue demo_store 3 cfs_new)) in
   cfs_remove demo_store 1 (cfs_enqueue demo_store 1 c) = (False, cfs_enqueue demo_store 1 c)"
proof -
  let ?c = "snd (cfs_dequeue demo_store (cfs_enqueue demo_store 3 cfs_new))"
  have "t_vruntime (demo_store 1) < cfs_min_vruntime ?c" by code_simp
  moreover have "bt_get (cfs_tasks ?c) (t_vruntime (demo_store 1)) = None" by code_simp
  ultimately show ?thesis using cfs_remove_misses_clamped_task [of demo_store 1 ?c] by simp
qed

end
