(* ===== verification/Sched_Wait.thy ===== *)
theory Sched_Wait
  imports Sched_Queue
begin

text \<open>
  Blocking and waking of tasks on IPC endpoints (\<open>src/kernel/src/sched/ipc_blocking.rs\<close>), with the
  choice of a processor (\<open>smp.rs\<close>) and the hand-over to its ready queue (\<open>schedule_on_cpu\<close> of
  \<open>scheduler.rs\<close>). Threads and tasks are named by address; a thread points to its task and a
  task to its thread.
\<close>

section \<open>State\<close>

datatype thread_state =
    TsCreating | TsReady | TsRunning | TsBlocked | TsSleeping | TsZombie | TsDead

record thread =
  th_state :: thread_state
  th_task :: "task_ptr option"

record process =
  pr_state :: process_state
  pr_threads :: "(u64, nat) btree_map"

record cpu_info =
  cpu_online :: bool
  cpu_idle :: bool
  cpu_load :: u8
  cpu_nr_running :: u32
  cpu_ready_queue :: ready_queue

record sched_state =
  ss_tasks :: task_store
  ss_threads :: "nat \<Rightarrow> thread"
  ss_processes :: "u64 \<Rightarrow> process option"
  ss_wait_queues :: "(u64, task_ptr list) btree_map"
  ss_current :: "task_ptr option"
  ss_global_current :: "task_ptr option"
  ss_cpus :: "u8 \<Rightarrow> cpu_info option"
  ss_ready_queue :: ready_queue
  ss_ipis :: "u8 list"
  ss_ipc_blocks :: u64
  ss_ipc_wakeups :: u64

text \<open>\<open>ss_current\<close> is the task of the running processor's scheduler, \<open>ss_global_current\<close> that of the
  global \<open>SCHEDULER\<close>; \<open>ss_ready_queue\<close> is the global \<open>READY_QUEUE\<close>.\<close>

definition set_task :: "task_ptr \<Rightarrow> task \<Rightarrow> sched_state \<Rightarrow> sched_state" where
  "set_task p t s = s\<lparr>ss_tasks := (ss_tasks s)(p := t)\<rparr>"

definition set_thread_state :: "nat option \<Rightarrow> thread_state \<Rightarrow> sched_state \<Rightarrow> sched_state" where
  "set_thread_state r st s =
     (case r of
        None \<Rightarrow> s
      | Some p \<Rightarrow> s\<lparr>ss_threads := (ss_threads s)(p := (ss_threads s p)\<lparr>th_state := st\<rparr>)\<rparr>)"

section \<open>Processors\<close>

definition MAX_CPUS :: nat where "MAX_CPUS = 16"
definition MAX_LOAD_FACTOR :: u32 where "MAX_LOAD_FACTOR = 10"

definition cpu_ids :: "u8 list" where
  "cpu_ids = map word_of_nat [0..<MAX_CPUS]"

definition is_online :: "sched_state \<Rightarrow> u8 \<Rightarrow> bool" where
  "is_online s c = (case ss_cpus s c of None \<Rightarrow> False | Some i \<Rightarrow> cpu_online i)"

definition update_load :: "cpu_info \<Rightarrow> cpu_info" where
  "update_load i = i\<lparr>cpu_load := ucast (min (cpu_nr_running i * 100 div MAX_LOAD_FACTOR) 100)\<rparr>"

definition find_least_loaded_cpu :: "sched_state \<Rightarrow> u8" where
  "find_least_loaded_cpu s =
     snd (fold (\<lambda>c (min_load, best).
            (case ss_cpus s c of
               Some i \<Rightarrow> if cpu_online i \<and> cpu_load i < min_load then (cpu_load i, c) else (min_load, best)
             | None \<Rightarrow> (min_load, best))) cpu_ids (100, 0))"

definition find_least_loaded_cpu_with_affinity :: "u64 \<Rightarrow> sched_state \<Rightarrow> u8" where
  "find_least_loaded_cpu_with_affinity affinity s =
     (case fold (\<lambda>c (min_load, best, found).
            (if bit affinity (unat c) then
               (case ss_cpus s c of
                  Some i \<Rightarrow> if cpu_online i \<and> (cpu_load i < min_load \<or> \<not> found)
                            then (cpu_load i, c, True) else (min_load, best, found)
                | None \<Rightarrow> (min_load, best, found))
             else (min_load, best, found))) cpu_ids (100, 0, False) of
        (_, best, found) \<Rightarrow> if found then best else find_least_loaded_cpu s)"

text \<open>The shift \<open>1u64 << cpu\<close> takes its count modulo 64.\<close>

definition can_run_on :: "task \<Rightarrow> u8 \<Rightarrow> bool" where
  "can_run_on t c = bit (t_affinity t) (unat c mod 64)"

text \<open>The result of \<open>enqueue\<close> is ignored.\<close>

definition schedule_on_cpu :: "u8 \<Rightarrow> task_ptr \<Rightarrow> sched_state \<Rightarrow> sched_state" where
  "schedule_on_cpu c t s =
     (if \<not> can_run_on (ss_tasks s t) c then s
      else
        (case ss_cpus s c of
           None \<Rightarrow> s
         | Some i \<Rightarrow>
             let i1 = i\<lparr>cpu_ready_queue := snd (rq_enqueue (ss_tasks s) t (cpu_ready_queue i))\<rparr>;
                 i2 = update_load (i1\<lparr>cpu_nr_running := cpu_nr_running i1 + 1\<rparr>)
             in s\<lparr>ss_cpus := (ss_cpus s)(c \<mapsto> i2),
                  ss_ipis := (if cpu_idle i2 then ss_ipis s @ [c] else ss_ipis s)\<rparr>))"

section \<open>Wait queues\<close>

definition add_to_wait_queue :: "task_ptr \<Rightarrow> u64 \<Rightarrow> sched_state \<Rightarrow> sched_state" where
  "add_to_wait_queue t endpoint s =
     s\<lparr>ss_wait_queues := bt_insert endpoint
         ((case bt_get (ss_wait_queues s) endpoint of None \<Rightarrow> [] | Some ts \<Rightarrow> ts) @ [t]) (ss_wait_queues s)\<rparr>"

text \<open>The first task of a process in a list, and the list without it.\<close>

fun take_first :: "(task_ptr \<Rightarrow> bool) \<Rightarrow> task_ptr list \<Rightarrow> (task_ptr \<times> task_ptr list) option" where
  "take_first P [] = None"
| "take_first P (t # ts) =
     (if P t then Some (t, ts)
      else (case take_first P ts of None \<Rightarrow> None | Some (u, us) \<Rightarrow> Some (u, t # us)))"

fun take_waiter ::
  "(task_ptr \<Rightarrow> bool) \<Rightarrow> (u64, task_ptr list) btree_map \<Rightarrow>
     (task_ptr \<times> (u64, task_ptr list) btree_map) option" where
  "take_waiter P [] = None"
| "take_waiter P ((e, ts) # qs) =
     (case take_first P ts of
        Some (t, ts') \<Rightarrow> Some (t, (e, ts') # qs)
      | None \<Rightarrow> (case take_waiter P qs of None \<Rightarrow> None | Some (t, qs') \<Rightarrow> Some (t, (e, ts) # qs')))"

definition remove_from_wait_queue :: "u64 \<Rightarrow> sched_state \<Rightarrow> task_ptr option \<times> sched_state" where
  "remove_from_wait_queue pid s =
     (case take_waiter (\<lambda>t. t_pid (ss_tasks s t) = pid) (ss_wait_queues s) of
        None \<Rightarrow> (None, s)
      | Some (t, qs) \<Rightarrow> (Some t, s\<lparr>ss_wait_queues := qs\<rparr>))"

definition get_endpoint_waiters :: "u64 \<Rightarrow> sched_state \<Rightarrow> task_ptr list \<times> sched_state" where
  "get_endpoint_waiters endpoint s =
     ((case bt_get (ss_wait_queues s) endpoint of None \<Rightarrow> [] | Some ts \<Rightarrow> ts),
      s\<lparr>ss_wait_queues := bt_remove endpoint (ss_wait_queues s)\<rparr>)"

section \<open>Blocking and waking\<close>

text \<open>\<open>block_on_ipc\<close> up to its last call, \<open>schedule\<close>, which switches to another task.\<close>

definition block_on_ipc :: "u64 \<Rightarrow> sched_state \<Rightarrow> sched_state" where
  "block_on_ipc endpoint s =
     (case ss_current s of
        None \<Rightarrow> s
      | Some p \<Rightarrow>
          let t = (ss_tasks s p)\<lparr>t_state := PsBlocked, t_blocked_on := Some endpoint\<rparr>;
              s1 = set_thread_state (t_thread_ref t) TsBlocked (set_task p t s);
              s2 = add_to_wait_queue p endpoint s1
          in s2\<lparr>ss_ipc_blocks := ss_ipc_blocks s2 + 1\<rparr>)"

definition wake_target_cpu :: "task \<Rightarrow> sched_state \<Rightarrow> u8" where
  "wake_target_cpu t s =
     (case t_current_cpu t of
        Some last_cpu \<Rightarrow> if is_online s last_cpu then last_cpu else find_least_loaded_cpu s
      | None \<Rightarrow>
          if t_affinity t \<noteq> 0 then find_least_loaded_cpu_with_affinity (t_affinity t) s
          else find_least_loaded_cpu s)"

definition wake_task :: "task_ptr \<Rightarrow> sched_state \<Rightarrow> sched_state" where
  "wake_task p s =
     (let previous = t_state (ss_tasks s p);
          t = (ss_tasks s p)\<lparr>t_state := PsReady, t_blocked_on := None\<rparr>;
          s1 = set_thread_state (t_thread_ref t) TsReady (set_task p t s);
          s2 = (if previous = PsBlocked then s1\<lparr>ss_ipc_wakeups := ss_ipc_wakeups s1 + 1\<rparr> else s1)
      in schedule_on_cpu (wake_target_cpu t s2) p s2)"

text \<open>The search over the processors: each online one makes the code look at the global current task.\<close>

fun wake_current :: "u64 \<Rightarrow> u8 list \<Rightarrow> sched_state \<Rightarrow> sched_state option" where
  "wake_current pid [] s = None"
| "wake_current pid (c # cs) s =
     (if is_online s c then
        (case ss_global_current s of
           Some p \<Rightarrow>
             if t_pid (ss_tasks s p) = pid
             then Some (set_thread_state (t_thread_ref (ss_tasks s p)) TsReady
                    (set_task p ((ss_tasks s p)\<lparr>t_state := PsReady\<rparr>) s))
             else wake_current pid cs s
         | None \<Rightarrow> wake_current pid cs s)
      else wake_current pid cs s)"

text \<open>The main thread is the one with the lowest identifier.\<close>

definition get_main_thread_id :: "process \<Rightarrow> u64 option" where
  "get_main_thread_id p = (case pr_threads p of [] \<Rightarrow> None | (tid, _) # _ \<Rightarrow> Some tid)"

definition wake_main_thread :: "u64 \<Rightarrow> sched_state \<Rightarrow> sched_state" where
  "wake_main_thread pid s =
     (case ss_processes s pid of
        None \<Rightarrow> s
      | Some p \<Rightarrow>
          let s1 = s\<lparr>ss_processes := (ss_processes s)(pid \<mapsto> p\<lparr>pr_state := PsReady\<rparr>)\<rparr> in
          (case get_main_thread_id p of
             None \<Rightarrow> s1
           | Some main_tid \<Rightarrow>
               (case bt_get (pr_threads p) main_tid of
                  None \<Rightarrow> s1
                | Some th \<Rightarrow>
                    let s2 = set_thread_state (Some th) TsReady s1 in
                    (case th_task (ss_threads s2 th) of
                       None \<Rightarrow> s2
                     | Some t \<Rightarrow> schedule_on_cpu (find_least_loaded_cpu s2) t s2))))"

definition wake_up_process :: "u64 \<Rightarrow> sched_state \<Rightarrow> sched_state" where
  "wake_up_process pid s =
     (case remove_from_wait_queue pid s of
        (Some t, s1) \<Rightarrow> wake_task t s1
      | (None, s1) \<Rightarrow>
          (case wake_current pid cpu_ids s1 of
             Some s2 \<Rightarrow> s2
           | None \<Rightarrow> wake_main_thread pid s1))"

fun wake_each :: "task_ptr list \<Rightarrow> sched_state \<Rightarrow> sched_state" where
  "wake_each [] s = s"
| "wake_each (t # ts) s = wake_each ts (wake_up_process (t_pid (ss_tasks s t)) s)"

definition wake_up_endpoint_waiters :: "u64 \<Rightarrow> sched_state \<Rightarrow> sched_state" where
  "wake_up_endpoint_waiters endpoint s =
     (case get_endpoint_waiters endpoint s of (waiters, s1) \<Rightarrow> wake_each waiters s1)"

text \<open>The wake-ups that the IPC operations ask for, in their order.\<close>

datatype wake = WakeProcess u64 | WakeEndpoint u64

fun deliver_wakes :: "wake list \<Rightarrow> sched_state \<Rightarrow> sched_state" where
  "deliver_wakes [] s = s"
| "deliver_wakes (WakeProcess pid # ws) s = deliver_wakes ws (wake_up_process pid s)"
| "deliver_wakes (WakeEndpoint e # ws) s = deliver_wakes ws (wake_up_endpoint_waiters e s)"

section \<open>Lemmas\<close>

definition waiting :: "sched_state \<Rightarrow> task_ptr set" where
  "waiting s = (\<Union>b \<in> set (ss_wait_queues s). set (snd b))"

lemma set_task_simps [simp]:
  "ss_tasks (set_task p t s) = (ss_tasks s)(p := t)" "ss_wait_queues (set_task p t s) = ss_wait_queues s"
  "ss_cpus (set_task p t s) = ss_cpus s" "ss_global_current (set_task p t s) = ss_global_current s"
  "ss_threads (set_task p t s) = ss_threads s" "ss_processes (set_task p t s) = ss_processes s"
  by (simp_all add: set_task_def)

lemma set_thread_state_simps [simp]:
  "ss_tasks (set_thread_state r st s) = ss_tasks s"
  "ss_wait_queues (set_thread_state r st s) = ss_wait_queues s"
  "ss_cpus (set_thread_state r st s) = ss_cpus s"
  "ss_global_current (set_thread_state r st s) = ss_global_current s"
  by (simp_all add: set_thread_state_def split: option.splits)

lemma schedule_on_cpu_simps [simp]:
  "ss_tasks (schedule_on_cpu c t s) = ss_tasks s"
  "ss_wait_queues (schedule_on_cpu c t s) = ss_wait_queues s"
  "ss_global_current (schedule_on_cpu c t s) = ss_global_current s"
  by (simp_all add: schedule_on_cpu_def Let_def split: option.splits)

lemma wake_task_simps:
  "ss_tasks (wake_task p s) = (ss_tasks s)(p := (ss_tasks s p)\<lparr>t_state := PsReady, t_blocked_on := None\<rparr>)"
  "ss_wait_queues (wake_task p s) = ss_wait_queues s"
  "ss_global_current (wake_task p s) = ss_global_current s"
  by (simp_all add: wake_task_def Let_def)

lemma wake_main_thread_simps:
  "ss_tasks (wake_main_thread pid s) = ss_tasks s"
  "ss_wait_queues (wake_main_thread pid s) = ss_wait_queues s"
  "ss_global_current (wake_main_thread pid s) = ss_global_current s"
  by (simp_all add: wake_main_thread_def Let_def split: option.splits)

lemma wake_current_Some:
  assumes "wake_current pid cs s = Some s'"
  obtains p where "ss_global_current s = Some p" "t_pid (ss_tasks s p) = pid"
    "ss_tasks s' = (ss_tasks s)(p := (ss_tasks s p)\<lparr>t_state := PsReady\<rparr>)"
    "ss_wait_queues s' = ss_wait_queues s" "ss_global_current s' = ss_global_current s"
  using assms
proof (induction cs)
  case (Cons c cs)
  show ?case
  proof (cases "is_online s c \<and> (\<exists>p. ss_global_current s = Some p \<and> t_pid (ss_tasks s p) = pid)")
    case True
    then obtain p where "ss_global_current s = Some p" "t_pid (ss_tasks s p) = pid" "is_online s c" by blast
    with Cons.prems show ?thesis by (intro Cons.prems(1) [of p]) auto
  next
    case False
    then have "wake_current pid (c # cs) s = wake_current pid cs s"
      by (auto split: option.splits)
    with Cons show ?thesis by simp
  qed
qed simp

lemma take_first_Some:
  "take_first P ts = Some (t, us) \<Longrightarrow> P t \<and> t \<in> set ts \<and> set us \<subseteq> set ts"
  by (induction ts arbitrary: us) (auto split: if_splits option.splits prod.splits)

definition waiters_of :: "(u64, task_ptr list) btree_map \<Rightarrow> task_ptr set" where
  "waiters_of qs = (\<Union>b \<in> set qs. set (snd b))"

lemma waiters_of_Cons [simp]: "waiters_of ((e, ts) # qs) = set ts \<union> waiters_of qs"
  by (simp add: waiters_of_def)

lemma take_waiter_Some:
  assumes "take_waiter P qs = Some (t, qs')"
  shows "P t \<and> t \<in> waiters_of qs \<and> waiters_of qs' \<subseteq> waiters_of qs"
  using assms
proof (induction P qs arbitrary: qs' rule: take_waiter.induct)
  case (2 P e ts qs)
  show ?case
  proof (cases "take_first P ts")
    case None
    then obtain qs1 where q: "take_waiter P qs = Some (t, qs1)" "qs' = (e, ts) # qs1"
      using 2(2) by (auto split: option.splits)
    from 2(1) [OF None q(1)] show ?thesis by (auto simp: q(2))
  next
    case (Some u)
    then obtain ts' where f: "take_first P ts = Some (t, ts')" "qs' = (e, ts') # qs"
      using 2(2) by (cases u) auto
    from take_first_Some [OF f(1)] show ?thesis by (auto simp: f(2))
  qed
qed simp

lemma remove_from_wait_queue_Some:
  assumes "remove_from_wait_queue pid s = (Some t, s1)"
  shows "t_pid (ss_tasks s t) = pid" "t \<in> waiting s" "waiting s1 \<subseteq> waiting s"
    "ss_tasks s1 = ss_tasks s" "ss_global_current s1 = ss_global_current s" "ss_cpus s1 = ss_cpus s"
proof -
  obtain qs where q: "take_waiter (\<lambda>t. t_pid (ss_tasks s t) = pid) (ss_wait_queues s) = Some (t, qs)"
    and s1: "s1 = s\<lparr>ss_wait_queues := qs\<rparr>"
    using assms by (auto simp: remove_from_wait_queue_def split: option.splits)
  show "t_pid (ss_tasks s t) = pid" "t \<in> waiting s" "waiting s1 \<subseteq> waiting s"
    using take_waiter_Some [OF q] by (simp_all add: waiting_def waiters_of_def s1)
  show "ss_tasks s1 = ss_tasks s" "ss_global_current s1 = ss_global_current s" "ss_cpus s1 = ss_cpus s"
    by (simp_all add: s1)
qed

lemma remove_from_wait_queue_None:
  "remove_from_wait_queue pid s = (None, s1) \<Longrightarrow> s1 = s"
  by (auto simp: remove_from_wait_queue_def split: option.splits)

text \<open>A wake-up touches only tasks of the wait queues and the global current task.\<close>

lemma wake_up_process_frame:
  assumes "p \<notin> waiting s" "ss_global_current s \<noteq> Some p"
  shows "p \<notin> waiting (wake_up_process pid s)" "ss_global_current (wake_up_process pid s) \<noteq> Some p"
    "ss_tasks (wake_up_process pid s) p = ss_tasks s p"
proof -
  have "p \<notin> waiting (wake_up_process pid s) \<and> ss_global_current (wake_up_process pid s) \<noteq> Some p \<and>
    ss_tasks (wake_up_process pid s) p = ss_tasks s p"
  proof (cases "remove_from_wait_queue pid s")
    case (Pair r s1)
    show ?thesis
    proof (cases r)
      case (Some t)
      note f = remove_from_wait_queue_Some [OF Pair [unfolded Some]]
      have "p \<noteq> t" "p \<notin> waiting s1" using f(2,3) assms(1) by auto
      with assms(2) Pair Some f show ?thesis
        by (simp add: wake_up_process_def wake_task_simps waiting_def)
    next
      case None
      then have s1: "s1 = s" using Pair remove_from_wait_queue_None by simp
      show ?thesis
      proof (cases "wake_current pid cpu_ids s")
        case w: None
        then show ?thesis using assms Pair None s1
          by (simp add: wake_up_process_def wake_main_thread_simps waiting_def)
      next
        case (Some s2)
        then obtain q where "ss_global_current s = Some q"
          "ss_tasks s2 = (ss_tasks s)(q := (ss_tasks s q)\<lparr>t_state := PsReady\<rparr>)"
          "ss_wait_queues s2 = ss_wait_queues s" "ss_global_current s2 = ss_global_current s"
          by (rule wake_current_Some)
        then show ?thesis using assms Pair None s1 Some by (auto simp: wake_up_process_def waiting_def)
      qed
    qed
  qed
  then show "p \<notin> waiting (wake_up_process pid s)" "ss_global_current (wake_up_process pid s) \<noteq> Some p"
    "ss_tasks (wake_up_process pid s) p = ss_tasks s p" by simp_all
qed

lemma wake_each_frame:
  assumes "p \<notin> waiting s" "ss_global_current s \<noteq> Some p"
  shows "p \<notin> waiting (wake_each ts s) \<and> ss_tasks (wake_each ts s) p = ss_tasks s p"
  using assms
proof (induction ts s rule: wake_each.induct)
  case (2 t ts s)
  note f = wake_up_process_frame [OF 2(2,3), of "t_pid (ss_tasks s t)"]
  from 2(1) [OF f(1,2)] f(3) show ?case by simp
qed simp

lemma find_least_loaded_cong: "ss_cpus s' = ss_cpus s \<Longrightarrow> find_least_loaded_cpu s' = find_least_loaded_cpu s"
  by (simp add: find_least_loaded_cpu_def)

lemma wake_target_cong:
  assumes "ss_cpus s' = ss_cpus s" "t_current_cpu t' = t_current_cpu t" "t_affinity t' = t_affinity t"
  shows "wake_target_cpu t' s' = wake_target_cpu t s"
proof -
  note l = find_least_loaded_cong [OF assms(1)]
  have "is_online s' c = is_online s c" for c by (simp add: is_online_def assms(1))
  moreover have "find_least_loaded_cpu_with_affinity a s' = find_least_loaded_cpu_with_affinity a s" for a
    unfolding find_least_loaded_cpu_with_affinity_def l assms(1) ..
  ultimately show ?thesis
    using l by (cases "t_current_cpu t") (simp_all add: wake_target_cpu_def assms(2,3))
qed

lemma level_of_cong: "t_sched_class t' = t_sched_class t \<Longrightarrow> t_priority t' = t_priority t \<Longrightarrow> level_of t' = level_of t"
  by (cases "t_sched_class t") (simp_all add: level_of_def rt_index_def normal_index_def)

lemma level_enq_mem:
  assumes "level_enq i t ls = (True, ls')" "i < length ls"
  shows "t \<in> set (concat ls')"
  using assms by (auto simp: level_enq_def set_update_memI split: if_splits intro!: bexI [of _ "ls ! i @ [t]"])

lemma rq_enqueue_mem:
  assumes inv: "rq_inv rq" and room: "length (rq_levels rq ! level_of (store t)) < MAX_TASKS_PER_QUEUE"
  shows "t \<in> set (concat (rq_levels (snd (rq_enqueue store t rq))))"
proof -
  obtain ok rq' where e: "rq_enqueue store t rq = (ok, rq')" by force
  have l: "level_enq (level_of (store t)) t (rq_levels rq) = (ok, rq_levels rq')"
    using rq_enqueue_spec [OF inv e] by blast
  then have ok: "ok = True" using room by (auto simp: level_enq_def)
  have "length (rq_levels rq) = 35" using rq_lengths [OF inv] by (simp add: rq_levels_def num_levels)
  with level_enq_mem [OF l [unfolded ok]] level_of_bound [of "store t"] e show ?thesis by simp
qed

section \<open>Properties\<close>


definition demo_cpu :: cpu_info where
  "demo_cpu = \<lparr>cpu_online = True, cpu_idle = True, cpu_load = 0, cpu_nr_running = 0, cpu_ready_queue = rq_new\<rparr>"

text \<open>One processor, task 7 of process 1 is current, and no thread objects are linked.\<close>

definition demo_sched :: sched_state where
  "demo_sched = \<lparr>ss_tasks = (\<lambda>_. demo_task\<lparr>t_current_cpu := Some 0\<rparr>), ss_threads = (\<lambda>_. \<lparr>th_state = TsRunning, th_task = None\<rparr>),
     ss_processes = (\<lambda>_. None), ss_wait_queues = [], ss_current = Some 7, ss_global_current = None,
     ss_cpus = [0 \<mapsto> demo_cpu], ss_ready_queue = rq_new, ss_ipis = [], ss_ipc_blocks = 0, ss_ipc_wakeups = 0\<rparr>"

abbreviation demo_blocked :: sched_state where
  "demo_blocked \<equiv> block_on_ipc 5 demo_sched"

lemma demo_blocked_eval:
  "ss_wait_queues demo_blocked = [(5, [7])]" "ss_cpus demo_blocked = [0 \<mapsto> demo_cpu]"
  "ss_global_current demo_blocked = None" "t_state (ss_tasks demo_blocked 7) = PsBlocked"
  "t_pid (ss_tasks demo_blocked 7) = 1" "t_current_cpu (ss_tasks demo_blocked 7) = Some 0"
  "t_affinity (ss_tasks demo_blocked 7) = - 1"
  by (simp_all add: block_on_ipc_def demo_sched_def demo_task_def Let_def add_to_wait_queue_def bt_get_def
      set_thread_state_def)


text \<open>
  \<open>wake_up_endpoint_waiters\<close> wakes none of the tasks it takes from the endpoint's queue: it
  empties the queue first and then calls \<open>wake_up_process\<close>, which looks for the task in the wait
  queues. A blocked task that waits on the endpoint only, and is not the global current task,
  stays blocked and stands in no wait queue any more, so no later wake-up finds it there.
\<close>

theorem endpoint_waiters_stranded:
  assumes "bt_get (ss_wait_queues s) e = Some ts" "t \<in> set ts" "t_state (ss_tasks s t) = PsBlocked"
    and "\<forall>e' ts'. e' \<noteq> e \<longrightarrow> (e', ts') \<in> set (ss_wait_queues s) \<longrightarrow> t \<notin> set ts'"
    and "ss_global_current s \<noteq> Some t"
  shows "t_state (ss_tasks (wake_up_endpoint_waiters e s) t) = PsBlocked \<and>
    t \<notin> waiting (wake_up_endpoint_waiters e s)"
proof -
  define s1 where "s1 = s\<lparr>ss_wait_queues := bt_remove e (ss_wait_queues s)\<rparr>"
  have "t \<notin> waiting s1" using assms(4) by (auto simp: waiting_def s1_def bt_remove_def)
  moreover have "ss_global_current s1 \<noteq> Some t" using assms(5) by (simp add: s1_def)
  ultimately have "t \<notin> waiting (wake_each ts s1) \<and> ss_tasks (wake_each ts s1) t = ss_tasks s1 t"
    by (rule wake_each_frame)
  moreover have "wake_up_endpoint_waiters e s = wake_each ts s1"
    using assms(1) by (simp add: wake_up_endpoint_waiters_def get_endpoint_waiters_def s1_def)
  moreover have "ss_tasks s1 = ss_tasks s" by (simp add: s1_def)
  ultimately show ?thesis using assms(3) by simp
qed

theorem endpoint_waiters_stranded_witness:
  "t_state (ss_tasks (wake_up_endpoint_waiters 5 demo_blocked) 7) = PsBlocked \<and>
     7 \<notin> waiting (wake_up_endpoint_waiters 5 demo_blocked)"
proof -
  show ?thesis
    by (rule endpoint_waiters_stranded [of _ _ "[7]"]) (simp_all add: demo_blocked_eval bt_get_def)
qed

end
