(* ===== verification/Ipc_Async.thy ===== *)
theory Ipc_Async
  imports Ipc_Transfer Sched_Wait
begin

text \<open>
  Asynchronous channels (\<open>src/kernel/src/ipc/async_channel.rs\<close>): the lock-free ring buffer, first as
  sequential operations and then as the atomic steps of its \<open>push\<close> and \<open>pop\<close>, the channel on top of
  it and message batches. A slot of the buffer is \<open>None\<close> until it is first written: the memory
  comes uninitialised from the allocator.
\<close>

section \<open>The ring buffer\<close>

record 'a ring_buffer =
  rb_buffer :: "'a option list"
  rb_capacity :: usize
  rb_write_pos :: usize
  rb_read_pos :: usize
  rb_size :: usize

definition rb_new :: "usize \<Rightarrow> 'a ring_buffer" where
  "rb_new cap = \<lparr>rb_buffer = replicate (unat cap) None, rb_capacity = cap, rb_write_pos = 0,
     rb_read_pos = 0, rb_size = 0\<rparr>"

definition rb_push :: "'a \<Rightarrow> 'a ring_buffer \<Rightarrow> bool \<times> 'a ring_buffer" where
  "rb_push x rb =
     (if rb_size rb \<ge> rb_capacity rb then (False, rb)
      else
        let write_pos = rb_write_pos rb mod rb_capacity rb in
        (True, rb\<lparr>rb_write_pos := rb_write_pos rb + 1,
                  rb_buffer := (rb_buffer rb)[unat write_pos := Some x],
                  rb_size := rb_size rb + 1\<rparr>))"

text \<open>\<open>pop\<close> returns the slot it reads: \<open>Some None\<close> would be uninitialised memory.\<close>

definition rb_pop :: "'a ring_buffer \<Rightarrow> 'a option option \<times> 'a ring_buffer" where
  "rb_pop rb =
     (if rb_size rb = 0 then (None, rb)
      else
        let read_pos = rb_read_pos rb mod rb_capacity rb in
        (Some (rb_buffer rb ! unat read_pos),
         rb\<lparr>rb_size := rb_size rb - 1, rb_read_pos := rb_read_pos rb + 1\<rparr>))"

section \<open>The channel\<close>

record async_channel =
  ch_id :: u64
  ch_owner :: u64
  ch_buffer :: "message ring_buffer"
  ch_subscribers :: "u64 list"
  ch_sent :: u64
  ch_received :: u64
  ch_dropped :: u64
  ch_max_depth :: usize
  ch_active :: bool

definition ASYNC_CHANNEL_SIZE :: usize where "ASYNC_CHANNEL_SIZE = 256"

definition async_new :: "u64 \<Rightarrow> u64 \<Rightarrow> usize \<Rightarrow> async_channel" where
  "async_new cid owner capacity =
     \<lparr>ch_id = cid, ch_owner = owner, ch_buffer = rb_new capacity, ch_subscribers = [], ch_sent = 0,
      ch_received = 0, ch_dropped = 0, ch_max_depth = 0, ch_active = True\<rparr>"

text \<open>
  \<open>caller\<close> is the capability space of the current process, when there is one and the process
  table knows it. The wake-ups the call makes are returned in their order.
\<close>

definition async_check :: "u64 option \<Rightarrow> message \<Rightarrow> cap_system \<Rightarrow> (unit, ipc_error) result \<times> cap_system" where
  "async_check caller msg sys =
     (let cap_id = msg_capability msg in
      if cap_id = 0 then (Ok (), sys)
      else (case caller of
              None \<Rightarrow> (Ok (), sys)
            | Some sp \<Rightarrow> check_send_permission (token_from_u64 cap_id) sp sys))"

definition async_send :: "u64 option \<Rightarrow> message \<Rightarrow> async_channel \<Rightarrow> cap_system \<Rightarrow>
    (unit, ipc_error) result \<times> async_channel \<times> cap_system \<times> wake list" where
  "async_send caller msg ch sys =
     (if \<not> ch_active ch then (Err IpcEndpointNotFound, ch, sys, [])
      else
        (case async_check caller msg sys of
           (Err e, sys1) \<Rightarrow> (Err e, ch, sys1, [])
         | (Ok _, sys1) \<Rightarrow>
             (case rb_push msg (ch_buffer ch) of
                (True, rb) \<Rightarrow>
                  (Ok (), ch\<lparr>ch_buffer := rb, ch_sent := ch_sent ch + 1,
                             ch_max_depth := max (ch_max_depth ch) (rb_size rb)\<rparr>, sys1,
                   map WakeProcess (ch_subscribers ch) @ [WakeEndpoint (ch_id ch)])
              | (False, rb) \<Rightarrow>
                  (Err IpcChannelFull, ch\<lparr>ch_buffer := rb, ch_dropped := ch_dropped ch + 1\<rparr>, sys1, []))))"

definition async_receive :: "async_channel \<Rightarrow> (message option, ipc_error) result \<times> async_channel" where
  "async_receive ch =
     (if \<not> ch_active ch then (Err IpcEndpointNotFound, ch)
      else
        (case rb_pop (ch_buffer ch) of
           (Some slot, rb) \<Rightarrow> (Ok slot, ch\<lparr>ch_buffer := rb, ch_received := ch_received ch + 1\<rparr>)
         | (None, rb) \<Rightarrow> (Err IpcChannelEmpty, ch\<lparr>ch_buffer := rb\<rparr>)))"

definition async_subscribe :: "u64 \<Rightarrow> async_channel \<Rightarrow> (unit, ipc_error) result \<times> async_channel" where
  "async_subscribe pid ch =
     (if \<not> ch_active ch then (Err IpcEndpointNotFound, ch)
      else if pid \<in> set (ch_subscribers ch) then (Ok (), ch)
      else (Ok (), ch\<lparr>ch_subscribers := ch_subscribers ch @ [pid]\<rparr>))"

definition async_close :: "async_channel \<Rightarrow> async_channel \<times> wake list" where
  "async_close ch = (ch\<lparr>ch_active := False\<rparr>, map WakeProcess (ch_subscribers ch))"

definition timestamp_to_ns :: "u64 \<Rightarrow> u64" where
  "timestamp_to_ns cycles = cycles div 2"

section \<open>Batches\<close>

record message_batch =
  mb_messages :: "message option list"
  mb_count :: nat

definition batch_new :: message_batch where
  "batch_new = \<lparr>mb_messages = replicate 16 None, mb_count = 0\<rparr>"

definition batch_add :: "message \<Rightarrow> message_batch \<Rightarrow> bool \<times> message_batch" where
  "batch_add msg b =
     (if mb_count b < 16
      then (True, b\<lparr>mb_messages := (mb_messages b)[mb_count b := Some msg], mb_count := mb_count b + 1\<rparr>)
      else (False, b))"

text \<open>The messages that \<open>process\<close> hands to its callback, in order.\<close>

definition batch_process :: "message_batch \<Rightarrow> message list" where
  "batch_process b = concat (map (\<lambda>i. case mb_messages b ! i of Some m \<Rightarrow> [m] | None \<Rightarrow> []) [0..<mb_count b])"

section \<open>Atomic steps\<close>

text \<open>
  What each processor has done of one \<open>push\<close> or \<open>pop\<close>. Between two steps any other processor may
  take steps of its own.
\<close>

datatype producer = PStart | PChecked | PReserved nat | PWritten | PDone bool

datatype 'a consumer = CStart | CLoaded usize | CTaken | CReserved nat | CDone "'a option option"

type_synonym 'a ring_state = "'a ring_buffer \<times> 'a \<times> producer \<times> 'a consumer"

inductive ring_step :: "'a ring_state \<Rightarrow> 'a ring_state \<Rightarrow> bool" where
  push_full: "rb_size rb \<ge> rb_capacity rb \<Longrightarrow> ring_step (rb, x, PStart, c) (rb, x, PDone False, c)"
| push_check: "rb_size rb < rb_capacity rb \<Longrightarrow> ring_step (rb, x, PStart, c) (rb, x, PChecked, c)"
| push_reserve: "ring_step (rb, x, PChecked, c)
     (rb\<lparr>rb_write_pos := rb_write_pos rb + 1\<rparr>, x,
      PReserved (unat (rb_write_pos rb mod rb_capacity rb)), c)"
| push_write: "ring_step (rb, x, PReserved j, c) (rb\<lparr>rb_buffer := (rb_buffer rb)[j := Some x]\<rparr>, x, PWritten, c)"
| push_count: "ring_step (rb, x, PWritten, c) (rb\<lparr>rb_size := rb_size rb + 1\<rparr>, x, PDone True, c)"
| pop_empty: "rb_size rb = 0 \<Longrightarrow> ring_step (rb, x, p, CStart) (rb, x, p, CDone None)"
| pop_load: "rb_size rb \<noteq> 0 \<Longrightarrow> ring_step (rb, x, p, CStart) (rb, x, p, CLoaded (rb_size rb))"
| pop_take: "rb_size rb = n \<Longrightarrow> ring_step (rb, x, p, CLoaded n) (rb\<lparr>rb_size := n - 1\<rparr>, x, p, CTaken)"
| pop_retry: "ring_step (rb, x, p, CLoaded n) (rb, x, p, CStart)"
| pop_reserve: "ring_step (rb, x, p, CTaken)
     (rb\<lparr>rb_read_pos := rb_read_pos rb + 1\<rparr>, x, p, CReserved (unat (rb_read_pos rb mod rb_capacity rb)))"
| pop_read: "ring_step (rb, x, p, CReserved j) (rb, x, p, CDone (Some (rb_buffer rb ! j)))"

section \<open>The ring buffer is a bounded queue\<close>

definition rb_ring :: "'a ring_buffer \<Rightarrow> 'a option list" where
  "rb_ring rb = ring_contents (rb_buffer rb) (unat (rb_read_pos rb)) (unat (rb_size rb))"

definition rb_contents :: "'a ring_buffer \<Rightarrow> 'a list" where
  "rb_contents rb = map the (rb_ring rb)"

text \<open>
  The positions wrap at \<open>2 ^ 64\<close>. The index stays continuous there when the capacity divides
  \<open>2 ^ 64\<close>, as \<open>ASYNC_CHANNEL_SIZE\<close> does.
\<close>

definition rb_inv :: "nat \<Rightarrow> 'a ring_buffer \<Rightarrow> bool" where
  "rb_inv n rb \<longleftrightarrow> unat (rb_capacity rb) = n \<and> n dvd 2 ^ 64 \<and> length (rb_buffer rb) = n \<and>
     rb_size rb \<le> rb_capacity rb \<and> rb_write_pos rb = rb_read_pos rb + rb_size rb \<and>
     None \<notin> set (rb_ring rb)"

definition rb_deq :: "'a ring_buffer \<Rightarrow> 'a option \<times> 'a ring_buffer" where
  "rb_deq rb = (case rb_pop rb of (None, rb') \<Rightarrow> (None, rb') | (Some slot, rb') \<Rightarrow> (slot, rb'))"

lemma unat_add_mod:
  fixes a b :: usize
  assumes "n dvd 2 ^ 64"
  shows "unat (a + b) mod n = (unat a + unat b) mod n"
  using assms by (simp add: unat_word_ariths mod_mod_cancel)

lemma rb_index:
  assumes "rb_inv n rb"
  shows "unat (rb_write_pos rb mod rb_capacity rb) =
      (unat (rb_read_pos rb) + unat (rb_size rb)) mod length (rb_buffer rb)"
    "unat (rb_read_pos rb mod rb_capacity rb) = unat (rb_read_pos rb) mod length (rb_buffer rb)"
  using assms unat_add_mod [of n "rb_read_pos rb" "rb_size rb"] by (simp_all add: rb_inv_def unat_mod_distrib)

lemma rb_push_simps:
  "rb_size rb < rb_capacity rb \<Longrightarrow> rb_push x rb = (True, rb\<lparr>rb_write_pos := rb_write_pos rb + 1,
     rb_buffer := (rb_buffer rb)[unat (rb_write_pos rb mod rb_capacity rb) := Some x],
     rb_size := rb_size rb + 1\<rparr>)"
  "\<not> rb_size rb < rb_capacity rb \<Longrightarrow> rb_push x rb = (False, rb)"
  by (simp_all add: rb_push_def Let_def not_less not_le [symmetric])

lemma length_rb_ring: "length (rb_ring rb) = unat (rb_size rb)"
  by (simp add: rb_ring_def)

lemma rb_push_ring:
  assumes "rb_inv n rb" "rb_size rb < rb_capacity rb"
  shows "rb_ring (snd (rb_push x rb)) = rb_ring rb @ [Some x]"
proof -
  have lt: "unat (rb_size rb) < length (rb_buffer rb)"
    using assms by (simp add: rb_inv_def word_less_nat_alt)
  show ?thesis
    using assms(2) ring_contents_snoc [OF lt, of "unat (rb_read_pos rb)" "Some x"] unat_inc [OF assms(2)]
    by (simp add: rb_push_simps rb_ring_def rb_index [OF assms(1)])
qed

lemma rb_push_inv:
  assumes "rb_inv n rb"
  shows "rb_inv n (snd (rb_push x rb))"
proof (cases "rb_size rb < rb_capacity rb")
  case True
  have "None \<notin> set (rb_ring (snd (rb_push x rb)))"
    using assms rb_push_ring [OF assms True, of x] by (auto simp: rb_inv_def)
  moreover have "rb_size rb + 1 \<le> rb_capacity rb" using True by (rule inc_le)
  ultimately show ?thesis using assms True by (simp add: rb_inv_def rb_push_simps)
next
  case False
  with assms show ?thesis by (simp add: rb_push_simps)
qed

lemma rb_push_contents:
  assumes "rb_inv n rb"
  shows "(fst (rb_push x rb), rb_contents (snd (rb_push x rb))) = list_enq n x (rb_contents rb)"
proof (cases "rb_size rb < rb_capacity rb")
  case True
  have "rb_contents (snd (rb_push x rb)) = rb_contents rb @ [x]"
    unfolding rb_contents_def rb_push_ring [OF assms True] by simp
  with assms True show ?thesis
    by (simp add: list_enq_def rb_contents_def [of rb] length_rb_ring rb_inv_def word_less_nat_alt rb_push_simps)
next
  case False
  with assms show ?thesis
    by (simp add: list_enq_def rb_contents_def length_rb_ring rb_inv_def word_less_nat_alt rb_push_simps)
qed

lemma rb_pop_ring:
  assumes "rb_inv n rb" "rb_size rb \<noteq> 0"
  shows "rb_ring rb = the (fst (rb_pop rb)) # rb_ring (snd (rb_pop rb))"
proof -
  have dec: "unat (rb_size rb) = Suc (unat (rb_size rb - 1))"
    using assms(2) by (simp add: unat_minus_one unat_gt_0)
  have "ring_contents (rb_buffer rb) (Suc (unat (rb_read_pos rb))) m =
      ring_contents (rb_buffer rb) (unat (rb_read_pos rb + 1)) m" for m
  proof -
    have "unat (rb_read_pos rb + 1) mod length (rb_buffer rb) = Suc (unat (rb_read_pos rb)) mod length (rb_buffer rb)"
      using unat_add_mod [of n "rb_read_pos rb" 1] assms(1) by (simp add: rb_inv_def)
    then show ?thesis by (metis ring_contents_mod)
  qed
  then show ?thesis
    using assms(2) by (simp add: rb_pop_def rb_ring_def Let_def dec ring_contents_Cons rb_index(2) [OF assms(1)])
qed

lemma rb_deq_inv:
  assumes "rb_inv n rb"
  shows "rb_inv n (snd (rb_deq rb))"
proof (cases "rb_size rb = 0")
  case True
  with assms show ?thesis by (simp add: rb_deq_def rb_pop_def)
next
  case False
  have "None \<notin> set (rb_ring (snd (rb_pop rb)))"
    using assms rb_pop_ring [OF assms False] by (auto simp: rb_inv_def)
  moreover have "rb_size rb - 1 \<le> rb_size rb" using False by (simp add: word_le_nat_alt unat_minus_one)
  ultimately show ?thesis
    using assms False by (auto simp: rb_inv_def rb_deq_def rb_pop_def Let_def intro: order_trans)
qed

lemma rb_deq_contents:
  assumes "rb_inv n rb"
  shows "(fst (rb_deq rb), rb_contents (snd (rb_deq rb))) = list_deq (rb_contents rb)"
proof (cases "rb_size rb = 0")
  case True
  then show ?thesis by (simp add: rb_deq_def rb_pop_def rb_contents_def rb_ring_def)
next
  case False
  have "None \<notin> set (rb_ring rb)" using assms by (simp add: rb_inv_def)
  moreover obtain slot rb' where p: "rb_pop rb = (Some slot, rb')" using False by (simp add: rb_pop_def Let_def)
  ultimately obtain x where "slot = Some x" using rb_pop_ring [OF assms False] by (cases slot) auto
  with rb_pop_ring [OF assms False] p show ?thesis by (simp add: rb_deq_def rb_contents_def)
qed

interpretation rb: bounded_queue n "rb_inv n" rb_contents rb_push rb_deq
proof
  show "rb_inv n q \<Longrightarrow> length (rb_contents q) \<le> n" for q :: "'a ring_buffer"
    by (simp add: rb_contents_def length_rb_ring rb_inv_def word_le_nat_alt)
qed (simp_all add: rb_push_inv rb_push_contents rb_deq_inv rb_deq_contents)

lemma rb_new_inv: "unat cap dvd 2 ^ 64 \<Longrightarrow> rb_inv (unat cap) (rb_new cap)"
  "rb_contents (rb_new cap) = []"
  by (simp_all add: rb_inv_def rb_new_def rb_contents_def rb_ring_def)

section \<open>Properties\<close>

text \<open>
  C10. Used by one processor at a time, the ring buffer of a channel whose capacity divides
  \<open>2 ^ 64\<close> is a bounded first-in first-out queue for ever: every sequence of \<open>push\<close> and \<open>pop\<close> has the
  results of the same operations on a list of at most that many items, also after the
  positions have wrapped around, and no pop reads an uninitialised slot.
\<close>

theorem ring_buffer_is_fifo:
  assumes "unat cap dvd 2 ^ 64"
  shows "fst (queue_run rb_push rb_deq ops (rb_new cap)) = fst (queue_run (list_enq (unat cap)) list_deq ops [])"
proof -
  obtain rs rb where run: "queue_run rb_push rb_deq ops (rb_new cap) = (rs, rb)" by force
  from rb.run_refines [OF rb_new_inv(1) [OF assms] run] run show ?thesis by (simp add: rb_new_inv)
qed

theorem ring_buffer_is_fifo_witness:
  "fst (queue_run rb_push rb_deq [Enq (3 :: nat), Enq 4, Enq 5, Deq, Deq, Deq] (rb_new 2)) =
     [Accepted, Accepted, Refused, Delivered 3, Delivered 4, Nothing]"
  by (subst ring_buffer_is_fifo) (simp_all add: list_enq_def)

text \<open>
  C39. One producer and one consumer are not safe: \<open>pop\<close> gives its slot free, by lowering the size,
  before it has read it. From every full ring buffer there is an interleaving of one \<open>push\<close> and
  one \<open>pop\<close> in which the producer overwrites the oldest message and the consumer receives the
  new one instead.
\<close>

theorem pop_races_with_push_when_full:
  assumes "rb_inv n rb" "rb_size rb = rb_capacity rb" "0 < n"
  shows "\<exists>rb'. ring_step\<^sup>*\<^sup>* (rb, y, PStart, CStart) (rb', y, PDone True, CDone (Some (Some y)))"
proof -
  let ?cap = "rb_capacity rb" and ?j = "unat (rb_read_pos rb mod rb_capacity rb)"
  have nz: "rb_size rb \<noteq> 0" using assms by (auto simp: rb_inv_def)
  have idx: "unat (rb_write_pos rb mod ?cap) = ?j"
    using rb_index [OF assms(1)] assms by (simp add: rb_inv_def)
  have len: "?j < length (rb_buffer rb)"
    using rb_index(2) [OF assms(1)] assms by (simp add: rb_inv_def)
  define rb1 where "rb1 = rb\<lparr>rb_size := rb_size rb - 1\<rparr>"
  define rb2 where "rb2 = rb1\<lparr>rb_write_pos := rb_write_pos rb1 + 1\<rparr>"
  define rb3 where "rb3 = rb2\<lparr>rb_buffer := (rb_buffer rb2)[?j := Some y]\<rparr>"
  define rb4 where "rb4 = rb3\<lparr>rb_size := rb_size rb3 + 1\<rparr>"
  define rb5 where "rb5 = rb4\<lparr>rb_read_pos := rb_read_pos rb4 + 1\<rparr>"
  note rbs = rb5_def rb4_def rb3_def rb2_def rb1_def
  have "rb_size rb1 < rb_capacity rb1"
    using nz assms(2) by (simp add: rb1_def word_less_nat_alt unat_minus_one unat_gt_0)
  note s3 = push_check [OF this, of y CTaken]
  have 1: "ring_step (rb, y, PStart, CStart) (rb, y, PStart, CLoaded (rb_size rb))" by (rule pop_load [OF nz])
  have 2: "ring_step (rb, y, PStart, CLoaded (rb_size rb)) (rb1, y, PStart, CTaken)"
    unfolding rb1_def by (rule pop_take) simp
  have 4: "ring_step (rb1, y, PChecked, CTaken) (rb2, y, PReserved ?j, CTaken)"
    using push_reserve [of rb1 y CTaken] by (simp add: rb1_def rb2_def idx)
  have 5: "ring_step (rb2, y, PReserved ?j, CTaken) (rb3, y, PWritten, CTaken)"
    unfolding rb3_def by (rule push_write)
  have 6: "ring_step (rb3, y, PWritten, CTaken) (rb4, y, PDone True, CTaken)"
    unfolding rb4_def by (rule push_count)
  have 7: "ring_step (rb4, y, PDone True, CTaken) (rb5, y, PDone True, CReserved ?j)"
    using pop_reserve [of rb4 y "PDone True"] by (simp add: rbs)
  have "rb_buffer rb5 ! ?j = Some y" using len by (simp add: rbs)
  then have 8: "ring_step (rb5, y, PDone True, CReserved ?j) (rb5, y, PDone True, CDone (Some (Some y)))"
    using pop_read [of rb5 y "PDone True" ?j] by simp
  show ?thesis
    using 1 2 s3 4 5 6 7 8 by (intro exI [of _ rb5]) (meson converse_rtranclp_into_rtranclp rtranclp.rtrancl_refl)
qed

theorem pop_races_with_push_when_full_witness:
  "rb_contents (snd (rb_push (5 :: nat) (rb_new 1))) = [5] \<and>
   (\<exists>rb'. ring_step\<^sup>*\<^sup>* (snd (rb_push 5 (rb_new 1)), 6, PStart, CStart)
      (rb', 6 :: nat, PDone True, CDone (Some (Some 6))))"
proof -
  let ?rb = "snd (rb_push 5 (rb_new 1)) :: nat ring_buffer"
  have inv: "rb_inv (unat (1 :: usize)) ?rb" by (rule rb_push_inv, rule rb_new_inv) simp
  have full: "rb_size ?rb = rb_capacity ?rb" by (simp add: rb_push_def rb_new_def Let_def)
  have c: "rb_contents ?rb = [5]"
    using rb_push_contents [OF rb_new_inv(1) [of 1], of "5 :: nat"] by (simp add: rb_new_inv list_enq_def)
  show ?thesis using pop_races_with_push_when_full [OF inv full, of 6] c by simp
qed

end
