(* ===== verification/Ipc_Rate_Limit.thy ===== *)
theory Ipc_Rate_Limit
  imports Ipc_Message
begin

text \<open>
  Rate limiting of IPC operations (\<open>src/kernel/src/ipc/rate_limit.rs\<close>): token buckets, one of 1024 per
  residue of the process identifier. \<open>now\<close> is the value of \<open>get_current_time\<close> in the call; the
  compare-exchange loops are the atomic updates that they perform when they return.
\<close>

section \<open>Token buckets\<close>

record token_bucket =
  tb_pid :: u64
  tb_tokens :: u32
  tb_max_tokens :: u32
  tb_refill_rate :: u32
  tb_last_refill :: u64
  tb_messages_sent :: u64
  tb_bytes_sent :: u64

definition bucket_new :: token_bucket where
  "bucket_new = \<lparr>tb_pid = 0, tb_tokens = 100, tb_max_tokens = 100, tb_refill_rate = 100,
     tb_last_refill = 0, tb_messages_sent = 0, tb_bytes_sent = 0\<rparr>"

definition bucket_refill :: "u64 \<Rightarrow> token_bucket \<Rightarrow> token_bucket" where
  "bucket_refill now b =
     (let elapsed_ms = (now - tb_last_refill b) div 1000000 in
      if elapsed_ms > 0 then
        let tokens_to_add = ucast (ucast (tb_refill_rate b) * elapsed_ms div 1000 :: u64) in
        if tokens_to_add > 0
        then b\<lparr>tb_last_refill := now, tb_tokens := min (tb_tokens b + tokens_to_add) (tb_max_tokens b)\<rparr>
        else b
      else b)"

definition try_consume :: "u32 \<Rightarrow> u64 \<Rightarrow> token_bucket \<Rightarrow> bool \<times> token_bucket" where
  "try_consume tokens_needed now b =
     (let b1 = bucket_refill now b in
      if tb_tokens b1 < tokens_needed then (False, b1)
      else (True, b1\<lparr>tb_tokens := tb_tokens b1 - tokens_needed\<rparr>))"

definition bucket_reset :: "u64 \<Rightarrow> u32 \<Rightarrow> u32 \<Rightarrow> u64 \<Rightarrow> token_bucket" where
  "bucket_reset pid max_tokens refill_rate now =
     \<lparr>tb_pid = pid, tb_tokens = max_tokens, tb_max_tokens = max_tokens, tb_refill_rate = refill_rate,
      tb_last_refill = now, tb_messages_sent = 0, tb_bytes_sent = 0\<rparr>"

section \<open>The limiter\<close>

record rate_limits =
  max_messages_per_sec :: u32
  max_bytes_per_sec :: u64
  burst_multiplier :: u32

definition rate_unlimited :: rate_limits where
  "rate_unlimited = \<lparr>max_messages_per_sec = 0, max_bytes_per_sec = 0, burst_multiplier = 1\<rparr>"

definition rate_default :: rate_limits where
  "rate_default = \<lparr>max_messages_per_sec = 1000, max_bytes_per_sec = 10 * 1024 * 1024, burst_multiplier = 2\<rparr>"

definition rate_strict :: rate_limits where
  "rate_strict = \<lparr>max_messages_per_sec = 100, max_bytes_per_sec = 1024 * 1024, burst_multiplier = 1\<rparr>"

definition MAX_PROCESSES :: u64 where "MAX_PROCESSES = 1024"

type_synonym rate_limiter = "u64 \<Rightarrow> token_bucket"

definition limiter_new :: rate_limiter where
  "limiter_new = (\<lambda>_. bucket_new)"

definition bucket_index :: "u64 \<Rightarrow> u64" where
  "bucket_index pid = pid mod MAX_PROCESSES"

text \<open>
  A bucket that belongs to another process is used as it is: a collision shares the bucket.
\<close>

definition get_or_create_bucket :: "u64 \<Rightarrow> rate_limits \<Rightarrow> u64 \<Rightarrow> rate_limiter \<Rightarrow> rate_limiter" where
  "get_or_create_bucket pid limits now rl =
     (let index = bucket_index pid; current_pid = tb_pid (rl index) in
      if current_pid = pid then rl
      else if current_pid = 0
      then rl(index := bucket_reset pid (max_messages_per_sec limits) (max_messages_per_sec limits) now)
      else rl)"

definition check_allowed :: "u64 \<Rightarrow> usize \<Rightarrow> rate_limits \<Rightarrow> u64 \<Rightarrow> rate_limiter \<Rightarrow>
    (unit, ipc_error) result \<times> rate_limiter" where
  "check_allowed pid message_size limits now rl =
     (let rl1 = get_or_create_bucket pid limits now rl; index = bucket_index pid;
          (ok, b1) = (if max_messages_per_sec limits > 0 then try_consume 1 now (rl1 index)
                      else (True, rl1 index))
      in if \<not> ok then (Err IpcRateLimitExceeded, rl1(index := b1))
         else
           let b2 = b1\<lparr>tb_messages_sent := tb_messages_sent b1 + 1,
                       tb_bytes_sent := tb_bytes_sent b1 + message_size\<rparr>
           in if max_bytes_per_sec limits > 0 \<and> tb_bytes_sent b2 > max_bytes_per_sec limits
              then (Err IpcRateLimitExceeded, rl1(index := b2))
              else (Ok (), rl1(index := b2)))"

record rate_limit_stats =
  rs_messages_sent :: u64
  rs_bytes_sent :: u64
  rs_tokens_available :: u32
  rs_max_tokens :: u32

definition rate_stats :: "u64 \<Rightarrow> rate_limiter \<Rightarrow> rate_limit_stats" where
  "rate_stats pid rl =
     (let b = rl (bucket_index pid) in
      if tb_pid b = pid
      then \<lparr>rs_messages_sent = tb_messages_sent b, rs_bytes_sent = tb_bytes_sent b,
            rs_tokens_available = tb_tokens b, rs_max_tokens = tb_max_tokens b\<rparr>
      else \<lparr>rs_messages_sent = 0, rs_bytes_sent = 0, rs_tokens_available = 0, rs_max_tokens = 0\<rparr>)"

text \<open>The number of messages a bucket lets through at the given times.\<close>

fun consume_run :: "u64 list \<Rightarrow> token_bucket \<Rightarrow> nat \<times> token_bucket" where
  "consume_run [] b = (0, b)"
| "consume_run (now # ts) b =
     (let (ok, b1) = try_consume 1 now b; (n, b2) = consume_run ts b1
      in (if ok then Suc n else n, b2))"

text \<open>Calls of one process: their times and message sizes.\<close>

fun check_run :: "u64 \<Rightarrow> rate_limits \<Rightarrow> (u64 \<times> usize) list \<Rightarrow> rate_limiter \<Rightarrow>
    (unit, ipc_error) result list \<times> rate_limiter" where
  "check_run pid limits [] rl = ([], rl)"
| "check_run pid limits ((now, sz) # calls) rl =
     (let (r, rl1) = check_allowed pid sz limits now rl; (rs, rl2) = check_run pid limits calls rl1
      in (r # rs, rl2))"

section \<open>Lemmas\<close>

text \<open>The milliseconds until \<open>stop\<close>, as natural numbers, and a potential in thousandths of a token.\<close>

definition millis :: "nat \<Rightarrow> u64 \<Rightarrow> nat" where
  "millis stop t = (stop - unat t) div 1000000"

definition potential :: "nat \<Rightarrow> token_bucket \<Rightarrow> nat" where
  "potential stop b = 1000 * unat (tb_tokens b) + unat (tb_refill_rate b) * millis stop (tb_last_refill b)"

lemma millis_split:
  assumes "unat prev \<le> unat now" "unat now \<le> stop"
  shows "unat ((now - prev) div 1000000) + millis stop now \<le> millis stop prev"
proof -
  have "unat ((now - prev) div 1000000) = (unat now - unat prev) div 1000000"
    using assms(1) by (simp add: unat_div_distrib unat_sub word_le_nat_alt)
  moreover have "(unat now - unat prev) div 1000000 + (stop - unat now) div 1000000 \<le>
      ((unat now - unat prev) + (stop - unat now)) div 1000000"
    using div_add1_eq [of "unat now - unat prev" "stop - unat now" 1000000] by simp
  moreover have "(unat now - unat prev) + (stop - unat now) = stop - unat prev" using assms by simp
  ultimately show ?thesis by (simp add: millis_def)
qed

lemma unat_ucast_le: "unat (ucast (w :: u64) :: u32) \<le> unat w"
  by (simp add: unsigned_ucast_eq take_bit_nat_less_eq_self)

lemma unat_ucast_up: "unat (ucast (w :: u32) :: u64) = unat w"
proof -
  have "unat w < 2 ^ 32" using unsigned_less [of w] by simp
  then show ?thesis by (simp add: unsigned_ucast_eq take_bit_nat_eq_self)
qed

lemma tokens_added_bound:
  fixes rate :: u32 and elapsed :: u64
  shows "1000 * unat (ucast (ucast rate * elapsed div 1000 :: u64) :: u32) \<le> unat rate * unat elapsed"
proof -
  have "unat (ucast (ucast rate * elapsed div 1000 :: u64) :: u32) \<le> unat (ucast rate * elapsed :: u64) div 1000"
    using unat_ucast_le [of "ucast rate * elapsed div 1000"] by (simp add: unat_div_distrib)
  also have "unat (ucast rate * elapsed :: u64) \<le> unat rate * unat elapsed"
    by (simp add: unat_word_ariths unat_ucast_up)
  finally have "unat (ucast (ucast rate * elapsed div 1000 :: u64) :: u32) \<le> (unat rate * unat elapsed) div 1000"
    by (metis div_le_mono order_trans)
  then show ?thesis using times_div_less_eq_dividend [of 1000 "unat rate * unat elapsed"] by linarith
qed

lemma unat_capped_sum: "unat (min (a + b) (c :: u32)) \<le> unat a + unat b"
proof -
  have "unat (min (a + b) c) \<le> unat (a + b)" by (simp add: word_le_nat_alt [symmetric])
  also have "\<dots> \<le> unat a + unat b" by (simp add: unat_word_ariths)
  finally show ?thesis .
qed

lemma refill_potential:
  assumes "unat (tb_last_refill b) \<le> unat now" "unat now \<le> stop"
  shows "potential stop (bucket_refill now b) \<le> potential stop b"
    "unat (tb_last_refill (bucket_refill now b)) \<le> unat now"
proof -
  define e where "e = (now - tb_last_refill b) div 1000000"
  define add :: u32 where "add = ucast (ucast (tb_refill_rate b) * e div 1000 :: u64)"
  let ?r = "unat (tb_refill_rate b)"
  have refill: "bucket_refill now b = (if e > 0 \<and> add > 0
      then b\<lparr>tb_last_refill := now, tb_tokens := min (tb_tokens b + add) (tb_max_tokens b)\<rparr> else b)"
    by (simp add: bucket_refill_def Let_def e_def add_def)
  show "unat (tb_last_refill (bucket_refill now b)) \<le> unat now" using assms(1) by (simp add: refill)
  have "1000 * unat add \<le> ?r * unat e" unfolding add_def by (rule tokens_added_bound)
  moreover have "?r * (unat e + millis stop now) \<le> ?r * millis stop (tb_last_refill b)"
    unfolding e_def by (intro mult_le_mono2 millis_split assms)
  moreover have "unat (min (tb_tokens b + add) (tb_max_tokens b)) \<le> unat (tb_tokens b) + unat add"
    by (rule unat_capped_sum)
  ultimately show "potential stop (bucket_refill now b) \<le> potential stop b"
    by (simp add: refill potential_def algebra_simps)
qed

lemma consume_potential:
  assumes "unat (tb_last_refill b) \<le> unat now" "unat now \<le> stop" "try_consume 1 now b = (ok, b')"
  shows "(if ok then 1000 else 0) + potential stop b' \<le> potential stop b"
    "unat (tb_last_refill b') \<le> unat now"
proof -
  note r = refill_potential [OF assms(1,2)]
  let ?b = "bucket_refill now b"
  have b': "b' = (if ok then ?b\<lparr>tb_tokens := tb_tokens ?b - 1\<rparr> else ?b)" "ok \<longleftrightarrow> \<not> tb_tokens ?b < 1"
    using assms(3) by (auto simp: try_consume_def Let_def split: if_splits)
  show "unat (tb_last_refill b') \<le> unat now" using r(2) by (simp add: b'(1))
  have "unat (tb_tokens ?b) = Suc (unat (tb_tokens ?b - 1))" if ok
  proof -
    have "tb_tokens ?b \<noteq> 0" using that b'(2) by auto
    then show ?thesis by (simp add: unat_minus_one unat_gt_0)
  qed
  then show "(if ok then 1000 else 0) + potential stop b' \<le> potential stop b"
    using r(1) by (auto simp: b'(1) potential_def)
qed

lemma consume_run_potential:
  assumes "consume_run ts b = (n, b')" "sorted (map unat (tb_last_refill b # ts))" "\<forall>t \<in> set ts. unat t \<le> stop"
  shows "1000 * n + potential stop b' \<le> potential stop b"
  using assms
proof (induction ts arbitrary: b n)
  case (Cons now ts)
  obtain ok b1 where c: "try_consume 1 now b = (ok, b1)" by force
  then obtain m where run: "consume_run ts b1 = (m, b')" and n: "n = (if ok then Suc m else m)"
    using Cons.prems(1) by (auto split: prod.splits if_splits)
  note p = consume_potential [OF _ _ c, of stop]
  have le: "unat (tb_last_refill b) \<le> unat now" "unat now \<le> stop" using Cons.prems by auto
  have "sorted (map unat (tb_last_refill b1 # ts))"
    using Cons.prems(2) p(2) [OF le] by (auto intro: order_trans)
  from Cons.IH [OF run this] Cons.prems(3) p(1) [OF le] show ?case by (auto simp: n split: if_splits)
qed simp

lemma refill_bytes [simp]: "tb_bytes_sent (bucket_refill now b) = tb_bytes_sent b"
  "tb_pid (bucket_refill now b) = tb_pid b"
  by (simp_all add: bucket_refill_def Let_def)

lemma try_consume_bytes: "try_consume k now b = (ok, b') \<Longrightarrow> tb_bytes_sent b' = tb_bytes_sent b \<and> tb_pid b' = tb_pid b"
  by (auto simp: try_consume_def Let_def split: if_splits)

section \<open>Properties\<close>

text \<open>
  C13. A token bucket enforces its rate: at any increasing sequence of times up to \<open>stop\<close> it lets
  through at most the tokens it had and those its refill rate yields for the milliseconds from
  the last refill to \<open>stop\<close>. This holds at the machine's precision, with every wrap-around of the
  32- and 64-bit arithmetic.
\<close>

theorem bucket_enforces_rate:
  assumes "sorted (map unat (tb_last_refill b # ts))" "\<forall>t \<in> set ts. unat t \<le> stop"
  shows "1000 * fst (consume_run ts b) \<le>
    1000 * unat (tb_tokens b) + unat (tb_refill_rate b) * ((stop - unat (tb_last_refill b)) div 1000000)"
  using consume_run_potential [OF prod.collapse [symmetric] assms] by (simp add: potential_def millis_def)

theorem bucket_enforces_rate_witness:
  "1000 * fst (consume_run [0, 20000000, 30000000] (bucket_new\<lparr>tb_tokens := 0\<rparr>)) \<le> 100 * (30 :: nat)"
  using bucket_enforces_rate [of "bucket_new\<lparr>tb_tokens := 0\<rparr>" "[0, 20000000, 30000000]" 30000000]
  by (simp add: bucket_new_def del: consume_run.simps)

lemma check_allowed_over_limit:
  assumes over: "max_bytes_per_sec limits < tb_bytes_sent (rl (bucket_index pid))" "max_bytes_per_sec limits > 0"
    and pid: "tb_pid (rl (bucket_index pid)) = pid"
    and nowrap: "unat (tb_bytes_sent (rl (bucket_index pid))) + unat sz < 2 ^ 64"
    and c: "check_allowed pid sz limits now rl = (r, rl')"
  shows "r = Err IpcRateLimitExceeded \<and> tb_pid (rl' (bucket_index pid)) = pid \<and>
    max_bytes_per_sec limits < tb_bytes_sent (rl' (bucket_index pid)) \<and>
    unat (tb_bytes_sent (rl' (bucket_index pid))) \<le> unat (tb_bytes_sent (rl (bucket_index pid))) + unat sz"
proof -
  let ?b = "rl (bucket_index pid)"
  have g: "get_or_create_bucket pid limits now rl = rl" using pid by (simp add: get_or_create_bucket_def Let_def)
  obtain ok b1 where t: "(if max_messages_per_sec limits > 0 then try_consume 1 now ?b else (True, ?b)) = (ok, b1)"
    by force
  have b1: "tb_bytes_sent b1 = tb_bytes_sent ?b" "tb_pid b1 = tb_pid ?b"
    using t try_consume_bytes by (auto split: if_splits)
  have sum: "unat (tb_bytes_sent ?b + sz) = unat (tb_bytes_sent ?b) + unat sz"
    using nowrap by (simp add: unat_word_ariths)
  then have "tb_bytes_sent ?b \<le> tb_bytes_sent ?b + sz" by (simp add: word_le_nat_alt)
  with over(1) have more: "max_bytes_per_sec limits < tb_bytes_sent ?b + sz" by (rule less_le_trans)
  show ?thesis
    using c t b1 sum more over pid by (cases ok) (auto simp: check_allowed_def g Let_def)
qed

text \<open>
  The bandwidth limit is a limit for ever, not per second: \<open>bytes_sent\<close> is never reset. Once a
  process has sent more than the limit, every further call fails, whatever time has passed,
  as long as the 64-bit counter does not wrap.
\<close>

theorem bandwidth_limit_never_recovers:
  assumes "max_bytes_per_sec limits > 0" "max_bytes_per_sec limits < tb_bytes_sent (rl (bucket_index pid))"
    and "tb_pid (rl (bucket_index pid)) = pid"
    and "unat (tb_bytes_sent (rl (bucket_index pid))) + sum_list (map (unat \<circ> snd) calls) < 2 ^ 64"
  shows "set (fst (check_run pid limits calls rl)) \<subseteq> {Err IpcRateLimitExceeded}"
  using assms
proof (induction calls arbitrary: rl)
  case (Cons call calls)
  obtain now sz where call: "call = (now, sz)" by force
  obtain r rl1 where c: "check_allowed pid sz limits now rl = (r, rl1)" by force
  have "unat (tb_bytes_sent (rl (bucket_index pid))) + unat sz < 2 ^ 64" using Cons.prems(4) by (simp add: call)
  note one = check_allowed_over_limit [OF Cons.prems(2,1,3) this c]
  have "set (fst (check_run pid limits calls rl1)) \<subseteq> {Err IpcRateLimitExceeded}"
    using one Cons.prems(1,4) by (intro Cons.IH) (auto simp: call)
  then show ?case using one c by (auto simp: call split: prod.splits)
qed simp

theorem bandwidth_limit_never_recovers_witness:
  "set (fst (check_run 5 rate_strict [(10 ^ 18, 100)] (limiter_new(5 := bucket_reset 5 100 100 0\<lparr>tb_bytes_sent := 2000000\<rparr>))))
     \<subseteq> {Err IpcRateLimitExceeded}"
  by (rule bandwidth_limit_never_recovers)
    (simp_all add: rate_strict_def bucket_index_def MAX_PROCESSES_def bucket_reset_def)

end
