(* ===== verification/Ipc_Channel.thy ===== *)
theory Ipc_Channel
  imports Ipc_Message Sched_Wait
begin

text \<open>
  Endpoints and channels (\<open>src/kernel/src/ipc/channel.rs\<close>). An operation returns its result, the new
  endpoint and the wake-ups it asks the scheduler for. The last section splits a receive and a
  send into the steps between which other processors can run: each lock of the endpoint is
  held for one step.
\<close>

section \<open>Endpoints\<close>

definition MAX_CHANNEL_QUEUE_SIZE :: nat where "MAX_CHANNEL_QUEUE_SIZE = 1024"

record waiting_process =
  wp_pid :: u64
  wp_message :: "message option"
  wp_timeout :: u64

record endpoint =
  ep_id :: u64
  ep_owner :: u64
  ep_bound_to :: "u64 option"
  ep_receive_queue :: "message list"
  ep_waiting_senders :: "waiting_process list"
  ep_waiting_receivers :: "waiting_process list"
  ep_active :: bool

text \<open>\<open>counter\<close> is \<open>ENDPOINT_COUNTER\<close>.\<close>

definition endpoint_new :: "u64 \<Rightarrow> u64 \<Rightarrow> endpoint \<times> u64" where
  "endpoint_new owner counter =
     (\<lparr>ep_id = counter, ep_owner = owner, ep_bound_to = None, ep_receive_queue = [],
       ep_waiting_senders = [], ep_waiting_receivers = [], ep_active = True\<rparr>, counter + 1)"

definition endpoint_bind :: "u64 \<Rightarrow> endpoint \<Rightarrow> (unit, ipc_error) result \<times> endpoint" where
  "endpoint_bind target ep =
     (case ep_bound_to ep of
        Some _ \<Rightarrow> (Err IpcEndpointBusy, ep)
      | None \<Rightarrow> (Ok (), ep\<lparr>ep_bound_to := Some target\<rparr>))"

text \<open>\<open>Vec::pop\<close> on the waiting receivers takes the one that came last.\<close>

definition send_sync :: "message \<Rightarrow> endpoint \<Rightarrow> (unit, ipc_error) result \<times> endpoint \<times> wake list" where
  "send_sync msg ep =
     (if \<not> ep_active ep then (Err IpcEndpointNotFound, ep, [])
      else if ep_waiting_receivers ep \<noteq> [] then
        (Ok (), ep\<lparr>ep_waiting_receivers := butlast (ep_waiting_receivers ep),
                   ep_receive_queue := ep_receive_queue ep @ [msg]\<rparr>,
         [WakeProcess (wp_pid (last (ep_waiting_receivers ep)))])
      else if length (ep_receive_queue ep) \<ge> MAX_CHANNEL_QUEUE_SIZE then (Err IpcChannelFull, ep, [])
      else (Ok (), ep\<lparr>ep_receive_queue := ep_receive_queue ep @ [msg]\<rparr>, []))"

text \<open>\<open>during\<close> is what the other processes do to the endpoint while the receiver is blocked.\<close>

definition receive_sync :: "(endpoint \<Rightarrow> endpoint) \<Rightarrow> u64 \<Rightarrow> endpoint \<Rightarrow> (message, ipc_error) result \<times> endpoint" where
  "receive_sync during receiver ep =
     (if \<not> ep_active ep then (Err IpcEndpointNotFound, ep)
      else
        (case ep_receive_queue ep of
           msg # rest \<Rightarrow> (Ok msg, ep\<lparr>ep_receive_queue := rest\<rparr>)
         | [] \<Rightarrow>
             let ep1 = during (ep\<lparr>ep_waiting_receivers := ep_waiting_receivers ep @
                         [\<lparr>wp_pid = receiver, wp_message = None, wp_timeout = 0\<rparr>]\<rparr>) in
             (case ep_receive_queue ep1 of
                msg # rest \<Rightarrow> (Ok msg, ep1\<lparr>ep_receive_queue := rest\<rparr>)
              | [] \<Rightarrow> (Err IpcWouldBlock, ep1))))"

definition send_async :: "message \<Rightarrow> endpoint \<Rightarrow> (unit, ipc_error) result \<times> endpoint \<times> wake list" where
  "send_async msg ep =
     (if \<not> ep_active ep then (Err IpcEndpointNotFound, ep, [])
      else if length (ep_receive_queue ep) \<ge> MAX_CHANNEL_QUEUE_SIZE then (Err IpcChannelFull, ep, [])
      else
        let ep1 = ep\<lparr>ep_receive_queue := ep_receive_queue ep @ [msg]\<rparr> in
        if ep_waiting_receivers ep1 \<noteq> [] then
          (Ok (), ep1\<lparr>ep_waiting_receivers := butlast (ep_waiting_receivers ep1)\<rparr>,
           [WakeProcess (wp_pid (last (ep_waiting_receivers ep1)))])
        else (Ok (), ep1, []))"

definition try_receive :: "endpoint \<Rightarrow> (message, ipc_error) result \<times> endpoint" where
  "try_receive ep =
     (if \<not> ep_active ep then (Err IpcEndpointNotFound, ep)
      else
        (case ep_receive_queue ep of
           msg # rest \<Rightarrow> (Ok msg, ep\<lparr>ep_receive_queue := rest\<rparr>)
         | [] \<Rightarrow> (Err IpcChannelEmpty, ep)))"

definition endpoint_close :: "endpoint \<Rightarrow> endpoint \<times> wake list" where
  "endpoint_close ep =
     (ep\<lparr>ep_active := False, ep_waiting_receivers := [], ep_waiting_senders := [], ep_receive_queue := []\<rparr>,
      map (WakeProcess \<circ> wp_pid) (ep_waiting_receivers ep @ ep_waiting_senders ep) @ [WakeEndpoint (ep_id ep)])"

section \<open>Channels\<close>

record channel =
  chan_send_endpoint :: endpoint
  chan_receive_endpoint :: endpoint
  chan_capacity :: nat

definition channel_new :: "u64 \<Rightarrow> nat \<Rightarrow> u64 \<Rightarrow> channel \<times> u64" where
  "channel_new owner capacity counter =
     (let (s, c1) = endpoint_new owner counter; (r, c2) = endpoint_new owner c1 in
      (\<lparr>chan_send_endpoint = s, chan_receive_endpoint = r,
        chan_capacity = min capacity MAX_CHANNEL_QUEUE_SIZE\<rparr>, c2))"

definition channel_send_id :: "channel \<Rightarrow> u64" where
  "channel_send_id ch = ep_id (chan_send_endpoint ch)"

definition channel_receive_id :: "channel \<Rightarrow> u64" where
  "channel_receive_id ch = ep_id (chan_receive_endpoint ch)"

definition channel_send :: "message \<Rightarrow> channel \<Rightarrow> (unit, ipc_error) result \<times> channel \<times> wake list" where
  "channel_send msg ch =
     (case send_async msg (chan_receive_endpoint ch) of
        (r, ep, ws) \<Rightarrow> (r, ch\<lparr>chan_receive_endpoint := ep\<rparr>, ws))"

definition channel_receive :: "channel \<Rightarrow> (message, ipc_error) result \<times> channel" where
  "channel_receive ch =
     (case try_receive (chan_receive_endpoint ch) of (r, ep) \<Rightarrow> (r, ch\<lparr>chan_receive_endpoint := ep\<rparr>))"

definition channel_close :: "channel \<Rightarrow> channel \<times> wake list" where
  "channel_close ch =
     (let (s, ws1) = endpoint_close (chan_send_endpoint ch);
          (r, ws2) = endpoint_close (chan_receive_endpoint ch)
      in (ch\<lparr>chan_send_endpoint := s, chan_receive_endpoint := r\<rparr>, ws1 @ ws2))"

definition fast_ipc_send :: "small_message \<Rightarrow> u64 \<Rightarrow> (unit, ipc_error) result \<times> wake list" where
  "fast_ipc_send msg target =
     (if sm_capability msg = 0 then (Err IpcInvalidCapability, [])
      else (Ok (), [WakeProcess target]))"

text \<open>
  The reply endpoint is a local of the call: no other process can reach it, so its queue is as
  it was created when the caller wakes up. The request with its flags set goes nowhere.
\<close>

definition call_reply :: "message \<Rightarrow> u64 \<Rightarrow> u64 \<Rightarrow> u64 \<Rightarrow> (message, ipc_error) result \<times> wake list \<times> u64" where
  "call_reply request target caller counter =
     (let (reply_endpoint, counter1) = endpoint_new caller counter;
          req = msg_set_flags (ucast (ep_id reply_endpoint)) request
      in (case ep_receive_queue reply_endpoint of
            reply # _ \<Rightarrow> (Ok reply, [WakeProcess target], counter1)
          | [] \<Rightarrow> (Err IpcWouldBlock, [WakeProcess target], counter1)))"

section \<open>Steps of a receive and a send\<close>

datatype receiver = RCheck | RRegister | RBlock | RBlocked | RDone "(message, ipc_error) result"

datatype sender = SPush | SPop | SWake u64 | SDone "(unit, ipc_error) result"

text \<open>
  The endpoint, which stays open, the scheduler, the receiving task with its progress and a
  sender with its message: \<open>receive_sync\<close> against \<open>send_async\<close>, after both have seen the endpoint active.
\<close>

record comm_state =
  cs_endpoint :: endpoint
  cs_sched :: sched_state
  cs_receiver :: receiver
  cs_sender :: sender

inductive comm_step :: "u64 \<Rightarrow> task_ptr \<Rightarrow> message \<Rightarrow> comm_state \<Rightarrow> comm_state \<Rightarrow> bool"
  for pid t msg where
  recv_take: "cs_receiver s = RCheck \<Longrightarrow> ep_receive_queue (cs_endpoint s) = m # rest \<Longrightarrow>
     comm_step pid t msg s (s\<lparr>cs_endpoint := (cs_endpoint s)\<lparr>ep_receive_queue := rest\<rparr>, cs_receiver := RDone (Ok m)\<rparr>)"
| recv_miss: "cs_receiver s = RCheck \<Longrightarrow> ep_receive_queue (cs_endpoint s) = [] \<Longrightarrow>
     comm_step pid t msg s (s\<lparr>cs_receiver := RRegister\<rparr>)"
| recv_register: "cs_receiver s = RRegister \<Longrightarrow>
     comm_step pid t msg s (s\<lparr>cs_endpoint := (cs_endpoint s)\<lparr>ep_waiting_receivers :=
        ep_waiting_receivers (cs_endpoint s) @ [\<lparr>wp_pid = pid, wp_message = None, wp_timeout = 0\<rparr>]\<rparr>,
        cs_receiver := RBlock\<rparr>)"
| recv_block: "cs_receiver s = RBlock \<Longrightarrow>
     comm_step pid t msg s (s\<lparr>cs_sched := block_on_ipc (ep_id (cs_endpoint s)) (cs_sched s), cs_receiver := RBlocked\<rparr>)"
| recv_resume: "cs_receiver s = RBlocked \<Longrightarrow> t_state (ss_tasks (cs_sched s) t) \<noteq> PsBlocked \<Longrightarrow>
     comm_step pid t msg s
       (case ep_receive_queue (cs_endpoint s) of
          m # rest \<Rightarrow> s\<lparr>cs_endpoint := (cs_endpoint s)\<lparr>ep_receive_queue := rest\<rparr>, cs_receiver := RDone (Ok m)\<rparr>
        | [] \<Rightarrow> s\<lparr>cs_receiver := RDone (Err IpcWouldBlock)\<rparr>)"
| send_full: "cs_sender s = SPush \<Longrightarrow> length (ep_receive_queue (cs_endpoint s)) \<ge> MAX_CHANNEL_QUEUE_SIZE \<Longrightarrow>
     comm_step pid t msg s (s\<lparr>cs_sender := SDone (Err IpcChannelFull)\<rparr>)"
| send_push: "cs_sender s = SPush \<Longrightarrow> length (ep_receive_queue (cs_endpoint s)) < MAX_CHANNEL_QUEUE_SIZE \<Longrightarrow>
     comm_step pid t msg s (s\<lparr>cs_endpoint := (cs_endpoint s)\<lparr>ep_receive_queue :=
        ep_receive_queue (cs_endpoint s) @ [msg]\<rparr>, cs_sender := SPop\<rparr>)"
| send_none: "cs_sender s = SPop \<Longrightarrow> ep_waiting_receivers (cs_endpoint s) = [] \<Longrightarrow>
     comm_step pid t msg s (s\<lparr>cs_sender := SDone (Ok ())\<rparr>)"
| send_pop: "cs_sender s = SPop \<Longrightarrow> ep_waiting_receivers (cs_endpoint s) \<noteq> [] \<Longrightarrow>
     comm_step pid t msg s (s\<lparr>cs_endpoint := (cs_endpoint s)\<lparr>ep_waiting_receivers :=
        butlast (ep_waiting_receivers (cs_endpoint s))\<rparr>,
        cs_sender := SWake (wp_pid (last (ep_waiting_receivers (cs_endpoint s))))\<rparr>)"
| send_wake: "cs_sender s = SWake p \<Longrightarrow>
     comm_step pid t msg s (s\<lparr>cs_sched := wake_up_process p (cs_sched s), cs_sender := SDone (Ok ())\<rparr>)"

inductive_cases comm_stepE: "comm_step pid t msg s s'"

section \<open>Lemmas\<close>

text \<open>The non-blocking operations on an active endpoint as those of a bounded queue.\<close>

definition ep_enq :: "message \<Rightarrow> endpoint \<Rightarrow> bool \<times> endpoint" where
  "ep_enq msg ep = (case send_async msg ep of (r, ep', _) \<Rightarrow> (is_ok r, ep'))"

definition ep_deq :: "endpoint \<Rightarrow> message option \<times> endpoint" where
  "ep_deq ep = (case try_receive ep of (Ok m, ep') \<Rightarrow> (Some m, ep') | (Err _, ep') \<Rightarrow> (None, ep'))"

definition ep_inv :: "endpoint \<Rightarrow> bool" where
  "ep_inv ep \<longleftrightarrow> ep_active ep \<and> length (ep_receive_queue ep) \<le> MAX_CHANNEL_QUEUE_SIZE"

interpretation ep: bounded_queue MAX_CHANNEL_QUEUE_SIZE ep_inv ep_receive_queue ep_enq ep_deq
proof
  fix q and x :: message
  assume q: "ep_inv q"
  show "length (ep_receive_queue q) \<le> MAX_CHANNEL_QUEUE_SIZE" using q by (simp add: ep_inv_def)
  show "ep_inv (snd (ep_enq x q))"
    using q by (auto simp: ep_inv_def ep_enq_def send_async_def Let_def)
  show "(fst (ep_enq x q), ep_receive_queue (snd (ep_enq x q))) =
      list_enq MAX_CHANNEL_QUEUE_SIZE x (ep_receive_queue q)"
    using q by (auto simp: ep_inv_def ep_enq_def send_async_def list_enq_def Let_def)
  show "ep_inv (snd (ep_deq q))"
    using q by (auto simp: ep_inv_def ep_deq_def try_receive_def split: list.splits)
  show "(fst (ep_deq q), ep_receive_queue (snd (ep_deq q))) = list_deq (ep_receive_queue q)"
    using q by (auto simp: ep_inv_def ep_deq_def try_receive_def split: list.splits)
qed

lemma endpoint_new_inv: "ep_inv (fst (endpoint_new owner c))" "ep_receive_queue (fst (endpoint_new owner c)) = []"
  by (simp_all add: ep_inv_def endpoint_new_def)

lemma block_on_ipc_current:
  "ss_current s = Some p \<Longrightarrow> t_state (ss_tasks (block_on_ipc e s) p) = PsBlocked"
  by (simp add: block_on_ipc_def Let_def add_to_wait_queue_def)

section \<open>Properties\<close>


text \<open>
  C37. A receiver can miss its wake-up: it looks at the queue before it registers as waiting, and
  registers before it blocks. A send that runs between the look and the registration leaves
  the message in the queue and wakes nobody, and the receiver then blocks. In the state reached
  the sender is done, the message is in the queue, the receiver's task is blocked and no step
  is possible any more.
\<close>

theorem receive_can_miss_wakeup:
  assumes "ss_current sched = Some t"
  shows "\<exists>s. (comm_step pid t msg)\<^sup>*\<^sup>*
      \<lparr>cs_endpoint = fst (endpoint_new owner c), cs_sched = sched, cs_receiver = RCheck, cs_sender = SPush\<rparr> s \<and>
    cs_receiver s = RBlocked \<and> cs_sender s = SDone (Ok ()) \<and> ep_receive_queue (cs_endpoint s) = [msg] \<and>
    t_state (ss_tasks (cs_sched s) t) = PsBlocked \<and> (\<forall>s'. \<not> comm_step pid t msg s s')"
proof -
  define s0 where "s0 = \<lparr>cs_endpoint = fst (endpoint_new owner c), cs_sched = sched, cs_receiver = RCheck, cs_sender = SPush\<rparr>"
  define s1 where "s1 = s0\<lparr>cs_receiver := RRegister\<rparr>"
  define s2 where "s2 = s1\<lparr>cs_endpoint := (cs_endpoint s1)\<lparr>ep_receive_queue :=
    ep_receive_queue (cs_endpoint s1) @ [msg]\<rparr>, cs_sender := SPop\<rparr>"
  define s3 where "s3 = s2\<lparr>cs_sender := SDone (Ok ())\<rparr>"
  define s4 where "s4 = s3\<lparr>cs_endpoint := (cs_endpoint s3)\<lparr>ep_waiting_receivers :=
    ep_waiting_receivers (cs_endpoint s3) @ [\<lparr>wp_pid = pid, wp_message = None, wp_timeout = 0\<rparr>]\<rparr>,
    cs_receiver := RBlock\<rparr>"
  define s5 where "s5 = s4\<lparr>cs_sched := block_on_ipc (ep_id (cs_endpoint s4)) (cs_sched s4), cs_receiver := RBlocked\<rparr>"
  note defs = s5_def s4_def s3_def s2_def s1_def s0_def endpoint_new_def
  have "comm_step pid t msg s0 s1" unfolding s1_def by (rule recv_miss) (simp_all add: defs)
  moreover have "comm_step pid t msg s1 s2"
    unfolding s2_def by (rule send_push) (simp_all add: defs MAX_CHANNEL_QUEUE_SIZE_def)
  moreover have "comm_step pid t msg s2 s3" unfolding s3_def by (rule send_none) (simp_all add: defs)
  moreover have "comm_step pid t msg s3 s4" unfolding s4_def by (rule recv_register) (simp add: defs)
  moreover have "comm_step pid t msg s4 s5" unfolding s5_def by (rule recv_block) (simp add: defs)
  ultimately have run: "(comm_step pid t msg)\<^sup>*\<^sup>* s0 s5"
    by (meson converse_rtranclp_into_rtranclp rtranclp.rtrancl_refl)
  have blocked: "t_state (ss_tasks (cs_sched s5) t) = PsBlocked"
    using block_on_ipc_current [OF assms] by (simp add: defs)
  have shape: "cs_receiver s5 = RBlocked" "cs_sender s5 = SDone (Ok ())" "ep_receive_queue (cs_endpoint s5) = [msg]"
    by (simp_all add: defs)
  have "\<forall>s'. \<not> comm_step pid t msg s5 s'" using blocked shape by (auto elim: comm_stepE)
  with run blocked shape show ?thesis unfolding s0_def by blast
qed

theorem receive_can_miss_wakeup_witness:
  "\<exists>s. (comm_step 1 7 (Small (small_new 0 3)))\<^sup>*\<^sup>*
      \<lparr>cs_endpoint = fst (endpoint_new 1 9), cs_sched = demo_sched, cs_receiver = RCheck, cs_sender = SPush\<rparr> s \<and>
    cs_receiver s = RBlocked \<and> ep_receive_queue (cs_endpoint s) = [Small (small_new 0 3)]"
proof -
  have "ss_current demo_sched = Some 7" by (simp add: demo_sched_def)
  from receive_can_miss_wakeup [OF this, of 1 "Small (small_new 0 3)" 1 9] show ?thesis by blast
qed

end
