(* ===== verification/Ipc_Registry.thy ===== *)
theory Ipc_Registry
  imports Ipc_Channel Ipc_Transfer
begin

text \<open>
  The registry of endpoints and channels (\<open>src/kernel/src/ipc/registry.rs\<close>). Identifiers come from two
  counters: endpoints are filed under \<open>next_endpoint_id\<close> of the registry, channels under the
  identifiers of their endpoints, which \<open>ENDPOINT_COUNTER\<close> of \<open>channel.rs\<close> gives out. Both kinds are
  entered in the table of the owning process.
\<close>

section \<open>State\<close>

record ipc_registry =
  rg_endpoints :: "(u64, endpoint) btree_map"
  rg_channels :: "(u64, channel) btree_map"
  rg_process_endpoints :: "(u64, (u64, ipc_capability) btree_map) btree_map"
  rg_next_endpoint_id :: u64
  rg_endpoints_created :: u64
  rg_endpoints_destroyed :: u64
  rg_channels_created :: u64
  rg_channels_destroyed :: u64
  rg_capability_lookups :: u64
  rg_capability_hits :: u64

definition registry_new :: ipc_registry where
  "registry_new = \<lparr>rg_endpoints = [], rg_channels = [], rg_process_endpoints = [], rg_next_endpoint_id = 1,
     rg_endpoints_created = 0, rg_endpoints_destroyed = 0, rg_channels_created = 0,
     rg_channels_destroyed = 0, rg_capability_lookups = 0, rg_capability_hits = 0\<rparr>"

text \<open>The registry with the two static counters its operations draw from.\<close>

record ipc_state =
  is_registry :: ipc_registry
  is_endpoint_counter :: u64
  is_capability_counter :: u64

definition ipc_boot :: ipc_state where
  "ipc_boot = \<lparr>is_registry = registry_new, is_endpoint_counter = 1, is_capability_counter = 1\<rparr>"

definition process_caps :: "u64 \<Rightarrow> ipc_registry \<Rightarrow> (u64, ipc_capability) btree_map" where
  "process_caps owner rg = (case bt_get (rg_process_endpoints rg) owner of None \<Rightarrow> [] | Some m \<Rightarrow> m)"

definition add_process_cap :: "u64 \<Rightarrow> u64 \<Rightarrow> ipc_capability \<Rightarrow> ipc_registry \<Rightarrow> ipc_registry" where
  "add_process_cap owner i cap rg =
     rg\<lparr>rg_process_endpoints :=
       bt_insert owner (bt_insert i cap (process_caps owner rg)) (rg_process_endpoints rg)\<rparr>"

section \<open>Operations\<close>

definition create_endpoint :: "u64 \<Rightarrow> ipc_state \<Rightarrow> (u64 \<times> ipc_capability) \<times> ipc_state" where
  "create_endpoint owner s =
     (let rg = is_registry s;
          endpoint_id = rg_next_endpoint_id rg;
          (ep, counter) = endpoint_new owner (is_endpoint_counter s);
          (cap, cap_counter) = ipc_cap_new endpoint_id permissions_all (is_capability_counter s);
          rg1 = add_process_cap owner endpoint_id cap
                  (rg\<lparr>rg_next_endpoint_id := endpoint_id + 1,
                      rg_endpoints := bt_insert endpoint_id ep (rg_endpoints rg)\<rparr>)
      in ((endpoint_id, cap),
          \<lparr>is_registry = rg1\<lparr>rg_endpoints_created := rg_endpoints_created rg1 + 1\<rparr>,
           is_endpoint_counter = counter, is_capability_counter = cap_counter\<rparr>))"

definition create_channel :: "u64 \<Rightarrow> nat \<Rightarrow> ipc_state \<Rightarrow>
    (u64 \<times> u64 \<times> ipc_capability \<times> ipc_capability) \<times> ipc_state" where
  "create_channel owner capacity s =
     (let rg = is_registry s;
          (ch, counter) = channel_new owner capacity (is_endpoint_counter s);
          send_id = channel_send_id ch;
          recv_id = channel_receive_id ch;
          (send_cap, c1) = ipc_cap_new send_id permissions_send_only (is_capability_counter s);
          (recv_cap, c2) = ipc_cap_new recv_id permissions_receive_only c1;
          rg1 = add_process_cap owner recv_id recv_cap (add_process_cap owner send_id send_cap
                  (rg\<lparr>rg_channels := bt_insert send_id ch (rg_channels rg)\<rparr>))
      in ((send_id, recv_id, send_cap, recv_cap),
          \<lparr>is_registry = rg1\<lparr>rg_channels_created := rg_channels_created rg1 + 1\<rparr>,
           is_endpoint_counter = counter, is_capability_counter = c2\<rparr>))"

definition lookup_endpoint :: "u64 \<Rightarrow> ipc_registry \<Rightarrow> endpoint option \<times> ipc_registry" where
  "lookup_endpoint i rg =
     (let rg1 = rg\<lparr>rg_capability_lookups := rg_capability_lookups rg + 1\<rparr> in
      case bt_get (rg_endpoints rg1) i of
        Some ep \<Rightarrow> (Some ep, rg1\<lparr>rg_capability_hits := rg_capability_hits rg1 + 1\<rparr>)
      | None \<Rightarrow> (None, rg1))"

text \<open>\<open>procs\<close> is the process table: the capability space of a live process.\<close>

definition validate_capability :: "(u64 \<Rightarrow> u64 option) \<Rightarrow> u64 \<Rightarrow> ipc_capability \<Rightarrow> ipc_registry \<Rightarrow> cap_system \<Rightarrow>
    (unit, ipc_error) result \<times> ipc_registry \<times> cap_system" where
  "validate_capability procs process cap rg sys =
     (let rg1 = rg\<lparr>rg_capability_lookups := rg_capability_lookups rg + 1\<rparr> in
      case bt_get (rg_process_endpoints rg1) process of
        None \<Rightarrow> (Err IpcInvalidCapability, rg1, sys)
      | Some caps \<Rightarrow>
          (case bt_get caps (ic_target cap) of
             None \<Rightarrow> (Err IpcInvalidCapability, rg1, sys)
           | Some stored \<Rightarrow>
               if ipc_cap_generation stored = ipc_cap_generation cap then
                 let rg2 = rg1\<lparr>rg_capability_hits := rg_capability_hits rg1 + 1\<rparr> in
                 (case procs process of
                    None \<Rightarrow> (Ok (), rg2, sys)
                  | Some sp \<Rightarrow>
                      (case space_lookup (sys_spaces sys sp) (token_from_u64 (ipc_cap_id cap)) of
                         (Some _, s) \<Rightarrow> (Ok (), rg2, set_space sp s sys)
                       | (None, s) \<Rightarrow> (Err IpcInvalidCapability, rg2, set_space sp s sys)))
               else (Err IpcInvalidCapability, rg1, sys)))"

definition remove_endpoint :: "u64 \<Rightarrow> u64 \<Rightarrow> ipc_registry \<Rightarrow> (unit, ipc_error) result \<times> ipc_registry" where
  "remove_endpoint i owner rg =
     (case bt_get (rg_endpoints rg) i of
        None \<Rightarrow> (Err IpcEndpointNotFound, rg)
      | Some ep \<Rightarrow>
          if ep_owner ep \<noteq> owner then (Err IpcPermissionDenied, rg)
          else
            let rg1 = rg\<lparr>rg_endpoints := bt_remove i (rg_endpoints rg)\<rparr>;
                rg2 = (case bt_get (rg_process_endpoints rg1) owner of
                         None \<Rightarrow> rg1
                       | Some caps \<Rightarrow> rg1\<lparr>rg_process_endpoints :=
                           bt_insert owner (bt_remove i caps) (rg_process_endpoints rg1)\<rparr>)
            in (Ok (), rg2\<lparr>rg_endpoints_destroyed := rg_endpoints_destroyed rg2 + 1\<rparr>))"

definition remove_channel :: "u64 \<Rightarrow> ipc_registry \<Rightarrow> (unit, ipc_error) result \<times> ipc_registry" where
  "remove_channel i rg =
     (if bt_get (rg_channels rg) i \<noteq> None
      then (Ok (), rg\<lparr>rg_channels := bt_remove i (rg_channels rg),
                      rg_channels_destroyed := rg_channels_destroyed rg + 1\<rparr>)
      else if bt_get (rg_endpoints rg) i \<noteq> None
      then (Ok (), rg\<lparr>rg_endpoints := bt_remove i (rg_endpoints rg),
                      rg_endpoints_destroyed := rg_endpoints_destroyed rg + 1\<rparr>)
      else (Err IpcEndpointNotFound, rg))"

definition remove_listed :: "u64 \<Rightarrow> nat \<times> ipc_registry \<Rightarrow> nat \<times> ipc_registry" where
  "remove_listed i st =
     (case st of (n, rg) \<Rightarrow>
        let (n1, rg1) = (if bt_get (rg_endpoints rg) i \<noteq> None
               then (n + 1, rg\<lparr>rg_endpoints := bt_remove i (rg_endpoints rg),
                              rg_endpoints_destroyed := rg_endpoints_destroyed rg + 1\<rparr>)
               else (n, rg))
        in (n1, if bt_get (rg_channels rg1) i \<noteq> None
               then rg1\<lparr>rg_channels := bt_remove i (rg_channels rg1),
                        rg_channels_destroyed := rg_channels_destroyed rg1 + 1\<rparr>
               else rg1))"

definition remove_process_endpoints :: "u64 \<Rightarrow> ipc_registry \<Rightarrow> nat \<times> ipc_registry" where
  "remove_process_endpoints owner rg =
     (let endpoint_ids = map fst (process_caps owner rg);
          (n, rg1) = fold remove_listed endpoint_ids (0, rg)
      in (n, rg1\<lparr>rg_process_endpoints := bt_remove owner (rg_process_endpoints rg1)\<rparr>))"

definition cache_hit_rate :: "ipc_registry \<Rightarrow> u64" where
  "cache_hit_rate rg =
     (if rg_capability_lookups rg > 0 then (rg_capability_hits rg * 100) div rg_capability_lookups rg else 0)"

section \<open>Reachable registries\<close>

definition with_registry :: "(ipc_registry \<Rightarrow> ipc_registry) \<Rightarrow> ipc_state \<Rightarrow> ipc_state" where
  "with_registry f s = s\<lparr>is_registry := f (is_registry s)\<rparr>"

inductive ipc_reachable :: "ipc_state \<Rightarrow> bool" where
  ipc_start: "ipc_reachable ipc_boot"
| ipc_create_endpoint: "ipc_reachable s \<Longrightarrow> ipc_reachable (snd (create_endpoint owner s))"
| ipc_create_channel: "ipc_reachable s \<Longrightarrow> ipc_reachable (snd (create_channel owner capacity s))"
| ipc_lookup: "ipc_reachable s \<Longrightarrow> ipc_reachable (with_registry (\<lambda>rg. snd (lookup_endpoint i rg)) s)"
| ipc_remove_endpoint: "ipc_reachable s \<Longrightarrow> ipc_reachable (with_registry (\<lambda>rg. snd (remove_endpoint i owner rg)) s)"
| ipc_remove_channel: "ipc_reachable s \<Longrightarrow> ipc_reachable (with_registry (\<lambda>rg. snd (remove_channel i rg)) s)"
| ipc_remove_process: "ipc_reachable s \<Longrightarrow>
    ipc_reachable (with_registry (\<lambda>rg. snd (remove_process_endpoints owner rg)) s)"

text \<open>Every endpoint is entered in the table of its owner.\<close>

definition listed :: "ipc_registry \<Rightarrow> bool" where
  "listed rg \<longleftrightarrow> (\<forall>i ep. bt_get (rg_endpoints rg) i = Some ep \<longrightarrow> i \<in> fst ` set (process_caps (ep_owner ep) rg))"

section \<open>Lemmas\<close>

lemma process_caps_add:
  "process_caps o' (add_process_cap owner i cap rg) =
     (if o' = owner then bt_insert i cap (process_caps owner rg) else process_caps o' rg)"
  by (simp add: process_caps_def add_process_cap_def bt_get_insert)

lemma process_caps_upd [simp]:
  "process_caps o' (rg\<lparr>rg_endpoints := e\<rparr>) = process_caps o' rg"
  "process_caps o' (rg\<lparr>rg_channels := c\<rparr>) = process_caps o' rg"
  "process_caps o' (rg\<lparr>rg_next_endpoint_id := n\<rparr>) = process_caps o' rg"
  "process_caps o' (rg\<lparr>rg_endpoints_created := n\<rparr>) = process_caps o' rg"
  "process_caps o' (rg\<lparr>rg_endpoints_destroyed := n\<rparr>) = process_caps o' rg"
  "process_caps o' (rg\<lparr>rg_channels_created := n\<rparr>) = process_caps o' rg"
  "process_caps o' (rg\<lparr>rg_channels_destroyed := n\<rparr>) = process_caps o' rg"
  "process_caps o' (rg\<lparr>rg_capability_lookups := n\<rparr>) = process_caps o' rg"
  "process_caps o' (rg\<lparr>rg_capability_hits := n\<rparr>) = process_caps o' rg"
  by (simp_all add: process_caps_def)

lemma endpoints_add_process_cap [simp]: "rg_endpoints (add_process_cap owner i cap rg) = rg_endpoints rg"
  by (simp add: add_process_cap_def)

lemma create_endpoint_spec:
  assumes "create_endpoint owner s = ((i, cap), s')"
  shows "i = rg_next_endpoint_id (is_registry s)"
    "\<exists>ep. bt_get (rg_endpoints (is_registry s')) i = Some ep \<and> ep_owner ep = owner"
    "process_caps o' (is_registry s') =
       (if o' = owner then bt_insert i cap (process_caps owner (is_registry s)) else process_caps o' (is_registry s))"
  using assms by (auto simp: create_endpoint_def Let_def endpoint_new_def process_caps_add bt_get_insert
      split: prod.splits)

lemma listed_create_endpoint:
  assumes "listed (is_registry s)"
  shows "listed (is_registry (snd (create_endpoint owner s)))"
  using assms
  by (auto simp: listed_def create_endpoint_def Let_def process_caps_add bt_get_insert bt_keys_insert
      endpoint_new_def ipc_cap_new_def)

lemma listed_create_channel:
  assumes "listed (is_registry s)"
  shows "listed (is_registry (snd (create_channel owner capacity s)))"
proof -
  have "is_registry (snd (create_channel owner capacity s)) =
      (let ch = fst (channel_new owner capacity (is_endpoint_counter s));
           rg = is_registry s;
           rg1 = add_process_cap owner (channel_receive_id ch)
             (fst (ipc_cap_new (channel_receive_id ch) permissions_receive_only (is_capability_counter s + 1)))
             (add_process_cap owner (channel_send_id ch)
               (fst (ipc_cap_new (channel_send_id ch) permissions_send_only (is_capability_counter s)))
               (rg\<lparr>rg_channels := bt_insert (channel_send_id ch) ch (rg_channels rg)\<rparr>))
       in rg1\<lparr>rg_channels_created := rg_channels_created rg1 + 1\<rparr>)"
    by (simp add: create_channel_def Let_def ipc_cap_new_def split: prod.splits)
  then show ?thesis
    using assms by (auto simp: listed_def Let_def process_caps_add bt_keys_insert)
qed

lemma listed_subset:
  assumes "listed rg" "\<And>i ep. bt_get (rg_endpoints rg') i = Some ep \<Longrightarrow> bt_get (rg_endpoints rg) i = Some ep"
    "rg_process_endpoints rg' = rg_process_endpoints rg"
  shows "listed rg'"
  using assms unfolding listed_def process_caps_def by metis

lemma listed_remove_endpoint:
  assumes "listed rg"
  shows "listed (snd (remove_endpoint i owner rg))"
proof (cases "bt_get (rg_endpoints rg) i")
  case (Some ep)
  show ?thesis
  proof (cases "ep_owner ep = owner")
    case True
    have keys: "fst ` set (bt_remove i caps) = fst ` set caps - {i}" for caps :: "(u64, ipc_capability) btree_map"
      by (auto simp: bt_remove_def)
    have "j \<in> fst ` set (process_caps (ep_owner e) (snd (remove_endpoint i owner rg)))"
      if "bt_get (rg_endpoints (snd (remove_endpoint i owner rg))) j = Some e" for j e
    proof -
      have j: "bt_get (rg_endpoints rg) j = Some e" "j \<noteq> i"
        using that Some True by (auto simp: remove_endpoint_def Let_def bt_get_remove split: option.splits if_splits)
      then have "j \<in> fst ` set (process_caps (ep_owner e) rg)" using assms by (auto simp: listed_def)
      then show ?thesis
        using Some True j(2)
        by (auto simp: remove_endpoint_def Let_def process_caps_def bt_get_insert keys split: option.splits)
    qed
    then show ?thesis by (simp add: listed_def)
  next
    case False
    with Some assms show ?thesis by (simp add: remove_endpoint_def)
  qed
qed (use assms in \<open>simp add: remove_endpoint_def\<close>)

lemma listed_remove_channel:
  assumes "listed rg"
  shows "listed (snd (remove_channel i rg))"
  using assms by (auto simp: remove_channel_def bt_get_remove intro!: listed_subset [OF assms] split: if_splits)

lemma remove_listed_spec:
  assumes "remove_listed i (n, rg) = (n', rg')"
  shows "bt_get (rg_endpoints rg') j = (if j = i then None else bt_get (rg_endpoints rg) j)"
    "rg_process_endpoints rg' = rg_process_endpoints rg"
  using assms by (auto simp: remove_listed_def Let_def bt_get_remove split: if_splits)

lemma remove_listed_fold:
  assumes "fold remove_listed is (n, rg) = (n', rg')"
  shows "bt_get (rg_endpoints rg') j = (if j \<in> set is then None else bt_get (rg_endpoints rg) j)"
    "rg_process_endpoints rg' = rg_process_endpoints rg"
proof -
  have "bt_get (rg_endpoints rg') j = (if j \<in> set is then None else bt_get (rg_endpoints rg) j) \<and>
    rg_process_endpoints rg' = rg_process_endpoints rg"
    using assms
  proof (induction "is" arbitrary: n rg)
    case (Cons i "is")
    obtain n1 rg1 where r: "remove_listed i (n, rg) = (n1, rg1)" by force
    with Cons.prems have "fold remove_listed is (n1, rg1) = (n', rg')" by simp
    from Cons.IH [OF this] remove_listed_spec [OF r] show ?case by auto
  qed simp
  then show "bt_get (rg_endpoints rg') j = (if j \<in> set is then None else bt_get (rg_endpoints rg) j)"
    "rg_process_endpoints rg' = rg_process_endpoints rg" by simp_all
qed

lemma remove_process_spec:
  "bt_get (rg_endpoints (snd (remove_process_endpoints owner rg))) j =
     (if j \<in> fst ` set (process_caps owner rg) then None else bt_get (rg_endpoints rg) j)"
  "process_caps o' (snd (remove_process_endpoints owner rg)) = (if o' = owner then [] else process_caps o' rg)"
proof -
  obtain n rg1 where f: "fold remove_listed (map fst (process_caps owner rg)) (0, rg) = (n, rg1)" by force
  note r = remove_listed_fold [OF f]
  have e: "snd (remove_process_endpoints owner rg) =
      rg1\<lparr>rg_process_endpoints := bt_remove owner (rg_process_endpoints rg)\<rparr>"
    by (simp add: remove_process_endpoints_def f r(2))
  show "bt_get (rg_endpoints (snd (remove_process_endpoints owner rg))) j =
     (if j \<in> fst ` set (process_caps owner rg) then None else bt_get (rg_endpoints rg) j)"
    using r(1) by (simp add: e)
  show "process_caps o' (snd (remove_process_endpoints owner rg)) = (if o' = owner then [] else process_caps o' rg)"
    by (simp add: e process_caps_def bt_get_remove)
qed

lemma listed_remove_process:
  assumes "listed rg"
  shows "listed (snd (remove_process_endpoints owner rg))"
proof -
  have "j \<in> fst ` set (process_caps (ep_owner e) (snd (remove_process_endpoints owner rg)))"
    if "bt_get (rg_endpoints (snd (remove_process_endpoints owner rg))) j = Some e" for j e
  proof -
    have j: "j \<notin> fst ` set (process_caps owner rg)" "bt_get (rg_endpoints rg) j = Some e"
      using that by (auto simp: remove_process_spec(1) split: if_splits)
    then have "j \<in> fst ` set (process_caps (ep_owner e) rg)" using assms by (simp add: listed_def)
    with j(1) show ?thesis by (auto simp: remove_process_spec(2))
  qed
  then show ?thesis by (simp add: listed_def)
qed

lemma ipc_reachable_listed: "ipc_reachable s \<Longrightarrow> listed (is_registry s)"
proof (induction rule: ipc_reachable.induct)
  case ipc_start
  show ?case by (simp add: listed_def ipc_boot_def registry_new_def bt.get_empty)
next
  case (ipc_lookup s i)
  then show ?case
    by (auto simp: with_registry_def lookup_endpoint_def Let_def listed_def split: option.splits)
qed (simp_all add: with_registry_def listed_create_endpoint listed_create_channel listed_remove_endpoint
    listed_remove_channel listed_remove_process)

section \<open>Properties\<close>



text \<open>
  Cleanup is not confined to the process: identifiers of channels and of endpoints come from
  different counters and collide, and \<open>remove_process_endpoints\<close> does not look at the owner. After
  boot, when process \<open>p\<close> creates a channel and process \<open>q\<close> then an endpoint, the cleanup of \<open>p\<close>
  removes the endpoint of \<open>q\<close>.
\<close>

theorem cleanup_removes_foreign_endpoint:
  assumes "p \<noteq> q" "create_channel p capacity ipc_boot = (ids, s1)" "create_endpoint q s1 = ((i, cap), s2)"
  shows "(\<exists>ep. bt_get (rg_endpoints (is_registry s2)) i = Some ep \<and> ep_owner ep = q) \<and>
    bt_get (rg_endpoints (snd (remove_process_endpoints p (is_registry s2)))) i = None"
proof -
  note e = create_endpoint_spec [OF assms(3)]
  have s1: "rg_next_endpoint_id (is_registry s1) = 1" "1 \<in> set (map fst (process_caps p (is_registry s1)))"
    using assms(2)
    by (auto simp: create_channel_def ipc_boot_def registry_new_def Let_def endpoint_new_def channel_new_def
        channel_send_id_def channel_receive_id_def ipc_cap_new_def add_process_cap_def process_caps_def bt_get_def
        simp del: set_map)
  have i: "i = 1" using e(1) s1(1) by simp
  have ep: "\<exists>ep. bt_get (rg_endpoints (is_registry s2)) i = Some ep \<and> ep_owner ep = q" by (rule e(2))
  have caps: "1 \<in> fst ` set (process_caps p (is_registry s2))" using e(3) [of p] s1(2) assms(1) by (simp only: set_map if_False)
  show ?thesis using ep caps by (simp add: remove_process_spec(1) i)
qed

theorem cleanup_removes_foreign_endpoint_witness:
  "bt_get (rg_endpoints (snd (remove_process_endpoints 3
      (is_registry (snd (create_endpoint 4 (snd (create_channel 3 16 ipc_boot)))))))) 1 = None"
proof -
  let ?c = "create_channel 3 16 ipc_boot"
  have i: "fst (fst (create_endpoint 4 (snd ?c))) = 1" by code_simp
  have e: "create_endpoint 4 (snd ?c) = ((fst (fst (create_endpoint 4 (snd ?c))), snd (fst (create_endpoint 4 (snd ?c)))),
      snd (create_endpoint 4 (snd ?c)))" by (metis prod.collapse)
  show ?thesis
    using cleanup_removes_foreign_endpoint [OF _ prod.collapse [symmetric] e] unfolding i by simp
qed

end
