(* ===== verification/Mm_Bitmap.thy ===== *)
theory Mm_Bitmap
  imports Prelude
begin

text \<open>
  Frame numbers, memory zones and the bitmap half of the physical frame allocator
  (\<open>src/kernel/src/mm/frame_allocator.rs\<close>).

  A \<open>FrameNumber\<close> and a \<open>PhysicalAddress\<close> are the words they wrap. The bitmap is the list of its words
  and carries one bit per frame, set when the frame is free. Loop variables of the scan are natural
  numbers, since they stay below 131072. An array access out of range is the outcome \<open>Panic\<close>.

  The scan is proved to be first fit (by an invariant on the position reached), allocation and release
  to be inverse on the frames of the node, and the map to contain frames that the node does not have.
\<close>

section \<open>Frame numbers, addresses and zones\<close>

type_synonym frame_number = u64
type_synonym physical_address = u64

definition FRAME_SIZE :: usize where
  "FRAME_SIZE = 4096"

definition BITMAP_BUDDY_THRESHOLD :: usize where
  "BITMAP_BUDDY_THRESHOLD = 512"

definition MAX_NUMA_NODES :: nat where
  "MAX_NUMA_NODES = 8"

definition BITMAP_WORDS :: nat where
  "BITMAP_WORDS = 2048"

definition as_addr :: "frame_number \<Rightarrow> physical_address" where
  "as_addr f = f * FRAME_SIZE"

definition as_frame :: "physical_address \<Rightarrow> frame_number" where
  "as_frame a = a div FRAME_SIZE"

datatype memory_zone = Dma | Normal | High

fun frame_range :: "memory_zone \<Rightarrow> frame_number \<times> frame_number" where
  "frame_range Dma = (0, 4096)"
| "frame_range Normal = (4096, drop_bit 12 (- 1))"
| "frame_range High = (0, 0)"

definition zone_contains :: "memory_zone \<Rightarrow> frame_number \<Rightarrow> bool" where
  "zone_contains z f = (case frame_range z of (start, end) \<Rightarrow> start \<le> f \<and> f < end)"

definition for_frame :: "frame_number \<Rightarrow> memory_zone" where
  "for_frame f = (if zone_contains Dma f then Dma else Normal)"

datatype frame_error =
    OutOfMemory | InvalidFrame | InvalidSize | InvalidNumaNode | ReservedMemoryConflict

section \<open>The bitmap allocator\<close>

record bitmap_allocator =
  bm_bits :: "u64 list"
  bm_start :: frame_number
  bm_total :: usize
  bm_free_frames :: usize

definition bm_new :: "frame_number \<Rightarrow> usize \<Rightarrow> bitmap_allocator" where
  "bm_new start_frame frame_count =
     \<lparr>bm_bits = replicate BITMAP_WORDS (- 1), bm_start = start_frame, bm_total = frame_count,
      bm_free_frames = frame_count\<rparr>"

definition test_bit :: "u64 \<Rightarrow> nat \<Rightarrow> bool" where
  "test_bit word b = (word AND push_bit b 1 \<noteq> 0)"

text \<open>
  The search. The inner loop runs over the bits of a word and either ends with the two loop
  variables \<open>consecutive\<close> and \<open>start_bit\<close>, or finds the run and leaves with its first bit.
\<close>

function scan_bits :: "u64 \<Rightarrow> nat \<Rightarrow> nat \<Rightarrow> nat \<Rightarrow> nat \<Rightarrow> nat \<Rightarrow> (nat \<times> nat) + nat" where
  "scan_bits word word_idx count b consecutive start_bit =
     (if 64 \<le> b then Inl (consecutive, start_bit)
      else if test_bit word b then
        let start_bit' = (if consecutive = 0 then word_idx * 64 + b else start_bit) in
        if consecutive + 1 = count then Inr start_bit'
        else scan_bits word word_idx count (b + 1) (consecutive + 1) start_bit'
      else scan_bits word word_idx count (b + 1) 0 start_bit)"
  by auto
termination by (relation "measure (\<lambda>(_, _, _, b, _, _). 64 - b)") auto

declare scan_bits.simps [simp del]

fun scan_words :: "u64 list \<Rightarrow> nat \<Rightarrow> nat \<Rightarrow> nat \<Rightarrow> nat \<Rightarrow> nat option" where
  "scan_words [] word_idx count consecutive start_bit = None"
| "scan_words (word # ws) word_idx count consecutive start_bit =
     (if word = 0 then scan_words ws (word_idx + 1) count 0 start_bit
      else case scan_bits word word_idx count 0 consecutive start_bit of
        Inr first_frame \<Rightarrow> Some first_frame
      | Inl (consecutive', start_bit') \<Rightarrow> scan_words ws (word_idx + 1) count consecutive' start_bit')"

definition clear_bit_at :: "u64 list \<Rightarrow> nat \<Rightarrow> u64 list" where
  "clear_bit_at bits frame_bit =
     bits[frame_bit div 64 := bits ! (frame_bit div 64) AND NOT (push_bit (frame_bit mod 64) 1)]"

definition set_bit_at :: "u64 list \<Rightarrow> nat \<Rightarrow> u64 list" where
  "set_bit_at bits frame_bit =
     bits[frame_bit div 64 := bits ! (frame_bit div 64) OR push_bit (frame_bit mod 64) 1]"

definition clear_bits :: "u64 list \<Rightarrow> nat \<Rightarrow> nat \<Rightarrow> u64 list" where
  "clear_bits bits first_frame count = fold (\<lambda>i bs. clear_bit_at bs (first_frame + i)) [0..<count] bits"

definition bm_allocate ::
    "bitmap_allocator \<Rightarrow> usize \<Rightarrow> (frame_number, frame_error) result \<times> bitmap_allocator" where
  "bm_allocate a count =
     (if count = 0 \<or> BITMAP_BUDDY_THRESHOLD \<le> count then (Err InvalidSize, a)
      else case scan_words (bm_bits a) 0 (unat count) 0 0 of
        None \<Rightarrow> (Err OutOfMemory, a)
      | Some first_frame \<Rightarrow>
          (Ok (bm_start a + of_nat first_frame),
           a\<lparr>bm_bits := clear_bits (bm_bits a) first_frame (unat count),
             bm_free_frames := bm_free_frames a - count\<rparr>))"

definition bm_mark_used ::
    "bitmap_allocator \<Rightarrow> frame_number \<Rightarrow> ((unit, frame_error) result \<times> bitmap_allocator) outcome" where
  "bm_mark_used a frame =
     (if frame < bm_start a \<or> bm_start a + bm_total a \<le> frame then Done (Ok (), a)
      else
        let offset = unat (frame - bm_start a) in
        if length (bm_bits a) \<le> offset div 64 then Panic
        else if test_bit (bm_bits a ! (offset div 64)) (offset mod 64) then
          Done (Ok (), a\<lparr>bm_bits := clear_bit_at (bm_bits a) offset,
                         bm_free_frames := bm_free_frames a - 1\<rparr>)
        else Done (Ok (), a))"

text \<open>The loop of \<open>free\<close>; the flag tells whether it ran to its end.\<close>

fun free_bits :: "u64 list \<Rightarrow> nat \<Rightarrow> nat \<Rightarrow> (bool \<times> u64 list) outcome" where
  "free_bits bits frame_bit 0 = Done (True, bits)"
| "free_bits bits frame_bit (Suc n) =
     (if length bits \<le> frame_bit div 64 then Panic
      else if test_bit (bits ! (frame_bit div 64)) (frame_bit mod 64) then Done (False, bits)
      else free_bits (set_bit_at bits frame_bit) (frame_bit + 1) n)"

definition bm_free ::
    "bitmap_allocator \<Rightarrow> frame_number \<Rightarrow> usize \<Rightarrow> ((unit, frame_error) result \<times> bitmap_allocator) outcome" where
  "bm_free a frame count =
     (let offset = frame - bm_start a in
      if bm_total a < offset + count then Done (Err InvalidFrame, a)
      else case free_bits (bm_bits a) (unat offset) (unat count) of
        Panic \<Rightarrow> Panic
      | Done (False, bits) \<Rightarrow> Done (Err InvalidFrame, a\<lparr>bm_bits := bits\<rparr>)
      | Done (True, bits) \<Rightarrow>
          Done (Ok (), a\<lparr>bm_bits := bits, bm_free_frames := bm_free_frames a + count\<rparr>))"

definition bm_free_count :: "bitmap_allocator \<Rightarrow> usize" where
  "bm_free_count a = bm_free_frames a"

section \<open>Bits of the map\<close>

definition bit_at :: "u64 list \<Rightarrow> nat \<Rightarrow> bool" where
  "bit_at bits j = (j < 64 * length bits \<and> bit (bits ! (j div 64)) (j mod 64))"

lemma test_bit_iff: "b < 64 \<Longrightarrow> test_bit w b \<longleftrightarrow> bit w b"
  unfolding test_bit_def
  by (metis and_exp_eq_0_iff_not_bit push_bit_of_1)

lemma index_lt: "j < 64 * n \<longleftrightarrow> j div 64 < (n::nat)"
  by (simp add: div_less_iff_less_mult mult.commute)

lemma test_bit_at:
  "j div 64 < length bits \<Longrightarrow> test_bit (bits ! (j div 64)) (j mod 64) \<longleftrightarrow> bit_at bits j"
  by (simp add: test_bit_iff bit_at_def index_lt)

lemma bit_at_Cons: "bit_at (w # ws) (64 + j) \<longleftrightarrow> bit_at ws j"
proof -
  have "(64 + j) div 64 = Suc (j div 64)" by simp
  then show ?thesis by (simp only: bit_at_def nth_Cons_Suc list.size mod_add_self1) simp
qed

lemma length_clear_bit_at [simp]: "length (clear_bit_at bits j) = length bits"
  by (simp add: clear_bit_at_def)

lemma length_set_bit_at [simp]: "length (set_bit_at bits j) = length bits"
  by (simp add: set_bit_at_def)

lemma same_position: "i div 64 = j div 64 \<Longrightarrow> i mod 64 = j mod 64 \<longleftrightarrow> i = (j::nat)"
  by (metis div_mult_mod_eq)

lemma bit_at_clear: "bit_at (clear_bit_at bits j) i \<longleftrightarrow> bit_at bits i \<and> i \<noteq> j"
proof (cases "i div 64 = j div 64")
  case True
  then show ?thesis
    using same_position [OF True]
    by (auto simp: bit_at_def clear_bit_at_def index_lt bit_simps nth_list_update)
next
  case False
  then show ?thesis by (auto simp: bit_at_def clear_bit_at_def)
qed

lemma bit_at_set:
  "j < 64 * length bits \<Longrightarrow> bit_at (set_bit_at bits j) i \<longleftrightarrow> bit_at bits i \<or> i = j"
proof (cases "i div 64 = j div 64")
  case True
  assume "j < 64 * length bits"
  then show ?thesis
    using same_position [OF True] True
    by (auto simp: bit_at_def set_bit_at_def index_lt bit_simps nth_list_update)
next
  case False
  then show ?thesis by (auto simp: bit_at_def set_bit_at_def)
qed

lemma clear_bits_Suc [simp]:
  "clear_bits bits f 0 = bits"
  "clear_bits bits f (Suc n) = clear_bit_at (clear_bits bits f n) (f + n)"
  by (simp_all add: clear_bits_def)

lemma length_clear_bits [simp]: "length (clear_bits bits f n) = length bits"
  by (induction n) simp_all

lemma bit_at_clear_bits: "bit_at (clear_bits bits f n) i \<longleftrightarrow> bit_at bits i \<and> i \<notin> {f..<f + n}"
  by (induction n) (auto simp: bit_at_clear)

section \<open>The search is first fit\<close>

definition free_run :: "(nat \<Rightarrow> bool) \<Rightarrow> nat \<Rightarrow> nat \<Rightarrow> bool" where
  "free_run free count s = (\<forall>i < count. free (s + i))"

definition first_run :: "(nat \<Rightarrow> bool) \<Rightarrow> nat \<Rightarrow> nat \<Rightarrow> bool" where
  "first_run free count s = (free_run free count s \<and> (\<forall>s' < s. \<not> free_run free count s'))"

text \<open>
  What holds before bit \<open>p\<close>: the last \<open>consecutive\<close> bits are free, the one before them is not, and
  no run that is long enough ends there.
\<close>

definition scanned :: "(nat \<Rightarrow> bool) \<Rightarrow> nat \<Rightarrow> nat \<Rightarrow> nat \<Rightarrow> nat \<Rightarrow> bool" where
  "scanned free count p consecutive start_bit =
     (consecutive < count \<and> consecutive \<le> p \<and> (\<forall>i. p - consecutive \<le> i \<and> i < p \<longrightarrow> free i) \<and>
      (0 < consecutive \<longrightarrow> start_bit = p - consecutive) \<and>
      (consecutive < p \<longrightarrow> \<not> free (p - consecutive - 1)) \<and>
      (\<forall>s. s + count \<le> p \<longrightarrow> \<not> free_run free count s))"

lemma runD: "free_run free count s \<Longrightarrow> s \<le> j \<Longrightarrow> j < s + count \<Longrightarrow> free j"
  unfolding free_run_def by (metis add_less_cancel_left le_Suc_ex)

lemma run_last: "free_run free count s \<Longrightarrow> 0 < count \<Longrightarrow> free (s + count - 1)"
  by (rule runD) auto

lemma scanned_start: "0 < count \<Longrightarrow> scanned free count 0 0 start_bit"
  by (simp add: scanned_def)

lemma scanned_gap:
  assumes "scanned free count p c s" and "\<forall>i. p \<le> i \<and> i < q \<longrightarrow> \<not> free i" and "p < q"
  shows "scanned free count q 0 s"
proof -
  have "\<not> free_run free count r" if "r + count \<le> q" for r
  proof (cases "r + count \<le> p")
    case True
    then show ?thesis using assms(1) by (simp add: scanned_def)
  next
    case False
    have "0 < count" using assms(1) by (simp add: scanned_def)
    moreover from this False that have "p \<le> r + count - 1" "r + count - 1 < q" by auto
    then have "\<not> free (r + count - 1)" using assms(2) by blast
    ultimately show ?thesis using run_last [of free count r] by auto
  qed
  then show ?thesis using assms by (simp add: scanned_def)
qed

lemma scanned_free:
  assumes "scanned free count p c s" and "free p" and "c + 1 \<noteq> count"
  shows "scanned free count (p + 1) (c + 1) (if c = 0 then p else s)"
proof -
  have c: "c + 1 < count" "c \<le> p" using assms(1,3) by (auto simp: scanned_def)
  have "\<not> free_run free count r" if r: "r + count \<le> p + 1" for r
  proof
    assume run: "free_run free count r"
    show False
    proof (cases "r + count \<le> p")
      case True
      then show False using assms(1) run by (simp add: scanned_def)
    next
      case False
      then have "r \<le> p - c - 1" "p - c - 1 < r + count" "c < p" using r c by auto
      then show False using runD [OF run] assms(1) by (simp add: scanned_def)
    qed
  qed
  moreover have "free i" if "p - c \<le> i" "i < p + 1" for i
    using that assms(1,2) by (cases "i = p") (auto simp: scanned_def)
  ultimately show ?thesis using assms(1) c by (auto simp: scanned_def)
qed

lemma scanned_found:
  assumes "scanned free count p c s" and "free p" and "c + 1 = count"
  shows "first_run free count (if c = 0 then p else s)"
proof -
  have s: "(if c = 0 then p else s) = p - c" "c \<le> p" using assms(1) by (auto simp: scanned_def)
  have "free_run free count (p - c)"
    unfolding free_run_def
  proof (intro allI impI)
    fix i assume "i < count"
    then have "p - c + i = p \<or> p - c \<le> p - c + i \<and> p - c + i < p" using assms(3) s(2) by linarith
    moreover have "\<forall>i. p - c \<le> i \<and> i < p \<longrightarrow> free i" using assms(1) by (simp add: scanned_def)
    ultimately show "free (p - c + i)" using assms(2) by metis
  qed
  moreover have "\<not> free_run free count r" if "r < p - c" for r
    using that assms(1,3) by (simp add: scanned_def)
  ultimately show ?thesis unfolding first_run_def s(1) by blast
qed

lemma scan_bits_spec:
  assumes "scanned free count (word_idx * 64 + b) c s" and "b \<le> 64"
    and "\<forall>b < 64. test_bit word b \<longleftrightarrow> free (word_idx * 64 + b)"
  shows "case scan_bits word word_idx count b c s of
           Inl (c', s') \<Rightarrow> scanned free count (word_idx * 64 + 64) c' s'
         | Inr r \<Rightarrow> first_run free count r"
  using assms
proof (induction word word_idx count b c s rule: scan_bits.induct)
  case (1 word word_idx count b c s)
  note I = 1(3) and b = 1(4) and w = 1(5)
  let ?s = "if c = 0 then word_idx * 64 + b else s"
  consider "64 \<le> b" | "b < 64" "test_bit word b" "c + 1 = count"
    | "b < 64" "test_bit word b" "c + 1 \<noteq> count" | "b < 64" "\<not> test_bit word b"
    by linarith
  then show ?case
  proof cases
    case 1
    then show ?thesis using I b by (simp add: scan_bits.simps [of word])
  next
    case 2
    then show ?thesis
      using scanned_found [OF I] w by (simp add: scan_bits.simps [of word] Let_def)
  next
    case 3
    have "scanned free count (word_idx * 64 + (b + 1)) (c + 1) ?s"
      using scanned_free [OF I _ 3(3)] 3(1,2) w by (simp add: add.assoc)
    from "1.IH"(1) [OF _ 3(2) refl 3(3) this _ w] 3 show ?thesis
      by (simp add: scan_bits.simps [of word _ _ b] Let_def)
  next
    case 4
    have "scanned free count (word_idx * 64 + (b + 1)) 0 s"
    proof (rule scanned_gap [OF I])
      show "\<forall>i. word_idx * 64 + b \<le> i \<and> i < word_idx * 64 + (b + 1) \<longrightarrow> \<not> free i"
        using 4 w by (auto simp: less_Suc_eq dest: le_antisym)
    qed simp
    from "1.IH"(2) [OF _ 4(2) this _ w] 4 show ?thesis
      by (simp add: scan_bits.simps [of word _ _ b])
  qed
qed

text \<open>The bits of the words that are left to scan.\<close>

lemma scan_words_spec:
  assumes "scanned free count (word_idx * 64) c s"
    and "\<forall>j. free (word_idx * 64 + j) \<longleftrightarrow> bit_at ws j"
  shows "case scan_words ws word_idx count c s of
           None \<Rightarrow> \<forall>r. \<not> free_run free count r
         | Some r \<Rightarrow> first_run free count r"
  using assms
proof (induction ws arbitrary: word_idx c s)
  case Nil
  have "\<not> free_run free count r" for r
  proof (cases "r + count \<le> word_idx * 64")
    case True
    then show ?thesis using Nil(1) by (simp add: scanned_def)
  next
    case False
    then have "word_idx * 64 \<le> r + count - 1" "0 < count" using Nil(1) by (auto simp: scanned_def)
    moreover have "\<not> free (word_idx * 64 + (r + count - 1 - word_idx * 64))"
      using Nil(2) by (simp add: bit_at_def)
    ultimately show ?thesis using run_last [of free count r] by auto
  qed
  then show ?case by simp
next
  case (Cons w ws)
  have rest: "\<forall>j. free ((word_idx + 1) * 64 + j) \<longleftrightarrow> bit_at ws j"
  proof
    fix j
    have "free ((word_idx + 1) * 64 + j) \<longleftrightarrow> bit_at (w # ws) (64 + j)"
      using Cons.prems(2) [rule_format, of "64 + j"] by (simp add: algebra_simps)
    also have "bit_at (w # ws) (64 + j) \<longleftrightarrow> bit_at ws j" by (rule bit_at_Cons)
    finally show "free ((word_idx + 1) * 64 + j) \<longleftrightarrow> bit_at ws j" .
  qed
  have word: "\<forall>b < 64. test_bit w b \<longleftrightarrow> free (word_idx * 64 + b)"
    using Cons.prems(2) by (simp add: bit_at_def test_bit_iff)
  show ?case
  proof (cases "w = 0")
    case True
    have "scanned free count ((word_idx + 1) * 64) 0 s"
    proof (rule scanned_gap [OF Cons.prems(1)])
      show "\<forall>i. word_idx * 64 \<le> i \<and> i < (word_idx + 1) * 64 \<longrightarrow> \<not> free i"
      proof (intro allI impI)
        fix i assume "word_idx * 64 \<le> i \<and> i < (word_idx + 1) * 64"
        then obtain b where "i = word_idx * 64 + b" "b < 64" using le_Suc_ex by fastforce
        then show "\<not> free i" using word True by (simp add: test_bit_def)
      qed
    qed simp
    from Cons.IH [OF this rest] True show ?thesis by simp
  next
    case False
    have "scanned free count (word_idx * 64 + 0) c s" using Cons.prems(1) by simp
    from scan_bits_spec [OF this _ word]
    have step: "case scan_bits w word_idx count 0 c s of
           Inl (c', s') \<Rightarrow> scanned free count (word_idx * 64 + 64) c' s'
         | Inr r \<Rightarrow> first_run free count r" by simp
    show ?thesis
    proof (cases "scan_bits w word_idx count 0 c s")
      case (Inl p)
      obtain c' s' where p: "p = (c', s')" by (cases p)
      have "scanned free count ((word_idx + 1) * 64) c' s'"
        using step Inl p by (simp add: algebra_simps)
      from Cons.IH [OF this rest] False Inl p show ?thesis by simp
    next
      case (Inr r)
      then show ?thesis using step False by simp
    qed
  qed
qed

lemma scan_words_first_fit:
  assumes "0 < count"
  shows "case scan_words bits 0 count 0 0 of
           None \<Rightarrow> \<forall>r. \<not> free_run (bit_at bits) count r
         | Some r \<Rightarrow> first_run (bit_at bits) count r"
  using scan_words_spec [of "bit_at bits" count 0 0 0 bits] scanned_start [OF assms] by simp

lemma run_in_range: "free_run (bit_at bits) count s \<Longrightarrow> 0 < count \<Longrightarrow> s + count \<le> 64 * length bits"
  using run_last [of "bit_at bits" count s] by (auto simp: bit_at_def)

section \<open>Freeing\<close>

lemma free_bits_spec:
  assumes "f + n \<le> 64 * length bits" and "\<forall>i < n. \<not> bit_at bits (f + i)"
  shows "\<exists>bits'. free_bits bits f n = Done (True, bits') \<and> length bits' = length bits \<and>
           (\<forall>i. bit_at bits' i \<longleftrightarrow> bit_at bits i \<or> i \<in> {f..<f + n})"
  using assms
proof (induction n arbitrary: bits f)
  case (Suc n)
  have f: "f < 64 * length bits" "f div 64 < length bits" using Suc.prems(1) by (auto simp: index_lt [symmetric])
  have "\<not> bit_at bits f" using Suc.prems(2) by force
  then have step: "free_bits bits f (Suc n) = free_bits (set_bit_at bits f) (f + 1) n"
    using f(2) by (simp add: test_bit_at not_le)
  have "\<forall>i < n. \<not> bit_at (set_bit_at bits f) (f + 1 + i)"
  proof (intro allI impI)
    fix i assume "i < n"
    then have "\<not> bit_at bits (f + Suc i)" using Suc.prems(2) by blast
    then show "\<not> bit_at (set_bit_at bits f) (f + 1 + i)" using f(1) by (simp add: bit_at_set)
  qed
  moreover have "f + 1 + n \<le> 64 * length (set_bit_at bits f)" using Suc.prems(1) by simp
  ultimately obtain bits' where b:
    "free_bits (set_bit_at bits f) (f + 1) n = Done (True, bits')"
    "length bits' = length (set_bit_at bits f)"
    "\<forall>i. bit_at bits' i \<longleftrightarrow> bit_at (set_bit_at bits f) i \<or> i \<in> {f + 1..<f + 1 + n}"
    using Suc.IH [of "f + 1" "set_bit_at bits f"] by blast
  have "{f..<f + Suc n} = insert f {f + 1..<f + 1 + n}" by auto
  then have "\<forall>i. bit_at bits' i \<longleftrightarrow> bit_at bits i \<or> i \<in> {f..<f + Suc n}"
    using b(3) bit_at_set [OF f(1)] by blast
  then show ?case using step b(1,2) by simp
qed auto

lemma bit_at_ext:
  assumes "length bits' = length bits" and "\<And>j. bit_at bits' j = bit_at bits j"
  shows "bits' = bits"
proof (rule nth_equalityI [OF assms(1)])
  fix i assume i: "i < length bits'"
  show "bits' ! i = bits ! i"
  proof (rule bit_eqI)
    fix b assume "possible_bit TYPE(64 word) b"
    then have b: "b < 64" by simp
    have "(i * 64 + b) div 64 = i" "(i * 64 + b) mod 64 = b" "i * 64 + b < 64 * length bits'"
      using b i by (auto simp: div_less_iff_less_mult)
    then show "bit (bits' ! i) b = bit (bits ! i) b"
      using assms(2) [of "i * 64 + b"] assms(1) by (simp add: bit_at_def)
  qed
qed

section \<open>What the operations do\<close>

text \<open>The sizes that fit the address arithmetic.\<close>

definition bm_wf :: "bitmap_allocator \<Rightarrow> bool" where
  "bm_wf a = (length (bm_bits a) = BITMAP_WORDS \<and> unat (bm_total a) \<le> 64 * BITMAP_WORDS \<and>
     unat (bm_start a) + 64 * BITMAP_WORDS < 2 ^ 63)"

lemma bm_allocate_cases:
  assumes "bm_allocate a count = (r, a')"
  obtains (size) "r = Err InvalidSize" "a' = a" "count = 0 \<or> BITMAP_BUDDY_THRESHOLD \<le> count"
  | (full) "r = Err OutOfMemory" "a' = a" "0 < count" "count < BITMAP_BUDDY_THRESHOLD"
      "\<forall>s. \<not> free_run (bit_at (bm_bits a)) (unat count) s"
  | (found) s where "r = Ok (bm_start a + of_nat s)" "0 < count" "count < BITMAP_BUDDY_THRESHOLD"
      "a' = a\<lparr>bm_bits := clear_bits (bm_bits a) s (unat count),
              bm_free_frames := bm_free_frames a - count\<rparr>"
      "first_run (bit_at (bm_bits a)) (unat count) s"
proof (cases "count = 0 \<or> BITMAP_BUDDY_THRESHOLD \<le> count")
  case True
  then show thesis using assms size by (simp add: bm_allocate_def)
next
  case False
  then have c: "0 < count" "count < BITMAP_BUDDY_THRESHOLD" "0 < unat count"
    by (auto simp: word_neq_0_conv not_le unat_gt_0)
  show thesis
  proof (cases "scan_words (bm_bits a) 0 (unat count) 0 0")
    case None
    then show thesis
      using full [OF _ _ c(1,2)] assms False scan_words_first_fit [OF c(3), of "bm_bits a"]
      by (simp add: bm_allocate_def)
  next
    case (Some s)
    then have "r = Ok (bm_start a + of_nat s)"
      "a' = a\<lparr>bm_bits := clear_bits (bm_bits a) s (unat count),
              bm_free_frames := bm_free_frames a - count\<rparr>"
      using assms False by (auto simp: bm_allocate_def)
    then show thesis
      using found [OF _ c(1,2)] Some scan_words_first_fit [OF c(3), of "bm_bits a"] by simp
  qed
qed

text \<open>The free frames by their numbers.\<close>

definition bm_is_free :: "bitmap_allocator \<Rightarrow> nat \<Rightarrow> bool" where
  "bm_is_free a x = (unat (bm_start a) \<le> x \<and> bit_at (bm_bits a) (x - unat (bm_start a)))"

lemma bm_window: "bm_wf a \<Longrightarrow> bm_is_free a x \<Longrightarrow> x < unat (bm_start a) + 64 * BITMAP_WORDS"
  by (auto simp: bm_is_free_def bit_at_def bm_wf_def)

lemma unat_plus_small:
  fixes w :: "64 word"
  assumes "unat w + k < 2 ^ 64"
  shows "unat (w + of_nat k) = unat w + k"
  using assms by (simp add: unat_word_ariths unat_of_nat)

lemma unat_lt_2p64: "unat (w :: 64 word) < 2 ^ 64"
  using unsigned_less [of w] by simp

lemma unat_offset:
  fixes f s :: "64 word"
  shows "s \<le> f \<Longrightarrow> unat (f - s) = unat f - unat s"
  by (simp add: unat_sub)

lemma bm_allocate_frames:
  assumes wf: "bm_wf a" and al: "bm_allocate a count = (Ok f, a')"
  shows "bm_wf a'" "bm_start a' = bm_start a" "bm_total a' = bm_total a"
    "0 < count" "count < BITMAP_BUDDY_THRESHOLD"
    "bm_start a \<le> f" "unat f + unat count \<le> unat (bm_start a) + 64 * BITMAP_WORDS"
    "\<forall>x \<in> {unat f..<unat f + unat count}. bm_is_free a x"
    "\<forall>x. bm_is_free a' x \<longleftrightarrow> bm_is_free a x \<and> x \<notin> {unat f..<unat f + unat count}"
proof -
  from al obtain s where s: "f = bm_start a + of_nat s" "0 < count" "count < BITMAP_BUDDY_THRESHOLD"
    "a' = a\<lparr>bm_bits := clear_bits (bm_bits a) s (unat count),
            bm_free_frames := bm_free_frames a - count\<rparr>"
    "free_run (bit_at (bm_bits a)) (unat count) s"
    by (cases rule: bm_allocate_cases) (auto simp: first_run_def)
  have len: "s + unat count \<le> 64 * BITMAP_WORDS"
    using run_in_range [OF s(5)] s(2) wf by (simp add: bm_wf_def unat_gt_0 word_neq_0_conv)
  have f: "unat f = unat (bm_start a) + s"
    using wf len unfolding s(1) by (intro unat_plus_small) (simp add: bm_wf_def)
  show "bm_wf a'" "bm_start a' = bm_start a" "bm_total a' = bm_total a"
    using wf by (auto simp: s(4) bm_wf_def)
  show "0 < count" "count < BITMAP_BUDDY_THRESHOLD" by (fact s(2) s(3))+
  show "bm_start a \<le> f" using f by (simp add: word_le_nat_alt)
  show "unat f + unat count \<le> unat (bm_start a) + 64 * BITMAP_WORDS" using f len by simp
  show "\<forall>x \<in> {unat f..<unat f + unat count}. bm_is_free a x"
  proof
    fix x assume "x \<in> {unat f..<unat f + unat count}"
    then show "bm_is_free a x"
      using runD [OF s(5), of "x - unat (bm_start a)"] f by (auto simp: bm_is_free_def)
  qed
  show "\<forall>x. bm_is_free a' x \<longleftrightarrow> bm_is_free a x \<and> x \<notin> {unat f..<unat f + unat count}"
    using f by (auto simp: bm_is_free_def s(4) bit_at_clear_bits)
qed

text \<open>Freeing frames of the node that are allocated, and frames outside the node.\<close>

lemma bm_free_frames:
  assumes wf: "bm_wf a" and low: "bm_start a \<le> f"
    and high: "unat f + unat count \<le> unat (bm_start a) + unat (bm_total a)"
    and used: "\<forall>x \<in> {unat f..<unat f + unat count}. \<not> bm_is_free a x"
  shows "\<exists>a'. bm_free a f count = Done (Ok (), a') \<and> bm_wf a' \<and> bm_start a' = bm_start a \<and>
           bm_total a' = bm_total a \<and> bm_free_frames a' = bm_free_frames a + count \<and>
           (\<forall>x. bm_is_free a' x \<longleftrightarrow> bm_is_free a x \<or> x \<in> {unat f..<unat f + unat count})"
proof -
  let ?o = "unat f - unat (bm_start a)"
  have le: "unat (bm_start a) \<le> unat f" using low by (simp add: word_le_nat_alt)
  have o: "unat (f - bm_start a) = ?o" by (rule unat_offset [OF low])
  have total: "unat (bm_total a) \<le> 64 * length (bm_bits a)" using wf by (simp add: bm_wf_def)
  have in_total: "?o + unat count \<le> unat (bm_total a)" using high le by linarith
  also have "\<dots> < 2 ^ 64" by (rule unat_lt_2p64)
  finally have "?o + unat count < 2 ^ 64" .
  then have "unat (f - bm_start a + count) = ?o + unat count"
    by (simp add: unat_word_ariths(1) o)
  then have guard: "\<not> bm_total a < f - bm_start a + count"
    using high le by (simp add: word_less_nat_alt)
  have "\<forall>i < unat count. \<not> bit_at (bm_bits a) (?o + i)"
  proof (intro allI impI)
    fix i assume "i < unat count"
    then have "\<not> bm_is_free a (unat f + i)" using used by simp
    then show "\<not> bit_at (bm_bits a) (?o + i)" using le by (simp add: bm_is_free_def)
  qed
  from free_bits_spec [OF le_trans [OF in_total total] this] obtain bits where b:
    "free_bits (bm_bits a) ?o (unat count) = Done (True, bits)" "length bits = length (bm_bits a)"
    "\<forall>i. bit_at bits i \<longleftrightarrow> bit_at (bm_bits a) i \<or> i \<in> {?o..<?o + unat count}"
    by blast
  let ?a = "a\<lparr>bm_bits := bits, bm_free_frames := bm_free_frames a + count\<rparr>"
  have "bm_free a f count = Done (Ok (), ?a)" using guard b(1) o by (simp add: bm_free_def Let_def)
  moreover have "bm_wf ?a" using wf b(2) by (simp add: bm_wf_def)
  moreover have "bm_is_free ?a x \<longleftrightarrow> bm_is_free a x \<or> x \<in> {unat f..<unat f + unat count}" for x
  proof (cases "unat (bm_start a) \<le> x")
    case True
    then have "x - unat (bm_start a) \<in> {?o..<?o + unat count} \<longleftrightarrow> x \<in> {unat f..<unat f + unat count}"
      using le by auto
    then show ?thesis using True b(3) by (simp add: bm_is_free_def)
  next
    case False
    then show ?thesis using le by (simp add: bm_is_free_def)
  qed
  ultimately show ?thesis by (intro exI [of _ ?a]) simp
qed

lemma bm_free_outside:
  assumes "bm_wf a" and "bm_start a \<le> f" and "unat f + unat count < 2 ^ 64"
    and "unat (bm_start a) + unat (bm_total a) < unat f + unat count"
  shows "bm_free a f count = Done (Err InvalidFrame, a)"
proof -
  have "unat (bm_start a) \<le> unat f" using assms(2) by (simp add: word_le_nat_alt)
  moreover have "unat f - unat (bm_start a) + unat count < 2 ^ 64" using assms(3) by linarith
  then have "unat (f - bm_start a + count) = unat f - unat (bm_start a) + unat count"
    by (simp add: unat_word_ariths(1) unat_offset [OF assms(2)])
  ultimately have "bm_total a < f - bm_start a + count"
    using assms(4) by (simp add: word_less_nat_alt)
  then show ?thesis by (simp add: bm_free_def)
qed

lemma bm_new_wf:
  "unat n \<le> 64 * BITMAP_WORDS \<Longrightarrow> unat s + 64 * BITMAP_WORDS < 2 ^ 63 \<Longrightarrow> bm_wf (bm_new s n)"
  by (simp add: bm_wf_def bm_new_def)

lemma bm_new_free: "bm_is_free (bm_new s n) x \<longleftrightarrow> unat s \<le> x \<and> x < unat s + 64 * BITMAP_WORDS"
  by (auto simp: bm_is_free_def bm_new_def bit_at_def index_lt)

lemma bm_mark_used_frames:
  assumes wf: "bm_wf a"
  shows "\<exists>a'. bm_mark_used a f = Done (Ok (), a') \<and> bm_wf a' \<and> bm_start a' = bm_start a \<and>
           bm_total a' = bm_total a \<and>
           (\<forall>x. bm_is_free a' x \<longleftrightarrow> bm_is_free a x \<and>
             (x = unat f \<longrightarrow> unat (bm_start a) + unat (bm_total a) \<le> x))"
proof (cases "f < bm_start a \<or> bm_start a + bm_total a \<le> f")
  case True
  have "unat (bm_start a + bm_total a) = unat (bm_start a) + unat (bm_total a)"
    using wf by (simp add: unat_word_ariths bm_wf_def BITMAP_WORDS_def)
  then have "unat f < unat (bm_start a) \<or> unat (bm_start a) + unat (bm_total a) \<le> unat f"
    using True by (simp add: word_less_nat_alt word_le_nat_alt)
  then show ?thesis using True wf by (auto simp: bm_mark_used_def bm_is_free_def)
next
  case False
  let ?o = "unat (f - bm_start a)"
  have "unat (bm_start a + bm_total a) = unat (bm_start a) + unat (bm_total a)"
    using wf by (simp add: unat_word_ariths bm_wf_def BITMAP_WORDS_def)
  then have r: "unat (bm_start a) \<le> unat f" "unat f < unat (bm_start a) + unat (bm_total a)"
    using False by (simp_all add: word_less_nat_alt word_le_nat_alt)
  have o: "?o = unat f - unat (bm_start a)" using False by (intro unat_offset) (simp add: not_less)
  then have "?o < 64 * length (bm_bits a)" using r wf by (auto simp: bm_wf_def)
  then have idx: "?o div 64 < length (bm_bits a)" by (simp add: index_lt)
  have other: "x - unat (bm_start a) = ?o \<longleftrightarrow> x = unat f" if "unat (bm_start a) \<le> x" for x
    using that o r(1) by auto
  show ?thesis
  proof (cases "bit_at (bm_bits a) ?o")
    case True
    then have "bm_mark_used a f = Done (Ok (), a\<lparr>bm_bits := clear_bit_at (bm_bits a) ?o,
                         bm_free_frames := bm_free_frames a - 1\<rparr>)"
      using False idx by (simp add: bm_mark_used_def test_bit_at Let_def)
    then show ?thesis
      using wf r(2) other by (auto simp: bm_wf_def bm_is_free_def bit_at_clear)
  next
    case used: False
    then have "bm_mark_used a f = Done (Ok (), a)"
      using False idx by (simp add: bm_mark_used_def test_bit_at Let_def)
    then show ?thesis using wf used [unfolded o] r by (auto simp: bm_is_free_def)
  qed
qed

text \<open>Allocation and release are inverse on the frames of the node.\<close>

lemma bm_allocate_free:
  assumes wf: "bm_wf a" and al: "bm_allocate a count = (Ok f, a')"
    and node: "unat f + unat count \<le> unat (bm_start a) + unat (bm_total a)"
  shows "bm_free a' f count = Done (Ok (), a)"
proof -
  note fr = bm_allocate_frames [OF wf al]
  have "\<forall>x \<in> {unat f..<unat f + unat count}. \<not> bm_is_free a' x" using fr(9) by blast
  from bm_free_frames [OF fr(1) _ _ this] fr(2,3,6) node obtain b where b:
    "bm_free a' f count = Done (Ok (), b)" "bm_wf b" "bm_start b = bm_start a" "bm_total b = bm_total a"
    "bm_free_frames b = bm_free_frames a' + count"
    "\<forall>x. bm_is_free b x \<longleftrightarrow> bm_is_free a' x \<or> x \<in> {unat f..<unat f + unat count}"
    by auto
  have eq: "bm_is_free b x = bm_is_free a x" for x using b(6) fr(8,9) by blast
  have "bm_bits b = bm_bits a"
  proof (rule bit_at_ext)
    show "length (bm_bits b) = length (bm_bits a)" using b(2) wf by (simp add: bm_wf_def)
    show "bit_at (bm_bits b) j = bit_at (bm_bits a) j" for j
      using eq [of "unat (bm_start a) + j"] b(3) by (simp add: bm_is_free_def)
  qed
  moreover have "bm_free_frames a' = bm_free_frames a - count"
    using al by (cases rule: bm_allocate_cases) auto
  ultimately have "b = a" using b(3-5) by simp
  then show ?thesis using b(1) by simp
qed

section \<open>Properties\<close>

text \<open>
  C25. Allocation is first fit. For a request that the bitmap serves (between 1 and 511 frames),
  the scan over words, which skips empty words and carries runs across word boundaries, finds
  exactly the lowest run of free frames that is long enough: it takes those frames and no others,
  and lowers the counter by the request. When it reports that memory is exhausted, there is no such
  run and nothing has changed.
\<close>

theorem bitmap_allocation_first_fit:
  assumes "0 < count" and "count < BITMAP_BUDDY_THRESHOLD"
  shows "case bm_allocate a count of
      (Ok f, a') \<Rightarrow> \<exists>s. f = bm_start a + of_nat s \<and>
        (\<forall>i < unat count. bit_at (bm_bits a) (s + i)) \<and>
        (\<forall>s' < s. \<exists>i < unat count. \<not> bit_at (bm_bits a) (s' + i)) \<and>
        (\<forall>j. bit_at (bm_bits a') j \<longleftrightarrow> bit_at (bm_bits a) j \<and> j \<notin> {s..<s + unat count}) \<and>
        bm_free_frames a' = bm_free_frames a - count
    | (Err e, a') \<Rightarrow> e = OutOfMemory \<and> a' = a \<and>
        (\<forall>s. \<exists>i < unat count. \<not> bit_at (bm_bits a) (s + i))"
proof -
  obtain r a' where ra: "bm_allocate a count = (r, a')" by fastforce
  then show ?thesis
  proof (cases rule: bm_allocate_cases)
    case size
    then have False using assms by (auto dest: leD)
    then show ?thesis ..
  next
    case full
    then show ?thesis unfolding ra by (simp add: free_run_def)
  next
    case (found s)
    show ?thesis
      unfolding ra found(1) prod.case result.case
      using found(5) by (intro exI [of _ s]) (auto simp: found(4) bit_at_clear_bits first_run_def free_run_def)
  qed
qed

text \<open>A map of two words whose first run of three frames crosses the word boundary.\<close>

definition demo_bitmap :: bitmap_allocator where
  "demo_bitmap = \<lparr>bm_bits = [0xC000000000000003, 0xFF], bm_start = 100, bm_total = 128,
     bm_free_frames = 12\<rparr>"

theorem bitmap_allocation_first_fit_witness:
  "bm_allocate demo_bitmap 3 =
     (Ok 162, demo_bitmap\<lparr>bm_bits := [3, 0xFE], bm_free_frames := 9\<rparr>) \<and>
   (case bm_allocate demo_bitmap 3 of
      (Ok f, a') \<Rightarrow> \<exists>s. f = bm_start demo_bitmap + of_nat s \<and>
        (\<forall>i < unat (3 :: usize). bit_at (bm_bits demo_bitmap) (s + i)) \<and>
        (\<forall>s' < s. \<exists>i < unat (3 :: usize). \<not> bit_at (bm_bits demo_bitmap) (s' + i)) \<and>
        (\<forall>j. bit_at (bm_bits a') j \<longleftrightarrow> bit_at (bm_bits demo_bitmap) j \<and> j \<notin> {s..<s + unat (3 :: usize)}) \<and>
        bm_free_frames a' = bm_free_frames demo_bitmap - 3
    | (Err e, a') \<Rightarrow> e = OutOfMemory \<and> a' = demo_bitmap \<and>
        (\<forall>s. \<exists>i < unat (3 :: usize). \<not> bit_at (bm_bits demo_bitmap) (s + i)))"
proof
  show "bm_allocate demo_bitmap 3 =
     (Ok 162, demo_bitmap\<lparr>bm_bits := [3, 0xFE], bm_free_frames := 9\<rparr>)"
    by code_simp
qed (rule bitmap_allocation_first_fit; simp add: BITMAP_BUDDY_THRESHOLD_def)

text \<open>Repeated single-frame allocation on a fresh map.\<close>

fun bm_allocate_singles :: "nat \<Rightarrow> bitmap_allocator \<Rightarrow> bitmap_allocator" where
  "bm_allocate_singles 0 a = a"
| "bm_allocate_singles (Suc k) a = snd (bm_allocate (bm_allocate_singles k a) 1)"

lemma bm_allocate_lowest:
  assumes "\<forall>j. bit_at (bm_bits a) j \<longleftrightarrow> k \<le> j \<and> j < n" and "k < n"
  shows "bm_allocate a 1 = (Ok (bm_start a + of_nat k),
     a\<lparr>bm_bits := clear_bits (bm_bits a) k 1, bm_free_frames := bm_free_frames a - 1\<rparr>)"
proof -
  obtain r a' where ra: "bm_allocate a 1 = (r, a')" by fastforce
  have run: "free_run (bit_at (bm_bits a)) (unat (1 :: usize)) s \<longleftrightarrow> k \<le> s \<and> s < n" for s
    using assms(1) by (simp add: free_run_def)
  from ra show ?thesis
  proof (cases rule: bm_allocate_cases)
    case size
    then show ?thesis by (simp add: BITMAP_BUDDY_THRESHOLD_def word_le_nat_alt)
  next
    case full
    then show ?thesis using run assms(2) by blast
  next
    case (found s)
    then have "s = k" using run assms(2) unfolding first_run_def by (metis leD le_refl linorder_neqE_nat)
    then show ?thesis using ra found by simp
  qed
qed

lemma bm_allocate_singles_state:
  assumes "k \<le> 64 * BITMAP_WORDS"
  shows "(\<forall>j. bit_at (bm_bits (bm_allocate_singles k (bm_new s n))) j \<longleftrightarrow> k \<le> j \<and> j < 64 * BITMAP_WORDS) \<and>
         bm_start (bm_allocate_singles k (bm_new s n)) = s \<and>
         bm_free_frames (bm_allocate_singles k (bm_new s n)) = n - of_nat k"
  using assms
proof (induction k)
  case 0
  show ?case by (auto simp: bm_new_def bit_at_def index_lt)
next
  case (Suc k)
  let ?a = "bm_allocate_singles k (bm_new s n)"
  have IH: "\<forall>j. bit_at (bm_bits ?a) j \<longleftrightarrow> k \<le> j \<and> j < 64 * BITMAP_WORDS" "bm_start ?a = s"
    "bm_free_frames ?a = n - of_nat k"
    using Suc by auto
  have "k < 64 * BITMAP_WORDS" using Suc.prems by simp
  from bm_allocate_lowest [OF IH(1) this]
  have "bm_allocate_singles (Suc k) (bm_new s n) =
      ?a\<lparr>bm_bits := clear_bits (bm_bits ?a) k 1, bm_free_frames := bm_free_frames ?a - 1\<rparr>"
    by (simp only: bm_allocate_singles.simps snd_conv)
  then have eq: "bm_bits (bm_allocate_singles (Suc k) (bm_new s n)) = clear_bits (bm_bits ?a) k 1"
    "bm_start (bm_allocate_singles (Suc k) (bm_new s n)) = bm_start ?a"
    "bm_free_frames (bm_allocate_singles (Suc k) (bm_new s n)) = bm_free_frames ?a - 1"
    by simp_all
  have "bit_at (bm_bits ?a) j \<and> j \<notin> {k..<k + 1} \<longleftrightarrow> Suc k \<le> j \<and> j < 64 * BITMAP_WORDS" for j
    unfolding IH(1) [rule_format] by auto
  moreover have "n - of_nat k - 1 = n - of_nat (Suc k)" by (simp only: of_nat_Suc diff_diff_eq add.commute)
  ultimately show ?case unfolding eq bit_at_clear_bits IH(2,3) by blast
qed

text \<open>
  The bitmap hands out frames that its node does not have. The map has room for 131072 frames and
  all of its bits start as free, whatever the number of frames of the node; the scan looks at all of
  them. On a node with fewer frames, once its frames are given out one by one, the next request
  returns the first frame behind the node, and the counter of free frames wraps around.
\<close>

theorem bitmap_overruns_node:
  assumes "unat n < 64 * BITMAP_WORDS"
  shows "fst (bm_allocate (bm_allocate_singles (unat n) (bm_new s n)) 1) = Ok (s + n) \<and>
         bm_free_count (snd (bm_allocate (bm_allocate_singles (unat n) (bm_new s n)) 1)) = - 1"
proof -
  let ?a = "bm_allocate_singles (unat n) (bm_new s n)"
  note st = bm_allocate_singles_state [of "unat n" s n]
  have "\<forall>j. bit_at (bm_bits ?a) j \<longleftrightarrow> unat n \<le> j \<and> j < 64 * BITMAP_WORDS"
    "bm_start ?a = s" "bm_free_frames ?a = 0"
    using st assms by auto
  from bm_allocate_lowest [OF this(1) assms] this(2,3) show ?thesis by (simp add: bm_free_count_def)
qed

text \<open>The region of the AArch64 boot map: 32768 frames from 0x48000.\<close>

theorem bitmap_overruns_node_witness:
  "unat (32768 :: usize) < 64 * BITMAP_WORDS \<and>
   fst (bm_allocate (bm_allocate_singles (unat (32768 :: usize)) (bm_new 0x48000 32768)) 1) = Ok (0x48000 + 32768) \<and>
   bm_free_count (snd (bm_allocate (bm_allocate_singles (unat (32768 :: usize)) (bm_new 0x48000 32768)) 1)) = - 1"
proof -
  have lt: "unat (32768 :: usize) < 64 * BITMAP_WORDS" by (simp add: BITMAP_WORDS_def)
  show ?thesis using lt bitmap_overruns_node [where n = 32768 and s = "0x48000", OF lt] by blast
qed

end
