(* ===== verification/Mm_Buddy.thy ===== *)
theory Mm_Buddy
  imports Mm_Bitmap
begin

text \<open>
  The buddy half of the physical frame allocator (\<open>src/kernel/src/mm/frame_allocator.rs\<close>).

  The 21 linked lists of free blocks are lists of frame numbers, head first; the block at index \<open>k\<close> of
  the outer list has \<open>2 ^ k\<close> frames. Creating an allocator indexes that array by the order of the first
  block and panics for 2 ^ 21 frames or more.

  \<open>cover\<close> counts for each frame the free blocks that contain it. Splitting and merging keep this
  count, whatever the alignment, since the buddy of a block is always next to it; allocation takes
  exactly the frames of the block it returns and release adds exactly those. \<open>tidy\<close> is the invariant
  of aligned allocators: blocks are aligned and no two free blocks are buddies.
\<close>

section \<open>Powers of two\<close>

text \<open>\<open>usize::is_power_of_two\<close>, \<open>next_power_of_two\<close> (0 where the result does not fit) and
  \<open>trailing_zeros\<close> of the standard library.\<close>

definition is_power_of_two :: "usize \<Rightarrow> bool" where
  "is_power_of_two w = list_ex (\<lambda>k. w = push_bit k 1) [0..<64]"

definition next_power_of_two :: "usize \<Rightarrow> usize" where
  "next_power_of_two w =
     (case find (\<lambda>k. w \<le> push_bit k 1) [0..<64] of None \<Rightarrow> 0 | Some k \<Rightarrow> push_bit k 1)"

definition usize_trailing_zeros :: "usize \<Rightarrow> nat" where
  "usize_trailing_zeros w = length (takeWhile (\<lambda>i. \<not> bit w i) [0..<64])"

section \<open>The buddy allocator\<close>

definition BUDDY_ORDERS :: nat where
  "BUDDY_ORDERS = 21"

record buddy_allocator =
  bd_lists :: "frame_number list list"
  bd_start :: frame_number
  bd_total :: usize
  bd_free_frames :: usize

definition bd_new :: "frame_number \<Rightarrow> usize \<Rightarrow> buddy_allocator outcome" where
  "bd_new start_frame frame_count =
     (let total = (if is_power_of_two frame_count then frame_count
                   else next_power_of_two frame_count div 2);
          max_order = usize_trailing_zeros total in
      if BUDDY_ORDERS \<le> max_order then Panic
      else Done \<lparr>bd_lists = (replicate BUDDY_ORDERS [])[max_order := [start_frame]],
                 bd_start = start_frame, bd_total = total, bd_free_frames = total\<rparr>)"

definition get_order :: "usize \<Rightarrow> nat" where
  "get_order count = usize_trailing_zeros (next_power_of_two count)"

text \<open>The splitting loop: the upper half of the block goes to the list below, down to \<open>order\<close>.\<close>

fun split_block :: "frame_number list list \<Rightarrow> frame_number \<Rightarrow> nat \<Rightarrow> nat \<Rightarrow> frame_number list list" where
  "split_block fls frame order 0 = fls"
| "split_block fls frame order (Suc s) =
     (if order < Suc s then
        split_block (fls[s := (frame + push_bit s 1) # fls ! s]) frame order s
      else fls)"

fun bd_search :: "frame_number list list \<Rightarrow> nat \<Rightarrow> nat list \<Rightarrow> (frame_number \<times> frame_number list list) option" where
  "bd_search fls order [] = None"
| "bd_search fls order (current_order # ks) =
     (case fls ! current_order of
        [] \<Rightarrow> bd_search fls order ks
      | frame # rest \<Rightarrow>
          Some (frame, split_block (fls[current_order := rest]) frame order current_order))"

definition bd_allocate ::
    "buddy_allocator \<Rightarrow> usize \<Rightarrow> (frame_number, frame_error) result \<times> buddy_allocator" where
  "bd_allocate a count =
     (if count = 0 then (Err InvalidSize, a)
      else
        let order = get_order count in
        if length (bd_lists a) \<le> order then (Err InvalidSize, a)
        else case bd_search (bd_lists a) order [order..<length (bd_lists a)] of
          None \<Rightarrow> (Err OutOfMemory, a)
        | Some (frame, fls) \<Rightarrow>
            (Ok frame, a\<lparr>bd_lists := fls, bd_free_frames := bd_free_frames a - push_bit order 1\<rparr>))"

text \<open>The search for the buddy in a list; it unlinks the first block that starts there.\<close>

fun unlink_buddy :: "frame_number \<Rightarrow> frame_number list \<Rightarrow> frame_number list option" where
  "unlink_buddy buddy [] = None"
| "unlink_buddy buddy (b # bs) =
     (if b = buddy then Some bs else map_option ((#) b) (unlink_buddy buddy bs))"

function merge_block :: "frame_number list list \<Rightarrow> frame_number \<Rightarrow> nat \<Rightarrow> frame_number list list \<times> frame_number \<times> nat" where
  "merge_block fls frame order =
     (if order < length fls - 1 then
        let buddy = frame XOR push_bit order 1 in
        case unlink_buddy buddy (fls ! order) of
          Some rest \<Rightarrow> merge_block (fls[order := rest]) (min frame buddy) (order + 1)
        | None \<Rightarrow> (fls, frame, order)
      else (fls, frame, order))"
  by pat_completeness auto
termination by (relation "measure (\<lambda>(fls, frame, order). length fls - 1 - order)") auto

declare merge_block.simps [simp del]

definition bd_free ::
    "buddy_allocator \<Rightarrow> frame_number \<Rightarrow> usize \<Rightarrow> (unit, frame_error) result \<times> buddy_allocator" where
  "bd_free a frame count =
     (let order = get_order count in
      if length (bd_lists a) \<le> order then (Err InvalidSize, a)
      else case merge_block (bd_lists a) frame order of
        (fls, frame', order') \<Rightarrow>
          (Ok (), a\<lparr>bd_lists := fls[order' := frame' # fls ! order'],
                    bd_free_frames := bd_free_frames a + push_bit order 1\<rparr>))"

definition bd_free_count :: "buddy_allocator \<Rightarrow> usize" where
  "bd_free_count a = bd_free_frames a"

section \<open>Blocks and the frames they cover\<close>

definition block :: "frame_number \<Rightarrow> nat \<Rightarrow> nat set" where
  "block f k = {unat f..<unat f + 2 ^ k}"

text \<open>How many free blocks cover a frame.\<close>

definition covers :: "nat \<Rightarrow> frame_number \<Rightarrow> nat \<Rightarrow> nat" where
  "covers k f x = of_bool (x \<in> block f k)"

definition cover_list :: "nat \<Rightarrow> frame_number list \<Rightarrow> nat \<Rightarrow> nat" where
  "cover_list k fs x = (\<Sum>f\<leftarrow>fs. covers k f x)"

definition cover :: "frame_number list list \<Rightarrow> nat \<Rightarrow> nat" where
  "cover fls x = (\<Sum>k < length fls. cover_list k (fls ! k) x)"

definition in_bounds :: "nat \<Rightarrow> frame_number \<Rightarrow> bool" where
  "in_bounds k f = (unat f + 2 ^ k \<le> 2 ^ 63)"

definition lists_ok :: "frame_number list list \<Rightarrow> bool" where
  "lists_ok fls = (length fls = BUDDY_ORDERS \<and> (\<forall>k < length fls. \<forall>f \<in> set (fls ! k). in_bounds k f))"

lemma cover_list_simps [simp]:
  "cover_list k [] x = 0"
  "cover_list k (f # fs) x = covers k f x + cover_list k fs x"
  by (simp_all add: cover_list_def)

lemma cover_update:
  assumes "k < length fls"
  shows "cover (fls[k := l]) x + cover_list k (fls ! k) x = cover fls x + cover_list k l x"
proof -
  have "cover ls x = cover_list k (ls ! k) x + (\<Sum>i \<in> {..<length ls} - {k}. cover_list i (ls ! i) x)"
    if "k < length ls" for ls :: "frame_number list list"
    unfolding cover_def using that by (simp add: sum.remove)
  from this [of fls] this [of "fls[k := l]"] assms show ?thesis by simp
qed

lemma unat_push_bit: "k < 64 \<Longrightarrow> unat (push_bit k 1 :: 64 word) = 2 ^ k"
proof -
  assume k: "k < 64"
  have "(push_bit k 1 :: 64 word) = of_nat (2 ^ k)" by (simp add: push_bit_of_1)
  then show "unat (push_bit k 1 :: 64 word) = 2 ^ k"
    by (simp only: unsigned_of_nat) (simp add: take_bit_nat_eq_self k)
qed

lemma lists_ok_update:
  assumes "lists_ok fls" and "\<forall>f \<in> set l. in_bounds k f"
  shows "lists_ok (fls[k := l])"
proof (cases "k < length fls")
  case True
  then show ?thesis using assms by (auto simp: lists_ok_def nth_list_update)
next
  case False
  then show ?thesis using assms by (simp add: list_update_beyond not_less)
qed

lemma upper_half:
  assumes "in_bounds (Suc s) f" and "s < 63"
  shows "unat (f + push_bit s 1) = unat f + 2 ^ s" "in_bounds s (f + push_bit s 1)" "in_bounds s f"
    "covers (Suc s) f x = covers s f x + covers s (f + push_bit s 1) x"
proof -
  have "unat f + 2 ^ s < 2 ^ 64" using assms(1) by (simp add: in_bounds_def)
  then show u: "unat (f + push_bit s 1) = unat f + 2 ^ s"
    using assms(2) unat_push_bit [of s] by (simp add: unat_word_ariths(1))
  show "in_bounds s (f + push_bit s 1)" "in_bounds s f" using assms(1) u by (simp_all add: in_bounds_def)
  show "covers (Suc s) f x = covers s f x + covers s (f + push_bit s 1) x"
    unfolding covers_def block_def u by auto
qed

lemma split_block_spec:
  assumes "lists_ok fls" and "in_bounds s f" and "order \<le> s" and "s < BUDDY_ORDERS"
  shows "lists_ok (split_block fls f order s) \<and> in_bounds order f \<and>
         cover fls x + covers s f x = cover (split_block fls f order s) x + covers order f x"
  using assms
proof (induction s arbitrary: fls)
  case (Suc s)
  show ?case
  proof (cases "order = Suc s")
    case True
    then show ?thesis using Suc.prems by simp
  next
    case False
    let ?l = "fls[s := (f + push_bit s 1) # fls ! s]"
    have s: "s < 63" "s < length fls" using Suc.prems by (auto simp: BUDDY_ORDERS_def lists_ok_def)
    note h = upper_half [OF Suc.prems(2) s(1)]
    have "lists_ok ?l"
      using Suc.prems(1) h(2) s(2) by (intro lists_ok_update) (auto simp: lists_ok_def)
    from Suc.IH [OF this h(3)] False Suc.prems
    have IH: "lists_ok (split_block ?l f order s)" "in_bounds order f"
      "cover ?l x + covers s f x = cover (split_block ?l f order s) x + covers order f x"
      by auto
    have "cover ?l x = cover fls x + covers s (f + push_bit s 1) x"
      using cover_update [OF s(2), of "(f + push_bit s 1) # fls ! s" x] by simp
    then show ?thesis using False Suc.prems(3) IH h(4) [of x] by simp
  qed
qed simp

lemma bd_search_spec:
  assumes "lists_ok fls" and "bd_search fls order [j..<BUDDY_ORDERS] = Some (f, fls')"
    and "order \<le> j" and "j \<le> BUDDY_ORDERS"
  shows "lists_ok fls' \<and> in_bounds order f \<and> cover fls x = cover fls' x + covers order f x"
  using assms(2-4)
proof (induction "BUDDY_ORDERS - j" arbitrary: j)
  case (Suc n)
  then have j: "j < BUDDY_ORDERS" "[j..<BUDDY_ORDERS] = j # [Suc j..<BUDDY_ORDERS]"
    by (auto simp: upt_conv_Cons)
  show ?case
  proof (cases "fls ! j")
    case Nil
    then show ?thesis using Suc.hyps(1) [of "Suc j"] Suc.hyps(2) Suc.prems j by simp
  next
    case (Cons g rest)
    let ?l = "fls[j := rest]"
    have f: "f = g" "fls' = split_block ?l g order j" using Suc.prems(1) j Cons by auto
    have len: "j < length fls" using j assms(1) by (simp add: lists_ok_def)
    have ok: "lists_ok ?l"
      using assms(1) Cons len by (intro lists_ok_update) (auto simp: lists_ok_def)
    have b: "in_bounds j g" using assms(1) Cons len by (auto simp: lists_ok_def)
    have "cover fls x = cover ?l x + covers j g x"
      using cover_update [OF len, of rest x] Cons by simp
    then show ?thesis using split_block_spec [OF ok b _ j(1), of order x] Suc.prems(2) f by simp
  qed
qed simp

lemma unlink_buddy_spec:
  "unlink_buddy b fs = Some rest \<Longrightarrow> b \<in> set fs \<and> set rest \<subseteq> set fs \<and>
     cover_list k fs x = covers k b x + cover_list k rest x"
  by (induction fs arbitrary: rest) (force split: if_splits)+

lemma unlink_buddy_None: "unlink_buddy b fs = None \<longleftrightarrow> b \<notin> set fs"
  by (induction fs) auto

lemma bit_le_unat:
  fixes f :: "64 word"
  assumes "bit f k"
  shows "2 ^ k \<le> unat f"
proof -
  have "bit (unat f) k" using assms by (simp add: bit_unsigned_iff)
  then show ?thesis by (metis bit_nat_def div_less dvd_0_right linorder_not_le bit_iff_odd)
qed

lemma buddy_frame:
  assumes "in_bounds k f" and "k < 63"
  shows "bit f k \<Longrightarrow> unat (f XOR push_bit k 1) + 2 ^ k = unat f"
    and "\<not> bit f k \<Longrightarrow> unat (f XOR push_bit k 1) = unat f + 2 ^ k"
proof -
  assume b: "bit f k"
  then have "f XOR push_bit k 1 = f - push_bit k 1"
    by (simp only: flip_bit_eq_xor [symmetric] flip_bit_eq_if) (simp add: unset_bit_eq)
  then show "unat (f XOR push_bit k 1) + 2 ^ k = unat f"
    using bit_le_unat [OF b] unat_push_bit [of k] assms(2)
    by (simp add: unat_offset word_le_nat_alt)
next
  assume "\<not> bit f k"
  then have "f XOR push_bit k 1 = f + push_bit k 1"
    by (simp only: flip_bit_eq_xor [symmetric] flip_bit_eq_if) (simp add: set_bit_eq)
  then show "unat (f XOR push_bit k 1) = unat f + 2 ^ k"
    using unat_push_bit [of k] assms by (simp add: unat_word_ariths(1) in_bounds_def)
qed

lemma min_buddy:
  assumes "in_bounds k f" and "k < 63"
  shows "min f (f XOR push_bit k 1) = (if bit f k then f XOR push_bit k 1 else f)"
proof (cases "bit f k")
  case True
  have "0 < (2 :: nat) ^ k" by simp
  then have "unat (f XOR push_bit k 1) < unat f" using buddy_frame(1) [OF assms True] by linarith
  then show ?thesis using True by (simp add: min_def word_le_nat_alt)
next
  case False
  then show ?thesis using buddy_frame(2) [OF assms] by (simp add: min_def word_le_nat_alt)
qed

lemma merge_step:
  assumes "in_bounds k f" and "in_bounds k (f XOR push_bit k 1)" and "k < 63"
  shows "in_bounds (Suc k) (min f (f XOR push_bit k 1))"
    "covers (Suc k) (min f (f XOR push_bit k 1)) x = covers k f x + covers k (f XOR push_bit k 1) x"
proof -
  let ?b = "f XOR push_bit k 1"
  have "(unat ?b + 2 ^ k = unat f \<and> min f ?b = ?b) \<or> (unat ?b = unat f + 2 ^ k \<and> min f ?b = f)"
    using buddy_frame [OF assms(1,3)] min_buddy [OF assms(1,3)] by (cases "bit f k") simp_all
  then show "in_bounds (Suc k) (min f ?b)"
    "covers (Suc k) (min f ?b) x = covers k f x + covers k ?b x"
    using assms(1,2) by (auto simp: in_bounds_def covers_def block_def)
qed

lemma merge_block_spec:
  assumes "lists_ok fls" and "in_bounds k f" and "k < BUDDY_ORDERS"
    and "merge_block fls f k = (fls', f', k')"
  shows "lists_ok fls' \<and> in_bounds k' f' \<and> k' < BUDDY_ORDERS \<and>
         cover fls x + covers k f x = cover fls' x + covers k' f' x"
  using assms
proof (induction fls f k rule: merge_block.induct)
  case (1 fls f k)
  note ok = "1.prems"(1) and b = "1.prems"(2) and k = "1.prems"(3)
  let ?b = "f XOR push_bit k 1"
  have len: "k < length fls" "k < 63" using ok k by (auto simp: lists_ok_def BUDDY_ORDERS_def)
  show ?case
  proof (cases "k < length fls - 1 \<and> unlink_buddy ?b (fls ! k) \<noteq> None")
    case False
    then show ?thesis
      using "1.prems" by (auto simp: merge_block.simps [of fls f k] Let_def split: if_splits)
  next
    case True
    then obtain rest where r: "k < length fls - 1" "unlink_buddy ?b (fls ! k) = Some rest" by auto
    note u = unlink_buddy_spec [OF r(2), of k x]
    have bb: "in_bounds k ?b" using u ok len(1) by (auto simp: lists_ok_def)
    note m = merge_step [OF b bb len(2)]
    have ok': "lists_ok (fls[k := rest])"
      using ok u len(1) by (intro lists_ok_update) (auto simp: lists_ok_def)
    have "merge_block (fls[k := rest]) (min f ?b) (k + 1) = (fls', f', k')"
      using "1.prems"(4) r by (simp add: merge_block.simps [of fls f k] Let_def)
    from "1.IH" [OF r(1) refl r(2) ok' _ _ this] m(1) r(1) ok
    have IH: "lists_ok fls' \<and> in_bounds k' f' \<and> k' < BUDDY_ORDERS \<and>
      cover (fls[k := rest]) x + covers (k + 1) (min f ?b) x = cover fls' x + covers k' f' x"
      by (auto simp: lists_ok_def)
    have "cover fls x = cover (fls[k := rest]) x + covers k ?b x"
      using cover_update [OF len(1), of rest x] u by simp
    then show ?thesis using IH m(2) [of x] by simp
  qed
qed

section \<open>What the operations do\<close>

definition bd_wf :: "buddy_allocator \<Rightarrow> bool" where
  "bd_wf a = lists_ok (bd_lists a)"

definition bd_cover :: "buddy_allocator \<Rightarrow> nat \<Rightarrow> nat" where
  "bd_cover a x = cover (bd_lists a) x"

lemma bd_allocate_frames:
  assumes "bd_wf a" and "bd_allocate a count = (Ok f, a')"
  shows "bd_wf a'" "count \<noteq> 0" "get_order count < BUDDY_ORDERS" "in_bounds (get_order count) f"
    "bd_cover a x = bd_cover a' x + covers (get_order count) f x"
proof -
  let ?o = "get_order count"
  have len: "length (bd_lists a) = BUDDY_ORDERS" using assms(1) by (simp add: bd_wf_def lists_ok_def)
  from assms(2) obtain fls where s: "count \<noteq> 0" "?o < BUDDY_ORDERS"
    "bd_search (bd_lists a) ?o [?o..<BUDDY_ORDERS] = Some (f, fls)"
    "a' = a\<lparr>bd_lists := fls, bd_free_frames := bd_free_frames a - push_bit ?o 1\<rparr>"
    by (auto simp: bd_allocate_def Let_def len not_le split: if_splits option.splits)
  have "lists_ok fls \<and> in_bounds ?o f \<and> cover (bd_lists a) x = cover fls x + covers ?o f x" for x
    using bd_search_spec [OF _ s(3)] assms(1) s(2) by (simp add: bd_wf_def)
  then show "bd_wf a'" "count \<noteq> 0" "?o < BUDDY_ORDERS" "in_bounds ?o f"
    "bd_cover a x = bd_cover a' x + covers ?o f x"
    using s(1,2,4) by (simp_all add: bd_wf_def bd_cover_def)
qed

lemma bd_allocate_Err: "bd_allocate a count = (Err e, a') \<Longrightarrow> a' = a"
  by (auto simp: bd_allocate_def Let_def split: if_splits option.splits)

lemma bd_free_frames:
  assumes "bd_wf a" and "in_bounds (get_order count) f" and "get_order count < BUDDY_ORDERS"
  shows "\<exists>a'. bd_free a f count = (Ok (), a') \<and> bd_wf a' \<and>
           (\<forall>x. bd_cover a' x = bd_cover a x + covers (get_order count) f x)"
proof -
  let ?o = "get_order count"
  obtain fls f' k' where m: "merge_block (bd_lists a) f ?o = (fls, f', k')" by (metis prod_cases3)
  let ?l = "fls[k' := f' # fls ! k']"
  let ?a = "a\<lparr>bd_lists := ?l, bd_free_frames := bd_free_frames a + push_bit ?o 1\<rparr>"
  have len: "length (bd_lists a) = BUDDY_ORDERS" using assms(1) by (simp add: bd_wf_def lists_ok_def)
  have sp: "lists_ok fls \<and> in_bounds k' f' \<and> k' < BUDDY_ORDERS \<and>
      cover (bd_lists a) x + covers ?o f x = cover fls x + covers k' f' x" for x
    using merge_block_spec [OF _ assms(2,3) m] assms(1) by (simp add: bd_wf_def)
  then have k': "k' < length fls" by (simp add: lists_ok_def)
  have "bd_free a f count = (Ok (), ?a)" using assms(3) m by (simp add: bd_free_def Let_def len)
  moreover have "lists_ok ?l" using sp k' by (intro lists_ok_update) (auto simp: lists_ok_def)
  then have "bd_wf ?a" by (simp add: bd_wf_def)
  moreover have "bd_cover ?a x = bd_cover a x + covers ?o f x" for x
    using cover_update [OF k', of "f' # fls ! k'" x] sp [of x] by (simp add: bd_cover_def)
  ultimately show ?thesis by blast
qed

section \<open>Orders\<close>

lemma push_bit_le_iff: "i < 64 \<Longrightarrow> w \<le> push_bit i 1 \<longleftrightarrow> unat (w :: usize) \<le> 2 ^ i"
  using unat_push_bit [of i] by (simp add: word_le_nat_alt)

lemma takeWhile_True: "takeWhile (\<lambda>_. True) xs = xs"
  by (simp only: takeWhile_eq_all_conv) simp

lemma trailing_zeros_push_bit:
  assumes "k < 64"
  shows "usize_trailing_zeros (push_bit k 1) = k"
proof -
  have "takeWhile (\<lambda>i. \<not> bit (push_bit k 1 :: usize) i) ([0..<k] @ k # [Suc k..<64]) = [0..<k]"
    using assms by (subst takeWhile_append2) (auto simp: bit_simps)
  moreover have "[0..<64] = [0..<k] @ k # [Suc k..<64]"
    using assms upt_add_eq_append [of 0 k "64 - k"] by (simp add: upt_conv_Cons)
  ultimately show ?thesis by (simp add: usize_trailing_zeros_def)
qed

lemma next_power_of_two_eq:
  assumes "unat w \<le> 2 ^ k" and "k < 64" and "\<forall>j < k. 2 ^ j < unat w"
  shows "next_power_of_two w = push_bit k 1"
proof -
  have "find (\<lambda>k. w \<le> push_bit k 1) [0..<64] = Some k"
    unfolding find_Some_iff using assms
    by (intro exI [of _ k]) (auto simp: push_bit_le_iff simp del: push_bit_of_1)
  then show ?thesis by (simp add: next_power_of_two_def)
qed

lemma get_order_eq:
  assumes "unat w \<le> 2 ^ k" and "k < 64" and "\<forall>j < k. 2 ^ j < unat w"
  shows "get_order w = k"
  unfolding get_order_def next_power_of_two_eq [OF assms] by (rule trailing_zeros_push_bit [OF assms(2)])

lemma get_order_power: "k < 64 \<Longrightarrow> get_order (push_bit k 1) = k"
  by (rule get_order_eq) (simp_all add: unat_push_bit del: push_bit_of_1)

lemma get_order_covers: "get_order w < 64 \<Longrightarrow> unat w \<le> 2 ^ get_order w"
proof (cases "\<exists>k < 64. unat w \<le> 2 ^ k")
  case True
  define k where "k = (LEAST k. unat w \<le> 2 ^ k)"
  from True obtain j where j: "j < 64" "unat w \<le> 2 ^ j" by blast
  have "unat w \<le> 2 ^ k" unfolding k_def using j(2) by (rule LeastI)
  moreover have "k \<le> j" unfolding k_def using j(2) by (rule Least_le)
  moreover have "\<forall>i < k. 2 ^ i < unat w" unfolding k_def using not_less_Least not_less by blast
  ultimately show ?thesis using get_order_eq [of w k] j(1) by simp
next
  case False
  then have "find (\<lambda>k. w \<le> push_bit k 1) [0..<64] = None"
    by (auto simp: find_None_iff push_bit_le_iff simp del: push_bit_of_1)
  then have "get_order w = 64"
    by (simp add: get_order_def next_power_of_two_def usize_trailing_zeros_def takeWhile_True)
  then show "get_order w < 64 \<Longrightarrow> unat w \<le> 2 ^ get_order w" by simp
qed

text \<open>A new allocator has one block, of the largest order that fits; beyond order 20 it panics.\<close>

lemma bd_new_eq:
  assumes "2 ^ k \<le> unat n" and "unat n < 2 ^ Suc k" and "k < 63"
  shows "bd_new s n =
    (if BUDDY_ORDERS \<le> k then Panic
     else Done \<lparr>bd_lists = (replicate BUDDY_ORDERS [])[k := [s]], bd_start = s,
                bd_total = push_bit k 1, bd_free_frames = push_bit k 1\<rparr>)"
proof -
  have "(if is_power_of_two n then n else next_power_of_two n div 2) = push_bit k 1"
  proof (cases "unat n = 2 ^ k")
    case True
    then have n: "n = push_bit k 1" using unat_push_bit [of k] assms(3) by (simp add: word_unat_eq_iff del: push_bit_of_1)
    then have "is_power_of_two n" using assms(3) by (auto simp: is_power_of_two_def list_ex_iff)
    then show ?thesis using n by simp
  next
    case False
    have "unat n \<noteq> 2 ^ j" for j
      using False assms(1,2) by (metis le_neq_implies_less not_less_eq power_less_imp_less_exp one_less_numeral_iff semiring_norm(76) less_Suc_eq)
    then have "n \<noteq> push_bit j 1" if "j < 64" for j using unat_push_bit [OF that] by metis
    then have "\<not> is_power_of_two n" by (auto simp: is_power_of_two_def list_ex_iff)
    moreover have "next_power_of_two n = push_bit (Suc k) 1"
    proof (rule next_power_of_two_eq)
      show "\<forall>j < Suc k. 2 ^ j < unat n"
      proof (intro allI impI)
        fix j assume "j < Suc k"
        then have "(2 :: nat) ^ j \<le> 2 ^ k" by simp
        then show "2 ^ j < unat n" using assms(1) False by linarith
      qed
    qed (use assms in simp_all)
    moreover have "push_bit (Suc k) 1 div 2 = (push_bit k 1 :: usize)"
      using assms(3) unat_push_bit [of k] unat_push_bit [of "Suc k"]
      by (simp add: word_unat_eq_iff unat_div del: push_bit_of_1)
    ultimately show ?thesis by simp
  qed
  then show ?thesis
    using trailing_zeros_push_bit [of k] assms(3) by (simp add: bd_new_def Let_def del: push_bit_of_1)
qed

section \<open>Coalescing\<close>

text \<open>
  In a tidy allocator every block starts at a multiple of its size, and no two free blocks could be
  merged.
\<close>

definition tidy_list :: "nat \<Rightarrow> frame_number list \<Rightarrow> bool" where
  "tidy_list k fs = ((\<forall>f \<in> set fs. take_bit k f = 0) \<and>
     (k < BUDDY_ORDERS - 1 \<longrightarrow> (\<forall>f \<in> set fs. f XOR push_bit k 1 \<notin> set fs)))"

definition tidy :: "frame_number list list \<Rightarrow> bool" where
  "tidy fls = (lists_ok fls \<and> (\<forall>k < length fls. tidy_list k (fls ! k)))"

lemma tidyD: "tidy fls \<Longrightarrow> k < BUDDY_ORDERS \<Longrightarrow> tidy_list k (fls ! k)"
  by (simp add: tidy_def lists_ok_def)

lemma tidy_update:
  assumes "tidy fls" and "tidy_list k l" and "\<forall>f \<in> set l. in_bounds k f"
  shows "tidy (fls[k := l])"
proof (cases "k < length fls")
  case True
  then show ?thesis using assms lists_ok_update by (auto simp: tidy_def nth_list_update)
next
  case False
  then show ?thesis using assms by (simp add: list_update_beyond not_less)
qed

lemma in_boundsD: "lists_ok fls \<Longrightarrow> k < BUDDY_ORDERS \<Longrightarrow> f \<in> set (fls ! k) \<Longrightarrow> in_bounds k f"
  by (auto simp: lists_ok_def)

lemma bit_lt_64: "bit (f :: 64 word) i \<Longrightarrow> i < 64"
  using bit_imp_le_length by fastforce

lemma take_bit_0_iff: "take_bit k (f :: 64 word) = 0 \<longleftrightarrow> (\<forall>i < k. \<not> bit f i)"
  using bit_lt_64 [of f] by (auto simp: bit_eq_iff bit_simps)

lemma aligned_buddy:
  assumes "take_bit (Suc s) f = 0" and "in_bounds (Suc s) f" and "s < 63"
  shows "f XOR push_bit s 1 = f + push_bit s 1" "min f (f XOR push_bit s 1) = f"
    "take_bit s (f + push_bit s 1) = 0" "take_bit s f = 0"
proof -
  have b: "\<not> bit f s" using assms(1) by (simp add: take_bit_0_iff)
  then show x: "f XOR push_bit s 1 = f + push_bit s 1"
    by (simp only: flip_bit_eq_xor [symmetric] flip_bit_eq_if) (simp add: set_bit_eq)
  show "min f (f XOR push_bit s 1) = f"
    using min_buddy [OF upper_half(3) [OF assms(2,3)] assms(3)] b by simp
  show "take_bit s f = 0" using assms(1) by (simp add: take_bit_0_iff)
  then show "take_bit s (f + push_bit s 1) = 0"
    unfolding x [symmetric] take_bit_0_iff by (auto simp: bit_simps)
qed

lemma xor_push_bit_neq: "k < 64 \<Longrightarrow> g XOR push_bit k 1 \<noteq> (g :: 64 word)"
proof
  assume k: "k < 64" and "g XOR push_bit k 1 = g"
  then have "bit (g XOR push_bit k 1) k = bit g k" by simp
  then show False using k by (simp only: bit_xor_iff bit_push_bit_iff) simp
qed

lemma split_block_tidy:
  assumes "tidy fls" and "in_bounds j f" and "take_bit j f = 0" and "order \<le> j" and "j < BUDDY_ORDERS"
    and "\<forall>s. order \<le> s \<and> s < j \<longrightarrow> fls ! s = []"
  shows "tidy (split_block fls f order j) \<and>
         merge_block (split_block fls f order j) f order = merge_block fls f j"
  using assms
proof (induction j arbitrary: fls)
  case (Suc s)
  show ?case
  proof (cases "order = Suc s")
    case True
    then show ?thesis using Suc.prems(1) by simp
  next
    case False
    let ?l = "fls[s := [f + push_bit s 1]]"
    have s: "s < 63" "s < length fls" "s < length fls - 1" "fls ! s = []"
      using Suc.prems False by (auto simp: BUDDY_ORDERS_def tidy_def lists_ok_def)
    note h = upper_half [OF Suc.prems(2) s(1)] and al = aligned_buddy [OF Suc.prems(3,2) s(1)]
    have "(f + push_bit s 1) XOR push_bit s 1 \<noteq> f + push_bit s 1"
      using s(1) by (intro xor_push_bit_neq) simp
    then have "tidy_list s [f + push_bit s 1]" using al(3) by (simp add: tidy_list_def)
    then have "tidy ?l" using tidy_update [OF Suc.prems(1)] h(2) by simp
    from Suc.IH [OF this h(3) al(4)] False Suc.prems(4-6)
    have IH: "tidy (split_block ?l f order s)"
      "merge_block (split_block ?l f order s) f order = merge_block ?l f s" by auto
    have "?l[s := []] = fls" using s(4) by (metis list_update_id list_update_overwrite)
    then have "merge_block ?l f s = merge_block fls f (Suc s)"
      using s al(1,2) by (simp add: merge_block.simps [of ?l f s] Let_def del: push_bit_of_1)
    then show ?thesis using IH False Suc.prems(4) s(4) by simp
  qed
qed simp

lemma bd_search_first:
  assumes "bd_search fls order [i..<BUDDY_ORDERS] = Some (f, fls')"
  shows "\<exists>j rest. i \<le> j \<and> j < BUDDY_ORDERS \<and> (\<forall>s. i \<le> s \<and> s < j \<longrightarrow> fls ! s = []) \<and>
    fls ! j = f # rest \<and> fls' = split_block (fls[j := rest]) f order j"
  using assms
proof (induction "BUDDY_ORDERS - i" arbitrary: i)
  case (Suc n)
  then have i: "i < BUDDY_ORDERS" "[i..<BUDDY_ORDERS] = i # [Suc i..<BUDDY_ORDERS]"
    by (auto simp: upt_conv_Cons)
  show ?case
  proof (cases "fls ! i")
    case Nil
    then have "bd_search fls order [Suc i..<BUDDY_ORDERS] = Some (f, fls')"
      using Suc.prems i by simp
    moreover have "n = BUDDY_ORDERS - Suc i" using Suc.hyps(2) by simp
    ultimately obtain j rest where j: "Suc i \<le> j" "j < BUDDY_ORDERS"
      "\<forall>s. Suc i \<le> s \<and> s < j \<longrightarrow> fls ! s = []"
      "fls ! j = f # rest" "fls' = split_block (fls[j := rest]) f order j"
      using Suc.hyps(1) [of "Suc i"] by blast
    have "fls ! s = []" if "i \<le> s" "s < j" for s
      using that j(3) Nil by (cases "s = i") simp_all
    then show ?thesis using j by (intro exI [of _ j] exI [of _ rest]) simp
  next
    case (Cons g rest)
    then show ?thesis using Suc.prems i by (intro exI [of _ i] exI [of _ rest]) auto
  qed
qed simp

lemma bd_search_merge:
  assumes "tidy fls" and "bd_search fls order [order..<BUDDY_ORDERS] = Some (f, fls')"
  shows "tidy fls' \<and> (\<exists>fls2 k2. merge_block fls' f order = (fls2, f, k2) \<and> fls2[k2 := f # fls2 ! k2] = fls)"
proof -
  from assms(2) obtain j rest where j: "order \<le> j" "j < BUDDY_ORDERS"
    "\<forall>s. order \<le> s \<and> s < j \<longrightarrow> fls ! s = []" "fls ! j = f # rest"
    "fls' = split_block (fls[j := rest]) f order j" using bd_search_first by blast
  let ?l = "fls[j := rest]"
  have ok: "lists_ok fls" and len: "length fls = BUDDY_ORDERS" using assms(1) by (auto simp: tidy_def lists_ok_def)
  have t: "tidy_list j (f # rest)" using tidyD [OF assms(1) j(2)] j(4) by simp
  have b: "\<forall>g \<in> set (f # rest). in_bounds j g" using in_boundsD [OF ok j(2)] j(4) by simp
  have "tidy ?l" using tidy_update [OF assms(1)] t b by (auto simp: tidy_list_def)
  moreover have "\<forall>s. order \<le> s \<and> s < j \<longrightarrow> ?l ! s = []" using j(3) by simp
  ultimately have sp: "tidy fls'" "merge_block fls' f order = merge_block ?l f j"
    using split_block_tidy [of ?l j f order] j t b by (auto simp: tidy_list_def)
  have "merge_block ?l f j = (?l, f, j)"
  proof (cases "j < BUDDY_ORDERS - 1")
    case True
    then have "f XOR push_bit j 1 \<notin> set rest" using t by (simp add: tidy_list_def)
    then have "unlink_buddy (f XOR push_bit j 1) rest = None" by (simp add: unlink_buddy_None)
    then show ?thesis
      using j(2) len by (simp add: merge_block.simps [of ?l f j] Let_def del: push_bit_of_1)
  next
    case False
    then show ?thesis using len by (simp add: merge_block.simps [of ?l f j])
  qed
  moreover have "?l[j := f # ?l ! j] = fls" using j(2,4) len by (metis list_update_id list_update_overwrite nth_list_update_eq)
  ultimately show ?thesis using sp by auto
qed

lemma merge_block_tidy:
  assumes "tidy fls" and "in_bounds k f" and "take_bit k f = 0" and "k < BUDDY_ORDERS"
    and "merge_block fls f k = (fls', f', k')"
  shows "tidy fls' \<and> in_bounds k' f' \<and> take_bit k' f' = 0 \<and> k' < BUDDY_ORDERS \<and>
         (k' < BUDDY_ORDERS - 1 \<longrightarrow> f' XOR push_bit k' 1 \<notin> set (fls' ! k'))"
  using assms
proof (induction fls f k rule: merge_block.induct)
  case (1 fls f k)
  note t = "1.prems"(1) and b = "1.prems"(2) and al = "1.prems"(3) and k = "1.prems"(4)
  let ?b = "f XOR push_bit k 1"
  have ok: "lists_ok fls" and len: "length fls = BUDDY_ORDERS" "k < 63"
    using t k by (auto simp: tidy_def lists_ok_def BUDDY_ORDERS_def)
  show ?case
  proof (cases "k < length fls - 1 \<and> unlink_buddy ?b (fls ! k) \<noteq> None")
    case False
    then have "merge_block fls f k = (fls, f, k)"
      by (auto simp: merge_block.simps [of fls f k] Let_def)
    then show ?thesis
      using "1.prems" False len unlink_buddy_None by (auto simp del: push_bit_of_1)
  next
    case True
    then obtain rest where r: "k < length fls - 1" "unlink_buddy ?b (fls ! k) = Some rest" by auto
    note u = unlink_buddy_spec [OF r(2), of k 0]
    have bb: "in_bounds k ?b" using u in_boundsD [OF ok k] by blast
    have "tidy_list k rest" using tidyD [OF t k] u by (auto simp: tidy_list_def)
    then have t': "tidy (fls[k := rest])"
      using tidy_update [OF t] u in_boundsD [OF ok k] by blast
    have al': "take_bit (k + 1) (min f ?b) = 0"
      unfolding min_buddy [OF b len(2)] using al
      by (auto simp: take_bit_0_iff less_Suc_eq bit_simps dest: bit_lt_64)
    have mb: "in_bounds (k + 1) (min f ?b)" using merge_step(1) [OF b bb len(2)] by simp
    have k': "k + 1 < BUDDY_ORDERS" using r(1) len(1) by simp
    have "merge_block (fls[k := rest]) (min f ?b) (k + 1) = (fls', f', k')"
      using "1.prems"(5) r by (simp add: merge_block.simps [of fls f k] Let_def)
    then show ?thesis by (rule "1.IH" [OF r(1) refl r(2) t' mb al' k'])
  qed
qed

lemma tidy_list_Cons:
  assumes "tidy_list k fs" and "take_bit k f = 0" and "k < BUDDY_ORDERS"
    and "k < BUDDY_ORDERS - 1 \<longrightarrow> f XOR push_bit k 1 \<notin> set fs"
  shows "tidy_list k (f # fs)"
proof -
  have neq: "f XOR push_bit k 1 \<noteq> f"
    using assms(3) by (intro xor_push_bit_neq) (simp add: BUDDY_ORDERS_def)
  have "g XOR push_bit k 1 \<notin> set (f # fs)" if k: "k < BUDDY_ORDERS - 1" and g: "g \<in> set (f # fs)" for g
  proof (cases "g = f")
    case True
    then show ?thesis using neq assms(4) k by simp
  next
    case False
    then have gs: "g \<in> set fs" "g XOR push_bit k 1 \<notin> set fs"
      using g k assms(1) by (auto simp: tidy_list_def)
    have "g XOR push_bit k 1 \<noteq> f"
    proof
      assume "g XOR push_bit k 1 = f"
      then have "f XOR push_bit k 1 = g" by (auto simp: xor.assoc)
      then show False using assms(4) k gs(1) by simp
    qed
    then show ?thesis using gs(2) by simp
  qed
  then show ?thesis using assms(1,2) unfolding tidy_list_def by simp
qed

lemma bd_free_tidy:
  assumes "tidy (bd_lists a)" and "in_bounds (get_order count) f" and "take_bit (get_order count) f = 0"
  shows "tidy (bd_lists (snd (bd_free a f count)))"
proof (cases "length (bd_lists a) \<le> get_order count")
  case True
  then show ?thesis using assms(1) by (simp add: bd_free_def)
next
  case False
  obtain fls f' k' where m: "merge_block (bd_lists a) f (get_order count) = (fls, f', k')"
    by (metis prod_cases3)
  have len: "length (bd_lists a) = BUDDY_ORDERS" using assms(1) by (simp add: tidy_def lists_ok_def)
  have mt: "tidy fls" "in_bounds k' f'" "take_bit k' f' = 0" "k' < BUDDY_ORDERS"
    "k' < BUDDY_ORDERS - 1 \<longrightarrow> f' XOR push_bit k' 1 \<notin> set (fls ! k')"
    using merge_block_tidy [OF assms _ m] False len by auto
  have "tidy_list k' (f' # fls ! k')" by (rule tidy_list_Cons [OF tidyD [OF mt(1,4)] mt(3-5)])
  moreover have "\<forall>g \<in> set (f' # fls ! k'). in_bounds k' g"
    using mt in_boundsD [of fls k'] by (auto simp: tidy_def)
  ultimately have "tidy (fls[k' := f' # fls ! k'])" using tidy_update [OF mt(1)] by blast
  then show ?thesis using False m by (simp add: bd_free_def Let_def)
qed

text \<open>
  The allocators that arise from a new one by allocating and by freeing blocks that start at a
  multiple of their size, as the allocated ones do.
\<close>

inductive bd_reachable :: "buddy_allocator \<Rightarrow> bool" where
  bd_init: "bd_new s n = Done a \<Longrightarrow> take_bit (usize_trailing_zeros (bd_total a)) s = 0 \<Longrightarrow>
    unat s + unat n \<le> 2 ^ 63 \<Longrightarrow> 0 < n \<Longrightarrow> bd_reachable a"
| bd_alloc: "bd_reachable a \<Longrightarrow> bd_allocate a count = (r, a') \<Longrightarrow> bd_reachable a'"
| bd_release: "bd_reachable a \<Longrightarrow> in_bounds (get_order count) f \<Longrightarrow> take_bit (get_order count) f = 0 \<Longrightarrow>
    bd_free a f count = (r, a') \<Longrightarrow> bd_reachable a'"

lemma floor_log: "0 < (n :: usize) \<Longrightarrow> \<exists>k < 64. 2 ^ k \<le> unat n \<and> unat n < 2 ^ Suc k"
proof -
  assume "0 < n"
  then have pos: "0 < unat n" by (simp add: unat_gt_0 word_neq_0_conv)
  define k where "k = (LEAST k. unat n < 2 ^ Suc k)"
  have lt: "unat n < 2 ^ Suc 63" using unat_lt_2p64 [of n] by simp
  have "unat n < 2 ^ Suc k" unfolding k_def using lt by (rule LeastI)
  moreover have "k \<le> 63" unfolding k_def using lt by (rule Least_le)
  moreover have "2 ^ k \<le> unat n"
  proof (cases k)
    case 0
    then show ?thesis using pos by simp
  next
    case (Suc j)
    then have "\<not> unat n < 2 ^ Suc j" using not_less_Least [of j "\<lambda>k. unat n < 2 ^ Suc k"] by (simp add: k_def)
    then show ?thesis using Suc by simp
  qed
  ultimately show ?thesis by (intro exI [of _ k]) simp
qed

lemma bd_new_Done:
  assumes "bd_new s n = Done a" and "0 < n" and "unat s + unat n \<le> 2 ^ 63"
  obtains k where "k < BUDDY_ORDERS" "2 ^ k \<le> unat n" "unat n < 2 ^ Suc k"
    "bd_lists a = (replicate BUDDY_ORDERS [])[k := [s]]" "bd_start a = s" "bd_total a = push_bit k 1"
    "bd_free_frames a = push_bit k 1" "in_bounds k s"
proof -
  from floor_log [OF assms(2)] obtain k where k: "2 ^ k \<le> unat n" "unat n < 2 ^ Suc k" by blast
  show thesis
  proof (cases "k < 63")
    case True
    then have "k < BUDDY_ORDERS" using bd_new_eq [OF k True, of s] assms(1) by (simp split: if_splits)
    then show thesis
      using that [OF _ k] bd_new_eq [OF k True, of s] assms(1,3) k by (auto simp: in_bounds_def)
  next
    case False
    then have "(2 :: nat) ^ 63 \<le> 2 ^ k" by (intro power_increasing) auto
    then have "unat n = 2 ^ 63" "unat s = 0" using k(1) assms(3) by auto
    then have n: "n = push_bit 63 1" using unat_push_bit [of 63] by (simp add: word_unat_eq_iff)
    then have "is_power_of_two n"
      unfolding is_power_of_two_def list_ex_iff by (intro bexI [of _ 63]) simp_all
    then have "bd_new s n = Panic"
      using n trailing_zeros_push_bit [of 63] by (simp add: bd_new_def BUDDY_ORDERS_def Let_def)
    then show thesis using assms(1) by simp
  qed
qed

lemma bd_reachable_tidy: "bd_reachable a \<Longrightarrow> tidy (bd_lists a)"
proof (induction rule: bd_reachable.induct)
  case (bd_init s n a)
  from bd_new_Done [OF bd_init(1,4,3)] obtain k where k: "k < BUDDY_ORDERS"
    "bd_lists a = (replicate BUDDY_ORDERS [])[k := [s]]" "bd_total a = push_bit k 1" "in_bounds k s"
    by metis
  have "take_bit k s = 0"
    using bd_init(2) k(1,3) trailing_zeros_push_bit [of k] by (simp add: BUDDY_ORDERS_def)
  moreover have "s XOR push_bit k 1 \<noteq> s" using k(1) by (intro xor_push_bit_neq) (simp add: BUDDY_ORDERS_def)
  ultimately have "tidy_list k [s]" by (simp add: tidy_list_def)
  moreover have "tidy (replicate BUDDY_ORDERS [])" by (simp add: tidy_def lists_ok_def tidy_list_def)
  ultimately show ?case unfolding k(2) using k(4) by (intro tidy_update) simp_all
next
  case (bd_alloc a count r a')
  then have len: "length (bd_lists a) = BUDDY_ORDERS" by (simp add: tidy_def lists_ok_def)
  from bd_alloc show ?case
    using bd_search_merge [OF bd_alloc.IH]
    by (auto simp: bd_allocate_def Let_def len split: if_splits option.splits)
next
  case (bd_release a count f r a')
  then show ?case using bd_free_tidy [of a count f] by simp
qed

section \<open>Properties\<close>

text \<open>
  C26. Freeing undoes allocating. In an allocator whose first block is aligned to its size, after any
  sequence of requests and releases, a block that is allocated and then freed leaves the allocator
  exactly as it was: the halves split off on the way are merged again, one order after the other, the
  block returns to the list and the place it came from, and the counter has its old value.
\<close>

theorem buddy_free_undoes_allocate:
  assumes "bd_reachable a" and "bd_allocate a count = (Ok f, a')"
  shows "bd_free a' f count = (Ok (), a)"
proof -
  let ?o = "get_order count"
  have t: "tidy (bd_lists a)" by (rule bd_reachable_tidy [OF assms(1)])
  then have len: "length (bd_lists a) = BUDDY_ORDERS" by (simp add: tidy_def lists_ok_def)
  from assms(2) obtain fls where s: "?o < BUDDY_ORDERS"
    "bd_search (bd_lists a) ?o [?o..<BUDDY_ORDERS] = Some (f, fls)"
    "a' = a\<lparr>bd_lists := fls, bd_free_frames := bd_free_frames a - push_bit ?o 1\<rparr>"
    by (auto simp: bd_allocate_def Let_def len not_le split: if_splits option.splits)
  from bd_search_merge [OF t s(2)] obtain fls2 k2 where m: "tidy fls"
    "merge_block fls f ?o = (fls2, f, k2)" "fls2[k2 := f # fls2 ! k2] = bd_lists a" by blast
  have "length fls = BUDDY_ORDERS" using m(1) by (simp add: tidy_def lists_ok_def)
  then show ?thesis using s(1,3) m(2,3) by (simp add: bd_free_def Let_def)
qed

definition demo_buddy :: buddy_allocator where
  "demo_buddy = \<lparr>bd_lists = (replicate BUDDY_ORDERS [])[3 := [64]], bd_start = 64, bd_total = 8,
     bd_free_frames = 8\<rparr>"

theorem buddy_free_undoes_allocate_witness:
  "bd_reachable demo_buddy \<and>
   bd_allocate demo_buddy 2 = (Ok 64, demo_buddy\<lparr>bd_lists := (replicate BUDDY_ORDERS [])[1 := [66], 2 := [68]],
     bd_free_frames := 6\<rparr>) \<and>
   bd_free (demo_buddy\<lparr>bd_lists := (replicate BUDDY_ORDERS [])[1 := [66], 2 := [68]],
     bd_free_frames := 6\<rparr>) 64 2 = (Ok (), demo_buddy)"
proof -
  have new: "bd_new 64 8 = Done demo_buddy" by code_simp
  have "take_bit (usize_trailing_zeros (bd_total demo_buddy)) 64 = (0 :: frame_number)" by code_simp
  with new have r: "bd_reachable demo_buddy" by (rule bd_init) simp_all
  have al: "bd_allocate demo_buddy 2 = (Ok 64, demo_buddy\<lparr>bd_lists := (replicate BUDDY_ORDERS [])[1 := [66], 2 := [68]],
     bd_free_frames := 6\<rparr>)" by code_simp
  show ?thesis using r al buddy_free_undoes_allocate [OF r al] by blast
qed

lemma split_block_same [simp]: "split_block fls f k k = fls"
  by (cases k) simp_all

lemma bd_search_empty: "(\<forall>k \<in> set ks. fls ! k = []) \<Longrightarrow> bd_search fls order ks = None"
  by (induction ks) auto

text \<open>
  Without alignment the halves of a block never merge. The buddy of a block is computed from the
  frame number itself, not from its distance to the first frame of the allocator. When the first
  frame is not a multiple of the size, the lower half looks for its buddy below the allocator:
  once the block has been split and given back in full, it stays split, and a request for all of it
  fails although every frame is free.
\<close>

theorem buddy_unaligned_stays_split:
  assumes "j < 20" and "bit s j" and "unat s + 2 ^ Suc j \<le> 2 ^ 63"
  shows "\<exists>a0 a1 a2. bd_new s (push_bit (Suc j) 1) = Done a0 \<and>
    bd_allocate a0 (push_bit j 1) = (Ok s, a1) \<and> bd_free a1 s (push_bit j 1) = (Ok (), a2) \<and>
    bd_free_count a2 = push_bit (Suc j) 1 \<and>
    bd_allocate a2 (push_bit (Suc j) 1) = (Err OutOfMemory, a2)"
proof -
  let ?E = "replicate BUDDY_ORDERS [] :: frame_number list list" and ?t = "push_bit (Suc j) 1 :: usize"
  let ?h = "s + push_bit j 1"
  let ?a0 = "\<lparr>bd_lists = ?E[Suc j := [s]], bd_start = s, bd_total = ?t, bd_free_frames = ?t\<rparr>"
  let ?a1 = "?a0\<lparr>bd_lists := ?E[j := [?h]], bd_free_frames := ?t - push_bit j 1\<rparr>"
  let ?a2 = "?a0\<lparr>bd_lists := ?E[j := [s, ?h]]\<rparr>"
  have j: "j < 63" "j < BUDDY_ORDERS" "Suc j < BUDDY_ORDERS" using assms(1) by (auto simp: BUDDY_ORDERS_def)
  have ord: "get_order (push_bit j 1) = j" "get_order ?t = Suc j"
    using get_order_power [of j] get_order_power [of "Suc j"] j(1) by simp_all
  have nz: "push_bit j 1 \<noteq> (0 :: usize)" "?t \<noteq> 0"
    using unat_push_bit [of j] unat_push_bit [of "Suc j"] j(1) by (auto simp del: push_bit_of_1)
  have new: "bd_new s ?t = Done ?a0"
    using bd_new_eq [of "Suc j" ?t s] unat_push_bit [of "Suc j"] assms(1) by (simp add: BUDDY_ORDERS_def del: push_bit_of_1)
  have upt: "[j..<BUDDY_ORDERS] = j # Suc j # [Suc (Suc j)..<BUDDY_ORDERS]"
    using j(3) by (simp add: upt_conv_Cons)
  have "?E[Suc j := [s], Suc j := []] = ?E" using j(3) by (simp add: list_update_same_conv)
  then have a1: "bd_allocate ?a0 (push_bit j 1) = (Ok s, ?a1)"
    using ord(1) nz(1) j by (simp add: bd_allocate_def upt Let_def del: push_bit_of_1)
  have "in_bounds (Suc j) s" "in_bounds j s" using assms(3) by (simp_all add: in_bounds_def)
  then have "s XOR push_bit j 1 \<noteq> ?h"
    using buddy_frame(1) [OF _ j(1) assms(2)] upper_half(1) [OF _ j(1), of s] by (auto simp del: push_bit_of_1)
  then have "merge_block (?E[j := [?h]]) s j = (?E[j := [?h]], s, j)"
    using j(2) by (simp add: merge_block.simps Let_def del: push_bit_of_1)
  then have a2: "bd_free ?a1 s (push_bit j 1) = (Ok (), ?a2)"
    using ord(1) j(2) by (simp add: bd_free_def Let_def del: push_bit_of_1)
  have "bd_search (bd_lists ?a2) (Suc j) [Suc j..<BUDDY_ORDERS] = None"
    by (rule bd_search_empty) simp
  then have "bd_allocate ?a2 ?t = (Err OutOfMemory, ?a2)"
    using ord(2) nz(2) j(3) by (simp add: bd_allocate_def Let_def del: push_bit_of_1)
  then show ?thesis
    using new a1 a2 by (intro exI [of _ ?a0] exI [of _ ?a1] exI [of _ ?a2]) (simp add: bd_free_count_def del: push_bit_of_1)
qed

text \<open>The first buddy frame of a region that starts at 2 MiB: 131072 frames further.\<close>

theorem buddy_unaligned_stays_split_witness:
  "\<exists>a0 a1 a2. bd_new 131584 (push_bit (Suc 9) 1) = Done a0 \<and>
    bd_allocate a0 (push_bit 9 1) = (Ok 131584, a1) \<and> bd_free a1 131584 (push_bit 9 1) = (Ok (), a2) \<and>
    bd_free_count a2 = push_bit (Suc 9) 1 \<and>
    bd_allocate a2 (push_bit (Suc 9) 1) = (Err OutOfMemory, a2)"
proof (rule buddy_unaligned_stays_split)
  show "bit (131584 :: frame_number) 9" by code_simp
qed simp_all

end
