(* ===== verification/Mm_Frame.thy ===== *)
theory Mm_Frame
  imports Mm_Buddy
begin

text \<open>
  The hybrid frame allocator, the page caches of the processors
  (\<open>src/kernel/src/mm/frame_allocator.rs\<close>), the frame guards (\<open>src/kernel/src/raii.rs\<close>) and the
  interface of the memory manager (\<open>src/kernel/src/mm/mod.rs\<close>).

  The allocators of the eight NUMA nodes are lists of options, in node order. Operations that index
  the bitmap may panic and return an \<open>outcome\<close>. The global allocator and the caches, which the kernel
  keeps behind locks, form the record \<open>mm_state\<close>. The time that an allocation took is an argument,
  since it comes from the cycle counter.
\<close>

section \<open>The hybrid allocator\<close>

record reserved_region =
  rr_start :: frame_number
  rr_end :: frame_number
  rr_description :: string

record frame_allocator_stats =
  fs_total_frames :: u64
  fs_free_frames :: u64
  fs_bitmap_allocations :: u64
  fs_buddy_allocations :: u64
  fs_allocation_time_ns :: u64

record frame_allocator =
  fa_bitmaps :: "bitmap_allocator option list"
  fa_buddies :: "buddy_allocator option list"
  fa_stats :: frame_allocator_stats
  fa_allocation_count :: u64
  fa_reserved :: "reserved_region list"

definition fa_new :: frame_allocator where
  "fa_new = \<lparr>fa_bitmaps = replicate MAX_NUMA_NODES None, fa_buddies = replicate MAX_NUMA_NODES None,
     fa_stats = \<lparr>fs_total_frames = 0, fs_free_frames = 0, fs_bitmap_allocations = 0,
       fs_buddy_allocations = 0, fs_allocation_time_ns = 0\<rparr>,
     fa_allocation_count = 0, fa_reserved = []\<rparr>"

definition add_reserved_region ::
    "frame_allocator \<Rightarrow> reserved_region \<Rightarrow> (unit, frame_error) result \<times> frame_allocator" where
  "add_reserved_region fa region =
     (if list_ex (\<lambda>ex. rr_start region < rr_end ex \<and> rr_start ex < rr_end region) (fa_reserved fa)
      then (Err ReservedMemoryConflict, fa)
      else (Ok (), fa\<lparr>fa_reserved := fa_reserved fa @ [region]\<rparr>))"

definition is_reserved :: "frame_allocator \<Rightarrow> frame_number \<Rightarrow> usize \<Rightarrow> bool" where
  "is_reserved fa start count =
     list_ex (\<lambda>r. start < rr_end r \<and> rr_start r < start + count) (fa_reserved fa)"

definition mark_standard_reserved_regions :: "frame_allocator \<Rightarrow> frame_allocator" where
  "mark_standard_reserved_regions fa =
     snd (add_reserved_region fa
       \<lparr>rr_start = 0, rr_end = 256, rr_description = ''BIOS and legacy devices''\<rparr>)"

definition init_numa_node ::
    "frame_allocator \<Rightarrow> usize \<Rightarrow> frame_number \<Rightarrow> usize \<Rightarrow>
     ((unit, frame_error) result \<times> frame_allocator) outcome" where
  "init_numa_node fa node start_frame frame_count =
     (if MAX_NUMA_NODES \<le> unat node then Done (Err InvalidNumaNode, fa)
      else
        let bitmap_frames = min frame_count (2048 * 64);
            buddy_frames = frame_count - bitmap_frames;
            fa1 = (if 0 < bitmap_frames
                   then fa\<lparr>fa_bitmaps := (fa_bitmaps fa)[unat node := Some (bm_new start_frame bitmap_frames)]\<rparr>
                   else fa) in
        if 0 < buddy_frames then
          case bd_new (start_frame + bitmap_frames) buddy_frames of
            Panic \<Rightarrow> Panic
          | Done b \<Rightarrow> Done (Ok (), fa1\<lparr>fa_buddies := (fa_buddies fa1)[unat node := Some b]\<rparr>)
        else Done (Ok (), fa1))"

text \<open>
  One attempt on one node: \<open>None\<close> as the result means that the search goes on. A node that has been
  tried keeps the state that the attempt left.
\<close>

definition set_bitmap :: "frame_allocator \<Rightarrow> nat \<Rightarrow> bitmap_allocator \<Rightarrow> frame_allocator" where
  "set_bitmap fa i a = fa\<lparr>fa_bitmaps := (fa_bitmaps fa)[i := Some a]\<rparr>"

definition set_buddy :: "frame_allocator \<Rightarrow> nat \<Rightarrow> buddy_allocator \<Rightarrow> frame_allocator" where
  "set_buddy fa i b = fa\<lparr>fa_buddies := (fa_buddies fa)[i := Some b]\<rparr>"

definition try_bitmap_node ::
    "frame_allocator \<Rightarrow> nat \<Rightarrow> usize \<Rightarrow> memory_zone option \<Rightarrow>
     ((frame_number, frame_error) result option \<times> frame_allocator) outcome" where
  "try_bitmap_node fa i count zone =
     (case fa_bitmaps fa ! i of
        None \<Rightarrow> Done (None, fa)
      | Some a \<Rightarrow>
          (case bm_allocate a count of
             (Err _, _) \<Rightarrow> Done (None, fa)
           | (Ok frame, a') \<Rightarrow>
               if (case zone of Some z \<Rightarrow> \<not> zone_contains z frame | None \<Rightarrow> False) then
                 (case bm_free a' frame count of
                    Panic \<Rightarrow> Panic
                  | Done (_, a'') \<Rightarrow> Done (Some (Err OutOfMemory), set_bitmap fa i a''))
               else if is_reserved fa frame count then
                 (case bm_free a' frame count of
                    Panic \<Rightarrow> Panic
                  | Done (_, a'') \<Rightarrow> Done (None, set_bitmap fa i a''))
               else Done (Some (Ok frame), set_bitmap fa i a')))"

definition try_buddy_node ::
    "frame_allocator \<Rightarrow> nat \<Rightarrow> usize \<Rightarrow> memory_zone option \<Rightarrow>
     (frame_number, frame_error) result option \<times> frame_allocator" where
  "try_buddy_node fa i count zone =
     (case fa_buddies fa ! i of
        None \<Rightarrow> (None, fa)
      | Some b \<Rightarrow>
          (case bd_allocate b count of
             (Err _, _) \<Rightarrow> (None, fa)
           | (Ok frame, b') \<Rightarrow>
               if (case zone of Some z \<Rightarrow> \<not> zone_contains z frame | None \<Rightarrow> False) then
                 (Some (Err OutOfMemory), set_buddy fa i (snd (bd_free b' frame count)))
               else if is_reserved fa frame count then
                 (None, set_buddy fa i (snd (bd_free b' frame count)))
               else (Some (Ok frame), set_buddy fa i b')))"

text \<open>The loops over all nodes; they do not look at the zone.\<close>

fun try_bitmaps ::
    "frame_allocator \<Rightarrow> nat list \<Rightarrow> usize \<Rightarrow> ((frame_number, frame_error) result \<times> frame_allocator) outcome" where
  "try_bitmaps fa [] count = Done (Err OutOfMemory, fa)"
| "try_bitmaps fa (i # is) count =
     (case try_bitmap_node fa i count None of
        Panic \<Rightarrow> Panic
      | Done (Some r, fa') \<Rightarrow> Done (r, fa')
      | Done (None, fa') \<Rightarrow> try_bitmaps fa' is count)"

fun try_buddies ::
    "frame_allocator \<Rightarrow> nat list \<Rightarrow> usize \<Rightarrow> (frame_number, frame_error) result \<times> frame_allocator" where
  "try_buddies fa [] count = (Err OutOfMemory, fa)"
| "try_buddies fa (i # is) count =
     (case try_buddy_node fa i count None of
        (Some r, fa') \<Rightarrow> (r, fa')
      | (None, fa') \<Rightarrow> try_buddies fa' is count)"

definition allocate_bitmap_internal ::
    "frame_allocator \<Rightarrow> usize \<Rightarrow> usize option \<Rightarrow> memory_zone option \<Rightarrow>
     ((frame_number, frame_error) result \<times> frame_allocator) outcome" where
  "allocate_bitmap_internal fa count numa_node zone =
     (case (case numa_node of
              Some node \<Rightarrow> if unat node < MAX_NUMA_NODES then try_bitmap_node fa (unat node) count zone
                           else Done (None, fa)
            | None \<Rightarrow> Done (None, fa)) of
        Panic \<Rightarrow> Panic
      | Done (Some r, fa') \<Rightarrow> Done (r, fa')
      | Done (None, fa') \<Rightarrow> try_bitmaps fa' [0..<MAX_NUMA_NODES] count)"

definition allocate_buddy_internal ::
    "frame_allocator \<Rightarrow> usize \<Rightarrow> usize option \<Rightarrow> memory_zone option \<Rightarrow>
     (frame_number, frame_error) result \<times> frame_allocator" where
  "allocate_buddy_internal fa count numa_node zone =
     (case (case numa_node of
              Some node \<Rightarrow> if unat node < MAX_NUMA_NODES then try_buddy_node fa (unat node) count zone
                           else (None, fa)
            | None \<Rightarrow> (None, fa)) of
        (Some r, fa') \<Rightarrow> (r, fa')
      | (None, fa') \<Rightarrow> try_buddies fa' [0..<MAX_NUMA_NODES] count)"

definition allocate_bitmap_with_zone ::
    "frame_allocator \<Rightarrow> usize \<Rightarrow> usize option \<Rightarrow> memory_zone option \<Rightarrow>
     ((frame_number, frame_error) result \<times> frame_allocator) outcome" where
  "allocate_bitmap_with_zone fa count numa_node zone =
     (case allocate_bitmap_internal fa count numa_node zone of
        Panic \<Rightarrow> Panic
      | Done (Ok frame, fa') \<Rightarrow> Done (Ok frame, fa')
      | Done (Err _, fa') \<Rightarrow>
          if zone = None \<or> zone = Some Dma then Done (Err OutOfMemory, fa')
          else allocate_bitmap_internal fa' count numa_node None)"

definition allocate_buddy_with_zone ::
    "frame_allocator \<Rightarrow> usize \<Rightarrow> usize option \<Rightarrow> memory_zone option \<Rightarrow>
     (frame_number, frame_error) result \<times> frame_allocator" where
  "allocate_buddy_with_zone fa count numa_node zone =
     (case allocate_buddy_internal fa count numa_node zone of
        (Ok frame, fa') \<Rightarrow> (Ok frame, fa')
      | (Err _, fa') \<Rightarrow>
          if zone = None \<or> zone = Some Dma then (Err OutOfMemory, fa')
          else allocate_buddy_internal fa' count numa_node None)"

text \<open>\<open>elapsed\<close> is the reading of the cycle counter, converted to nanoseconds.\<close>

definition allocate_frames_in_zone ::
    "u64 \<Rightarrow> frame_allocator \<Rightarrow> usize \<Rightarrow> usize option \<Rightarrow> memory_zone option \<Rightarrow>
     ((frame_number, frame_error) result \<times> frame_allocator) outcome" where
  "allocate_frames_in_zone elapsed fa count numa_node zone =
     (case (if count < BITMAP_BUDDY_THRESHOLD then
              case allocate_bitmap_with_zone fa count numa_node zone of
                Panic \<Rightarrow> Panic
              | Done (Ok frame, fa') \<Rightarrow> Done (Ok frame, fa')
              | Done (Err _, fa') \<Rightarrow> Done (allocate_buddy_with_zone fa' count numa_node zone)
            else Done (allocate_buddy_with_zone fa count numa_node zone)) of
        Panic \<Rightarrow> Panic
      | Done (r, fa') \<Rightarrow>
          Done (r, fa'\<lparr>fa_stats := (fa_stats fa')\<lparr>fs_allocation_time_ns :=
                        fs_allocation_time_ns (fa_stats fa') + elapsed\<rparr>,
                       fa_allocation_count := fa_allocation_count fa' + 1\<rparr>))"

definition allocate_frames ::
    "u64 \<Rightarrow> frame_allocator \<Rightarrow> usize \<Rightarrow> usize option \<Rightarrow>
     ((frame_number, frame_error) result \<times> frame_allocator) outcome" where
  "allocate_frames elapsed fa count numa_node = allocate_frames_in_zone elapsed fa count numa_node None"

fun mark_used_from ::
    "frame_allocator \<Rightarrow> nat list \<Rightarrow> frame_number \<Rightarrow> ((unit, frame_error) result \<times> frame_allocator) outcome" where
  "mark_used_from fa [] frame = Done (Ok (), fa)"
| "mark_used_from fa (i # is) frame =
     (case fa_bitmaps fa ! i of
        None \<Rightarrow> mark_used_from fa is frame
      | Some a \<Rightarrow>
          (case bm_mark_used a frame of
             Panic \<Rightarrow> Panic
           | Done (Err e, a') \<Rightarrow> Done (Err e, set_bitmap fa i a')
           | Done (Ok _, a') \<Rightarrow> mark_used_from (set_bitmap fa i a') is frame))"

definition mark_frame_used ::
    "frame_allocator \<Rightarrow> frame_number \<Rightarrow> ((unit, frame_error) result \<times> frame_allocator) outcome" where
  "mark_frame_used fa frame = mark_used_from fa [0..<MAX_NUMA_NODES] frame"

fun free_in_bitmaps ::
    "frame_allocator \<Rightarrow> nat list \<Rightarrow> frame_number \<Rightarrow> usize \<Rightarrow> (bool \<times> frame_allocator) outcome" where
  "free_in_bitmaps fa [] frame count = Done (False, fa)"
| "free_in_bitmaps fa (i # is) frame count =
     (case fa_bitmaps fa ! i of
        None \<Rightarrow> free_in_bitmaps fa is frame count
      | Some a \<Rightarrow>
          (case bm_free a frame count of
             Panic \<Rightarrow> Panic
           | Done (Ok _, a') \<Rightarrow> Done (True, set_bitmap fa i a')
           | Done (Err _, a') \<Rightarrow> free_in_bitmaps (set_bitmap fa i a') is frame count))"

fun free_in_buddies ::
    "frame_allocator \<Rightarrow> nat list \<Rightarrow> frame_number \<Rightarrow> usize \<Rightarrow> bool \<times> frame_allocator" where
  "free_in_buddies fa [] frame count = (False, fa)"
| "free_in_buddies fa (i # is) frame count =
     (case fa_buddies fa ! i of
        None \<Rightarrow> free_in_buddies fa is frame count
      | Some b \<Rightarrow>
          (case bd_free b frame count of
             (Ok _, b') \<Rightarrow> (True, set_buddy fa i b')
           | (Err _, b') \<Rightarrow> free_in_buddies (set_buddy fa i b') is frame count))"

definition free_frames ::
    "frame_allocator \<Rightarrow> frame_number \<Rightarrow> usize \<Rightarrow> ((unit, frame_error) result \<times> frame_allocator) outcome" where
  "free_frames fa frame count =
     (case free_in_bitmaps fa [0..<MAX_NUMA_NODES] frame count of
        Panic \<Rightarrow> Panic
      | Done (True, fa') \<Rightarrow> Done (Ok (), fa')
      | Done (False, fa') \<Rightarrow>
          (case free_in_buddies fa' [0..<MAX_NUMA_NODES] frame count of
             (True, fa'') \<Rightarrow> Done (Ok (), fa'')
           | (False, fa'') \<Rightarrow> Done (Err InvalidFrame, fa'')))"

definition get_stats :: "frame_allocator \<Rightarrow> frame_allocator_stats" where
  "get_stats fa =
     (fa_stats fa)\<lparr>
       fs_free_frames := sum_list (map bm_free_count (List.map_filter id (fa_bitmaps fa))) +
         sum_list (map bd_free_count (List.map_filter id (fa_buddies fa))),
       fs_total_frames := sum_list (map bm_total (List.map_filter id (fa_bitmaps fa))) +
         sum_list (map bd_total (List.map_filter id (fa_buddies fa)))\<rparr>"

definition free_frame :: "frame_allocator \<Rightarrow> frame_number \<Rightarrow> frame_allocator outcome" where
  "free_frame fa frame =
     (case free_frames fa frame 1 of Panic \<Rightarrow> Panic | Done (_, fa') \<Rightarrow> Done fa')"

definition deallocate_frame :: "frame_allocator \<Rightarrow> physical_address \<Rightarrow> frame_allocator outcome" where
  "deallocate_frame fa addr = free_frame fa (as_frame addr)"

text \<open>The guards of \<open>raii.rs\<close>: the frames they hold, and what dropping them does.\<close>

definition allocate_frame_raii ::
    "u64 \<Rightarrow> frame_allocator \<Rightarrow> ((frame_number, frame_error) result \<times> frame_allocator) outcome" where
  "allocate_frame_raii elapsed fa = allocate_frames elapsed fa 1 None"

definition allocate_frame_raii_numa ::
    "u64 \<Rightarrow> frame_allocator \<Rightarrow> usize \<Rightarrow> ((frame_number, frame_error) result \<times> frame_allocator) outcome" where
  "allocate_frame_raii_numa elapsed fa numa_node = allocate_frames elapsed fa 1 (Some numa_node)"

definition drop_frame_guard :: "frame_allocator \<Rightarrow> frame_number \<Rightarrow> frame_allocator outcome" where
  "drop_frame_guard fa frame = free_frame fa frame"

definition allocate_frames_raii ::
    "u64 \<Rightarrow> frame_allocator \<Rightarrow> usize \<Rightarrow> ((frame_number list, frame_error) result \<times> frame_allocator) outcome" where
  "allocate_frames_raii elapsed fa count =
     (case allocate_frames elapsed fa count None of
        Panic \<Rightarrow> Panic
      | Done (Err e, fa') \<Rightarrow> Done (Err e, fa')
      | Done (Ok start, fa') \<Rightarrow> Done (Ok (map (\<lambda>i. start + of_nat i) [0..<unat count]), fa'))"

fun drop_frames_guard :: "frame_allocator \<Rightarrow> frame_number list \<Rightarrow> frame_allocator outcome" where
  "drop_frames_guard fa [] = Done fa"
| "drop_frames_guard fa (f # fs) =
     (case free_frame fa f of Panic \<Rightarrow> Panic | Done fa' \<Rightarrow> drop_frames_guard fa' fs)"

section \<open>The page caches\<close>

record page_cache =
  pc_frames :: "u64 list"
  pc_count :: nat

definition CACHE_CAPACITY :: nat where "CACHE_CAPACITY = 64"
definition LOW_WATERMARK :: nat where "LOW_WATERMARK = 16"
definition HIGH_WATERMARK :: nat where "HIGH_WATERMARK = 48"
definition CACHE_BATCH_SIZE :: nat where "CACHE_BATCH_SIZE = 32"

definition pc_new :: page_cache where
  "pc_new = \<lparr>pc_frames = replicate CACHE_CAPACITY 0, pc_count = 0\<rparr>"

definition alloc_one :: "page_cache \<Rightarrow> frame_number option \<times> page_cache" where
  "alloc_one c =
     (if pc_count c = 0 then (None, c)
      else (Some (pc_frames c ! (pc_count c - 1)), c\<lparr>pc_count := pc_count c - 1\<rparr>))"

definition free_one :: "page_cache \<Rightarrow> frame_number \<Rightarrow> bool \<times> page_cache" where
  "free_one c frame =
     (if CACHE_CAPACITY \<le> pc_count c then (False, c)
      else (True, c\<lparr>pc_frames := (pc_frames c)[pc_count c := frame], pc_count := pc_count c + 1\<rparr>))"

definition needs_refill :: "page_cache \<Rightarrow> bool" where
  "needs_refill c = (pc_count c < LOW_WATERMARK)"

definition needs_drain :: "page_cache \<Rightarrow> bool" where
  "needs_drain c = (HIGH_WATERMARK < pc_count c)"

text \<open>The clock readings of the allocations of a batch are given one by one.\<close>

fun refill_loop ::
    "(nat \<Rightarrow> u64) \<Rightarrow> nat \<Rightarrow> page_cache \<Rightarrow> frame_allocator \<Rightarrow> (page_cache \<times> frame_allocator) outcome" where
  "refill_loop clock 0 c fa = Done (c, fa)"
| "refill_loop clock (Suc n) c fa =
     (case allocate_frames (clock n) fa 1 None of
        Panic \<Rightarrow> Panic
      | Done (Err _, fa') \<Rightarrow> Done (c, fa')
      | Done (Ok frame, fa') \<Rightarrow>
          refill_loop clock n
            (c\<lparr>pc_frames := (pc_frames c)[pc_count c := frame], pc_count := pc_count c + 1\<rparr>) fa')"

definition batch_refill ::
    "(nat \<Rightarrow> u64) \<Rightarrow> page_cache \<Rightarrow> frame_allocator \<Rightarrow> (page_cache \<times> frame_allocator) outcome" where
  "batch_refill clock c fa = refill_loop clock (min CACHE_BATCH_SIZE (CACHE_CAPACITY - pc_count c)) c fa"

fun drain_loop :: "nat \<Rightarrow> page_cache \<Rightarrow> frame_allocator \<Rightarrow> (page_cache \<times> frame_allocator) outcome" where
  "drain_loop 0 c fa = Done (c, fa)"
| "drain_loop (Suc n) c fa =
     (if pc_count c = 0 then Done (c, fa)
      else
        let c' = c\<lparr>pc_count := pc_count c - 1\<rparr> in
        case free_frames fa (pc_frames c ! (pc_count c - 1)) 1 of
          Panic \<Rightarrow> Panic
        | Done (_, fa') \<Rightarrow> drain_loop n c' fa')"

definition batch_drain :: "page_cache \<Rightarrow> frame_allocator \<Rightarrow> (page_cache \<times> frame_allocator) outcome" where
  "batch_drain c fa = drain_loop (min CACHE_BATCH_SIZE (pc_count c)) c fa"

record mm_state =
  mm_frames :: frame_allocator
  mm_caches :: "page_cache list"

definition cache_index :: "usize \<Rightarrow> nat" where
  "cache_index cpu_id = min (unat cpu_id) 15"

definition mm_set :: "mm_state \<Rightarrow> nat \<Rightarrow> page_cache \<times> frame_allocator \<Rightarrow> mm_state" where
  "mm_set st i cf = st\<lparr>mm_frames := snd cf, mm_caches := (mm_caches st)[i := fst cf]\<rparr>"

definition per_cpu_alloc_frame ::
    "(nat \<Rightarrow> u64) \<Rightarrow> usize \<Rightarrow> mm_state \<Rightarrow> ((frame_number, frame_error) result \<times> mm_state) outcome" where
  "per_cpu_alloc_frame clock cpu_id st =
     (let i = cache_index cpu_id; c = mm_caches st ! i; fa = mm_frames st in
      case alloc_one c of
        (Some frame, c') \<Rightarrow> Done (Ok frame, mm_set st i (c', fa))
      | (None, _) \<Rightarrow>
          (case batch_refill clock c fa of
             Panic \<Rightarrow> Panic
           | Done (c1, fa1) \<Rightarrow>
               (case alloc_one c1 of
                  (Some frame, c2) \<Rightarrow> Done (Ok frame, mm_set st i (c2, fa1))
                | (None, _) \<Rightarrow>
                    (case allocate_frames (clock CACHE_BATCH_SIZE) fa1 1 None of
                       Panic \<Rightarrow> Panic
                     | Done (r, fa2) \<Rightarrow> Done (r, mm_set st i (c1, fa2))))))"

definition per_cpu_free_frame ::
    "usize \<Rightarrow> frame_number \<Rightarrow> mm_state \<Rightarrow> ((unit, frame_error) result \<times> mm_state) outcome" where
  "per_cpu_free_frame cpu_id frame st =
     (let i = cache_index cpu_id; c = mm_caches st ! i; fa = mm_frames st in
      case free_one c frame of
        (True, c1) \<Rightarrow>
          if needs_drain c1 then
            (case batch_drain c1 fa of
               Panic \<Rightarrow> Panic | Done cf \<Rightarrow> Done (Ok (), mm_set st i cf))
          else Done (Ok (), mm_set st i (c1, fa))
      | (False, _) \<Rightarrow>
          (case batch_drain c fa of
             Panic \<Rightarrow> Panic
           | Done (c1, fa1) \<Rightarrow>
               (case free_one c1 frame of
                  (True, c2) \<Rightarrow> Done (Ok (), mm_set st i (c2, fa1))
                | (False, _) \<Rightarrow>
                    (case free_frames fa1 frame 1 of
                       Panic \<Rightarrow> Panic
                     | Done (r, fa2) \<Rightarrow> Done (r, mm_set st i (c1, fa2))))))"

section \<open>The interface of the memory manager\<close>

record mm_region =
  mmr_start :: u64
  mmr_size :: u64
  mmr_usable :: bool

fun mm_init_from ::
    "frame_allocator \<Rightarrow> nat \<Rightarrow> mm_region list \<Rightarrow> frame_allocator outcome" where
  "mm_init_from fa idx [] = Done fa"
| "mm_init_from fa idx (region # rs) =
     (if mmr_usable region then
        case init_numa_node fa (of_nat (min idx 7)) (as_frame (mmr_start region)) (mmr_size region div FRAME_SIZE) of
          Panic \<Rightarrow> Panic
        | Done (_, fa') \<Rightarrow> mm_init_from fa' (idx + 1) rs
      else mm_init_from fa (idx + 1) rs)"

definition mm_init :: "frame_allocator \<Rightarrow> mm_region list \<Rightarrow> frame_allocator outcome" where
  "mm_init fa memory_map = mm_init_from fa 0 memory_map"

definition allocate_pages ::
    "u64 \<Rightarrow> frame_allocator \<Rightarrow> usize \<Rightarrow> usize option \<Rightarrow>
     ((frame_number list, frame_error) result \<times> frame_allocator) outcome" where
  "allocate_pages elapsed fa count numa_node =
     (case allocate_frames elapsed fa count numa_node of
        Panic \<Rightarrow> Panic
      | Done (Err e, fa') \<Rightarrow> Done (Err e, fa')
      | Done (Ok frame, fa') \<Rightarrow> Done (Ok (map (\<lambda>i. frame + of_nat i) [0..<unat count]), fa'))"

definition free_pages ::
    "frame_allocator \<Rightarrow> frame_number list \<Rightarrow> ((unit, frame_error) result \<times> frame_allocator) outcome" where
  "free_pages fa pages =
     (case pages of
        [] \<Rightarrow> Done (Ok (), fa)
      | first # _ \<Rightarrow> free_frames fa first (of_nat (length pages)))"

end
