(* ===== verification/Mm_Ownership.thy ===== *)
theory Mm_Ownership
  imports Mm_Frame
begin

text \<open>
  Ownership of physical frames. \<open>fa_free\<close> counts in how many places of the frame allocator a frame is
  free, \<open>kept\<close> adds the page caches. Allocation lowers the count on the frames it hands over
  (\<open>handed_over\<close>) and raises it nowhere, release raises it on the frames it takes back (\<open>released\<close>) at most,
  and the caches move frames without creating any. The invariant \<open>mm_inv\<close> of the histories of a machine
  with one memory region says that no frame is in two places.
\<close>

section \<open>Counting free frames\<close>

definition bm_count :: "nat \<Rightarrow> bitmap_allocator option \<Rightarrow> nat" where
  "bm_count x ao = (case ao of None \<Rightarrow> 0 | Some a \<Rightarrow> of_bool (bm_is_free a x))"

definition bd_count :: "nat \<Rightarrow> buddy_allocator option \<Rightarrow> nat" where
  "bd_count x bo = (case bo of None \<Rightarrow> 0 | Some b \<Rightarrow> bd_cover b x)"

text \<open>In how many places of the allocator a frame is free.\<close>

definition fa_free :: "frame_allocator \<Rightarrow> nat \<Rightarrow> nat" where
  "fa_free fa x = sum_list (map (bm_count x) (fa_bitmaps fa)) + sum_list (map (bd_count x) (fa_buddies fa))"

text \<open>Well-formed allocators whose bitmaps all start at frame \<open>s\<close>.\<close>

definition fa_ok :: "frame_number \<Rightarrow> frame_allocator \<Rightarrow> bool" where
  "fa_ok s fa = (length (fa_bitmaps fa) = MAX_NUMA_NODES \<and> length (fa_buddies fa) = MAX_NUMA_NODES \<and>
     (\<forall>a. Some a \<in> set (fa_bitmaps fa) \<longrightarrow> bm_wf a \<and> bm_start a = s) \<and>
     (\<forall>b. Some b \<in> set (fa_buddies fa) \<longrightarrow> bd_wf b))"

lemma sum_list_map_update:
  fixes g :: "'a \<Rightarrow> nat"
  shows "i < length xs \<Longrightarrow> sum_list (map g (xs[i := y])) + g (xs ! i) = sum_list (map g xs) + g y"
  by (induction xs arbitrary: i) (auto split: nat.split)

lemma fa_ok_bitmap:
  assumes "fa_ok s fa" and "i < MAX_NUMA_NODES" and "fa_bitmaps fa ! i = Some a"
  shows "bm_wf a" "bm_start a = s"
  using assms nth_mem [of i "fa_bitmaps fa"] by (simp_all add: fa_ok_def)

lemma fa_ok_buddy:
  assumes "fa_ok s fa" and "i < MAX_NUMA_NODES" and "fa_buddies fa ! i = Some b"
  shows "bd_wf b"
  using assms nth_mem [of i "fa_buddies fa"] by (simp add: fa_ok_def)

lemma set_bitmap_ok:
  assumes "fa_ok s fa" and "bm_wf a" and "bm_start a = s"
  shows "fa_ok s (set_bitmap fa i a)"
  using assms set_update_subset_insert [of "fa_bitmaps fa" i "Some a"]
  by (auto simp: fa_ok_def set_bitmap_def)

lemma set_buddy_ok: "fa_ok s fa \<Longrightarrow> bd_wf b \<Longrightarrow> fa_ok s (set_buddy fa i b)"
  using set_update_subset_insert [of "fa_buddies fa" i "Some b"]
  by (auto simp: fa_ok_def set_buddy_def)

lemma set_bitmap_free:
  assumes "fa_ok s fa" and "i < MAX_NUMA_NODES" and "fa_bitmaps fa ! i = Some a"
  shows "fa_free (set_bitmap fa i a') x + of_bool (bm_is_free a x) = fa_free fa x + of_bool (bm_is_free a' x)"
  using sum_list_map_update [of i "fa_bitmaps fa" "bm_count x" "Some a'"] assms
  by (simp add: fa_free_def set_bitmap_def fa_ok_def bm_count_def)

lemma set_buddy_free:
  assumes "fa_ok s fa" and "i < MAX_NUMA_NODES" and "fa_buddies fa ! i = Some b"
  shows "fa_free (set_buddy fa i b') x + bd_cover b x = fa_free fa x + bd_cover b' x"
  using sum_list_map_update [of i "fa_buddies fa" "bd_count x" "Some b'"] assms
  by (simp add: fa_free_def set_buddy_def fa_ok_def bd_count_def)

section \<open>Allocation\<close>

text \<open>The frames that a successful request hands over: a buddy block is rounded up.\<close>

definition frames :: "frame_number \<Rightarrow> usize \<Rightarrow> nat set" where
  "frames f count = {unat f..<unat f + unat count}"

definition in_window :: "frame_allocator \<Rightarrow> frame_number \<Rightarrow> bool" where
  "in_window fa f = (\<exists>a. Some a \<in> set (fa_bitmaps fa) \<and> unat (bm_start a) \<le> unat f \<and>
     unat f < unat (bm_start a) + 64 * BITMAP_WORDS)"

definition handed_over :: "frame_allocator \<Rightarrow> frame_number \<Rightarrow> usize \<Rightarrow> nat set" where
  "handed_over fa f count = (if in_window fa f then frames f count else block f (get_order count))"

text \<open>What an attempt may change: it takes at most the frames it returns.\<close>

definition takes :: "frame_number \<Rightarrow> usize \<Rightarrow> frame_allocator \<Rightarrow>
    (frame_number, frame_error) result option \<times> frame_allocator \<Rightarrow> bool" where
  "takes s count fa rf = (case rf of (r, fa') \<Rightarrow> fa_ok s fa' \<and>
     (case r of
        Some (Ok f) \<Rightarrow> 0 < count \<and> frames f count \<subseteq> handed_over fa' f count \<and>
          (\<forall>x. fa_free fa' x + of_bool (x \<in> handed_over fa' f count) \<le> fa_free fa x)
      | _ \<Rightarrow> \<forall>x. fa_free fa' x \<le> fa_free fa x))"

lemma takes_refl: "fa_ok s fa \<Longrightarrow> takes s count fa (None, fa)"
  by (simp add: takes_def)

lemma takes_trans:
  assumes "takes s count fa (r, fa')" and "\<forall>f. r \<noteq> Some (Ok f)" and "takes s count fa' rf"
  shows "takes s count fa rf"
proof -
  have le: "fa_free fa' x \<le> fa_free fa x" for x
    using assms(1,2) by (auto simp: takes_def split: option.splits result.splits)
  obtain r' fa'' where rf: "rf = (r', fa'')" by fastforce
  show ?thesis
  proof (cases "\<exists>f. r' = Some (Ok f)")
    case True
    then obtain f where f: "r' = Some (Ok f)" by blast
    have "fa_free fa'' x + of_bool (x \<in> handed_over fa'' f count) \<le> fa_free fa x" for x
      using assms(3) le [of x] by (auto simp: takes_def rf f dest: spec [of _ x])
    then show ?thesis using assms(3) by (simp add: takes_def rf f)
  next
    case False
    then have "\<forall>x. fa_free fa'' x \<le> fa_free fa' x"
      using assms(3) by (auto simp: takes_def rf split: option.splits result.splits)
    then have "\<forall>x. fa_free fa'' x \<le> fa_free fa x" using le order_trans by blast
    then show ?thesis using assms(3) False by (auto simp: takes_def rf split: option.splits result.splits)
  qed
qed

text \<open>An attempt on a bitmap that is given back.\<close>

lemma bm_allocate_return:
  assumes "bm_wf a" and "bm_allocate a count = (Ok f, a')"
  shows "\<exists>r a''. bm_free a' f count = Done (r, a'') \<and> bm_wf a'' \<and> bm_start a'' = bm_start a \<and>
           (\<forall>x. bm_is_free a'' x \<longrightarrow> bm_is_free a x)"
proof -
  note fr = bm_allocate_frames [OF assms]
  show ?thesis
  proof (cases "unat f + unat count \<le> unat (bm_start a) + unat (bm_total a)")
    case True
    then show ?thesis using bm_allocate_free [OF assms True] assms(1) by auto
  next
    case False
    have "unat f + unat count < 2 ^ 64" using fr(7) assms(1) by (simp add: bm_wf_def)
    then have "bm_free a' f count = Done (Err InvalidFrame, a')"
      using bm_free_outside [OF fr(1)] fr(2,3,6) False by simp
    then show ?thesis using fr by auto
  qed
qed

lemma try_bitmap_node_takes:
  assumes ok: "fa_ok s fa" and i: "i < MAX_NUMA_NODES"
  shows "\<exists>rf. try_bitmap_node fa i count zone = Done rf \<and> takes s count fa rf"
proof (cases "fa_bitmaps fa ! i")
  case None
  then show ?thesis using takes_refl [OF ok] by (simp add: try_bitmap_node_def)
next
  case (Some a)
  note a = fa_ok_bitmap [OF ok i Some]
  obtain r a' where ra: "bm_allocate a count = (r, a')" by fastforce
  show ?thesis
  proof (cases r)
    case (Err e)
    then show ?thesis using takes_refl [OF ok] Some ra by (simp add: try_bitmap_node_def)
  next
    case (Ok f)
    note fr = bm_allocate_frames [OF a(1) ra [unfolded Ok]]
    from bm_allocate_return [OF a(1) ra [unfolded Ok]] obtain r2 a2 where
      gb: "bm_free a' f count = Done (r2, a2)" "bm_wf a2" "bm_start a2 = bm_start a"
        "\<forall>x. bm_is_free a2 x \<longrightarrow> bm_is_free a x" by blast
    have "of_bool (bm_is_free a2 x) \<le> (of_bool (bm_is_free a x) :: nat)" for x using gb(4) by simp
    then have "fa_free (set_bitmap fa i a2) x \<le> fa_free fa x" for x
      using set_bitmap_free [OF ok i Some, of a2 x] by (metis add_le_cancel_left add_le_cancel_right)
    then have given: "takes s count fa (Some (Err OutOfMemory), set_bitmap fa i a2)"
      "takes s count fa (None, set_bitmap fa i a2)"
      using set_bitmap_ok [OF ok gb(2)] gb(3) a(2) by (auto simp: takes_def)
    let ?fa = "set_bitmap fa i a'"
    have "Some a' \<in> set (fa_bitmaps ?fa)"
      using i ok by (auto simp: set_bitmap_def fa_ok_def intro: set_update_memI)
    then have "in_window ?fa f"
      using fr(2,4,6,7) by (force simp: in_window_def word_le_nat_alt word_less_nat_alt)
    then have g: "handed_over ?fa f count = {unat f..<unat f + unat count}" by (simp add: handed_over_def frames_def)
    have "fa_free ?fa x + of_bool (x \<in> handed_over ?fa f count) \<le> fa_free fa x" for x
      using set_bitmap_free [OF ok i Some, of a' x] fr(8,9) unfolding g by (cases "x \<in> {unat f..<unat f + unat count}") auto
    moreover have "frames f count \<subseteq> handed_over ?fa f count" unfolding g by (simp add: frames_def)
    ultimately have "takes s count fa (Some (Ok f), ?fa)"
      using set_bitmap_ok [OF ok fr(1)] fr(2,4) a(2) by (simp add: takes_def)
    then show ?thesis using given Some ra Ok gb(1) by (auto simp: try_bitmap_node_def)
  qed
qed

lemma handed_subset_block:
  assumes "get_order count < BUDDY_ORDERS"
  shows "handed_over fa f count \<subseteq> block f (get_order count)"
proof -
  have "unat count \<le> 2 ^ get_order count"
    using assms by (intro get_order_covers) (simp add: BUDDY_ORDERS_def)
  then show ?thesis by (auto simp: handed_over_def frames_def block_def)
qed

lemma frames_handed:
  assumes "get_order count < BUDDY_ORDERS"
  shows "frames f count \<subseteq> handed_over fa f count"
proof -
  have "unat count \<le> 2 ^ get_order count"
    using assms by (intro get_order_covers) (simp add: BUDDY_ORDERS_def)
  then show ?thesis by (auto simp: handed_over_def frames_def block_def)
qed

lemma try_buddy_node_takes:
  assumes ok: "fa_ok s fa" and i: "i < MAX_NUMA_NODES"
  shows "takes s count fa (try_buddy_node fa i count zone)"
proof (cases "fa_buddies fa ! i")
  case None
  then show ?thesis using takes_refl [OF ok] by (simp add: try_buddy_node_def)
next
  case (Some b)
  note b = fa_ok_buddy [OF ok i Some]
  obtain r b' where rb: "bd_allocate b count = (r, b')" by fastforce
  show ?thesis
  proof (cases r)
    case (Err e)
    then show ?thesis using takes_refl [OF ok] Some rb by (simp add: try_buddy_node_def)
  next
    case (Ok f)
    note fr = bd_allocate_frames [OF b rb [unfolded Ok]]
    from bd_free_frames [OF fr(1) fr(4,3)] obtain b2 where
      gb: "bd_free b' f count = (Ok (), b2)" "bd_wf b2"
        "\<forall>x. bd_cover b2 x = bd_cover b' x + covers (get_order count) f x" by blast
    have "fa_free (set_buddy fa i b2) x = fa_free fa x" for x
      using set_buddy_free [OF ok i Some, of b2 x] gb(3) fr(5) [of x] by simp
    then have given: "takes s count fa (Some (Err OutOfMemory), set_buddy fa i b2)"
      "takes s count fa (None, set_buddy fa i b2)"
      using set_buddy_ok [OF ok gb(2)] by (auto simp: takes_def)
    let ?fa = "set_buddy fa i b'"
    have le: "of_bool (x \<in> handed_over ?fa f count) \<le> covers (get_order count) f x" for x
      using handed_subset_block [OF fr(3), of ?fa f] by (auto simp: covers_def)
    have "fa_free ?fa x + of_bool (x \<in> handed_over ?fa f count) \<le> fa_free fa x" for x
      using set_buddy_free [OF ok i Some, of b' x] fr(5) [of x] le [of x] by linarith
    then have "takes s count fa (Some (Ok f), ?fa)"
      using set_buddy_ok [OF ok fr(1)] fr(2) frames_handed [OF fr(3)] by (simp add: takes_def word_neq_0_conv)
    then show ?thesis using given Some rb Ok gb(1) by (simp add: try_buddy_node_def)
  qed
qed

lemma try_bitmaps_takes:
  assumes "fa_ok s fa" and "set is \<subseteq> {..<MAX_NUMA_NODES}"
  shows "\<exists>r fa'. try_bitmaps fa is count = Done (r, fa') \<and> takes s count fa (Some r, fa')"
  using assms
proof (induction "is" arbitrary: fa)
  case Nil
  then show ?case by (simp add: takes_def)
next
  case (Cons i ns)
  then obtain r fa1 where t: "try_bitmap_node fa i count None = Done (r, fa1)" "takes s count fa (r, fa1)"
    using try_bitmap_node_takes [OF Cons.prems(1), of i count None] by auto
  show ?case
  proof (cases r)
    case None
    have "fa_ok s fa1" using t(2) by (simp add: takes_def)
    from Cons.IH [OF this] Cons.prems(2) obtain r' fa' where
      "try_bitmaps fa1 ns count = Done (r', fa')" "takes s count fa1 (Some r', fa')" by auto
    then show ?thesis using t None takes_trans [OF t(2)] by auto
  next
    case (Some r')
    then show ?thesis using t by simp
  qed
qed

lemma try_buddies_takes:
  assumes "fa_ok s fa" and "set is \<subseteq> {..<MAX_NUMA_NODES}"
  shows "\<exists>r fa'. try_buddies fa is count = (r, fa') \<and> takes s count fa (Some r, fa')"
  using assms
proof (induction "is" arbitrary: fa)
  case Nil
  then show ?case by (simp add: takes_def)
next
  case (Cons i ns)
  then obtain r fa1 where t: "try_buddy_node fa i count None = (r, fa1)" "takes s count fa (r, fa1)"
    using try_buddy_node_takes [OF Cons.prems(1), of i count None]
    by (cases "try_buddy_node fa i count None") auto
  show ?case
  proof (cases r)
    case None
    have "fa_ok s fa1" using t(2) by (simp add: takes_def)
    from Cons.IH [OF this] Cons.prems(2) obtain r' fa' where
      "try_buddies fa1 ns count = (r', fa')" "takes s count fa1 (Some r', fa')" by auto
    then show ?thesis using t None takes_trans [OF t(2)] by auto
  next
    case (Some r')
    then show ?thesis using t by simp
  qed
qed

lemma nodes_subset: "set [0..<MAX_NUMA_NODES] \<subseteq> {..<MAX_NUMA_NODES}"
  by auto

lemma allocate_bitmap_internal_takes:
  assumes ok: "fa_ok s fa"
  shows "\<exists>r fa'. allocate_bitmap_internal fa count numa zone = Done (r, fa') \<and> takes s count fa (Some r, fa')"
proof -
  let ?first = "case numa of
      Some node \<Rightarrow> if unat node < MAX_NUMA_NODES then try_bitmap_node fa (unat node) count zone
                   else Done (None, fa)
    | None \<Rightarrow> Done (None, fa)"
  have "\<exists>rf. ?first = Done rf \<and> takes s count fa rf"
    using try_bitmap_node_takes [OF ok] takes_refl [OF ok] by (auto split: option.split)
  then obtain r fa1 where f: "?first = Done (r, fa1)" "takes s count fa (r, fa1)" by auto
  show ?thesis
  proof (cases r)
    case None
    have "fa_ok s fa1" using f(2) by (simp add: takes_def)
    from try_bitmaps_takes [OF this nodes_subset] obtain r' fa' where
      "try_bitmaps fa1 [0..<MAX_NUMA_NODES] count = Done (r', fa')" "takes s count fa1 (Some r', fa')" by blast
    then show ?thesis using f None takes_trans [OF f(2)] by (simp add: allocate_bitmap_internal_def)
  next
    case (Some r')
    then show ?thesis using f by (simp add: allocate_bitmap_internal_def)
  qed
qed

lemma allocate_buddy_internal_takes:
  assumes ok: "fa_ok s fa"
  shows "\<exists>r fa'. allocate_buddy_internal fa count numa zone = (r, fa') \<and> takes s count fa (Some r, fa')"
proof -
  let ?first = "case numa of
      Some node \<Rightarrow> if unat node < MAX_NUMA_NODES then try_buddy_node fa (unat node) count zone
                   else (None, fa)
    | None \<Rightarrow> (None, fa)"
  have "takes s count fa ?first"
    using try_buddy_node_takes [OF ok] takes_refl [OF ok] by (auto split: option.split)
  then obtain r fa1 where f: "?first = (r, fa1)" "takes s count fa (r, fa1)" by (cases ?first) simp
  show ?thesis
  proof (cases r)
    case None
    have "fa_ok s fa1" using f(2) by (simp add: takes_def)
    from try_buddies_takes [OF this nodes_subset] obtain r' fa' where
      "try_buddies fa1 [0..<MAX_NUMA_NODES] count = (r', fa')" "takes s count fa1 (Some r', fa')" by blast
    then show ?thesis using f None takes_trans [OF f(2)] by (simp add: allocate_buddy_internal_def)
  next
    case (Some r')
    then show ?thesis using f by (simp add: allocate_buddy_internal_def)
  qed
qed

lemma takes_ok: "takes s count fa (r, fa') \<Longrightarrow> fa_ok s fa'"
  by (simp add: takes_def)

lemma takes_Err: "takes s count fa (Some (Err e), fa') \<longleftrightarrow> takes s count fa (Some (Err e'), fa')"
  by (simp add: takes_def)

lemma allocate_bitmap_with_zone_takes:
  assumes ok: "fa_ok s fa"
  shows "\<exists>r fa'. allocate_bitmap_with_zone fa count numa zone = Done (r, fa') \<and> takes s count fa (Some r, fa')"
proof -
  from allocate_bitmap_internal_takes [OF ok] obtain r fa1 where
    f: "allocate_bitmap_internal fa count numa zone = Done (r, fa1)" "takes s count fa (Some r, fa1)" by blast
  show ?thesis
  proof (cases r)
    case (Ok frame)
    then show ?thesis using f by (simp add: allocate_bitmap_with_zone_def)
  next
    case (Err e)
    from allocate_bitmap_internal_takes [OF takes_ok [OF f(2)], of count numa None] obtain r' fa' where
      "allocate_bitmap_internal fa1 count numa None = Done (r', fa')" "takes s count fa1 (Some r', fa')" by blast
    then show ?thesis
      using f Err takes_trans [OF f(2)] takes_Err [of s count fa e fa1 OutOfMemory]
      by (auto simp: allocate_bitmap_with_zone_def)
  qed
qed

lemma allocate_buddy_with_zone_takes:
  assumes ok: "fa_ok s fa"
  shows "\<exists>r fa'. allocate_buddy_with_zone fa count numa zone = (r, fa') \<and> takes s count fa (Some r, fa')"
proof -
  from allocate_buddy_internal_takes [OF ok] obtain r fa1 where
    f: "allocate_buddy_internal fa count numa zone = (r, fa1)" "takes s count fa (Some r, fa1)" by blast
  show ?thesis
  proof (cases r)
    case (Ok frame)
    then show ?thesis using f by (simp add: allocate_buddy_with_zone_def)
  next
    case (Err e)
    from allocate_buddy_internal_takes [OF takes_ok [OF f(2)], of count numa None] obtain r' fa' where
      "allocate_buddy_internal fa1 count numa None = (r', fa')" "takes s count fa1 (Some r', fa')" by blast
    then show ?thesis
      using f Err takes_trans [OF f(2)] takes_Err [of s count fa e fa1 OutOfMemory]
      by (auto simp: allocate_buddy_with_zone_def)
  qed
qed

lemma fa_ok_stats [simp]: "fa_ok s (fa\<lparr>fa_stats := t, fa_allocation_count := n\<rparr>) = fa_ok s fa"
  by (simp add: fa_ok_def)

lemma takes_stats: "takes s count fa (r, fa'\<lparr>fa_stats := t, fa_allocation_count := n\<rparr>) = takes s count fa (r, fa')"
  by (simp add: takes_def handed_over_def in_window_def fa_free_def split: option.split result.split)

lemma allocate_frames_in_zone_takes:
  assumes ok: "fa_ok s fa"
  shows "\<exists>r fa'. allocate_frames_in_zone elapsed fa count numa zone = Done (r, fa') \<and> takes s count fa (Some r, fa')"
proof -
  let ?search = "if count < BITMAP_BUDDY_THRESHOLD then
              case allocate_bitmap_with_zone fa count numa zone of
                Panic \<Rightarrow> Panic
              | Done (Ok frame, fa') \<Rightarrow> Done (Ok frame, fa')
              | Done (Err _, fa') \<Rightarrow> Done (allocate_buddy_with_zone fa' count numa zone)
            else Done (allocate_buddy_with_zone fa count numa zone)"
  have "\<exists>r fa'. ?search = Done (r, fa') \<and> takes s count fa (Some r, fa')"
  proof (cases "count < BITMAP_BUDDY_THRESHOLD")
    case True
    from allocate_bitmap_with_zone_takes [OF ok] obtain r fa1 where
      f: "allocate_bitmap_with_zone fa count numa zone = Done (r, fa1)" "takes s count fa (Some r, fa1)" by blast
    show ?thesis
    proof (cases r)
      case (Ok frame)
      then show ?thesis using f True by simp
    next
      case (Err e)
      from allocate_buddy_with_zone_takes [OF takes_ok [OF f(2)]] obtain r' fa' where
        "allocate_buddy_with_zone fa1 count numa zone = (r', fa')" "takes s count fa1 (Some r', fa')" by blast
      then show ?thesis using f Err True takes_trans [OF f(2)] by simp
    qed
  next
    case False
    then show ?thesis using allocate_buddy_with_zone_takes [OF ok] by auto
  qed
  then show ?thesis unfolding allocate_frames_in_zone_def by (auto simp: takes_stats)
qed

section \<open>Release\<close>

text \<open>The frames that a release makes free.\<close>

definition in_node :: "bitmap_allocator \<Rightarrow> frame_number \<Rightarrow> usize \<Rightarrow> bool" where
  "in_node a f count = (unat (bm_start a) \<le> unat f \<and>
     unat f + unat count \<le> unat (bm_start a) + unat (bm_total a))"

definition released :: "frame_allocator \<Rightarrow> frame_number \<Rightarrow> usize \<Rightarrow> nat set" where
  "released fa f count =
     (if \<exists>a. Some a \<in> set (fa_bitmaps fa) \<and> in_node a f count then frames f count
      else if get_order count < BUDDY_ORDERS \<and> (\<exists>b. Some b \<in> set (fa_buddies fa))
      then block f (get_order count) else {})"

lemma bm_is_free_le: 
  assumes "fa_ok s fa" and "i < MAX_NUMA_NODES" and "fa_bitmaps fa ! i = Some a"
  shows "of_bool (bm_is_free a x) \<le> fa_free fa x"
  using set_bitmap_free [OF assms, of "a\<lparr>bm_bits := []\<rparr>" x] by (simp add: bm_is_free_def bit_at_def)

lemma free_in_bitmaps_spec:
  assumes ok: "fa_ok s fa" and low: "unat s \<le> unat f" and high: "unat f + unat count \<le> 2 ^ 63"
    and pos: "0 < count" and used: "\<forall>x \<in> frames f count. fa_free fa x = 0"
    and ns: "set ns \<subseteq> {..<MAX_NUMA_NODES}"
  shows "(\<exists>fa'. free_in_bitmaps fa ns f count = Done (True, fa') \<and> fa_ok s fa' \<and>
            (\<forall>x. fa_free fa' x = fa_free fa x + of_bool (x \<in> frames f count)) \<and>
            (\<exists>a. Some a \<in> set (fa_bitmaps fa) \<and> in_node a f count)) \<or>
         (free_in_bitmaps fa ns f count = Done (False, fa) \<and>
            (\<forall>i \<in> set ns. \<forall>a. fa_bitmaps fa ! i = Some a \<longrightarrow> \<not> in_node a f count))"
  using ns
proof (induction ns)
  case (Cons i ns)
  then have i: "i < MAX_NUMA_NODES" and IH: "?case" if "fa_bitmaps fa ! i = None"
    using that by (auto)
  show ?case
  proof (cases "fa_bitmaps fa ! i")
    case None
    then show ?thesis using IH by simp
  next
    case (Some a)
    have i: "i < MAX_NUMA_NODES" using Cons.prems by simp
    note a = fa_ok_bitmap [OF ok i Some]
    have mem: "Some a \<in> set (fa_bitmaps fa)" using Some i ok nth_mem [of i "fa_bitmaps fa"] by (simp add: fa_ok_def)
    have st: "bm_start a \<le> f" using low a(2) by (simp add: word_le_nat_alt)
    show ?thesis
    proof (cases "in_node a f count")
      case True
      have "\<forall>x \<in> {unat f..<unat f + unat count}. \<not> bm_is_free a x"
      proof
        fix x assume "x \<in> {unat f..<unat f + unat count}"
        then have "fa_free fa x = 0" using used by (simp add: frames_def)
        then show "\<not> bm_is_free a x" using bm_is_free_le [OF ok i Some, of x] by auto
      qed
      from bm_free_frames [OF a(1) st _ this] True obtain a' where
        a': "bm_free a f count = Done (Ok (), a')" "bm_wf a'" "bm_start a' = bm_start a"
        "\<forall>x. bm_is_free a' x \<longleftrightarrow> bm_is_free a x \<or> x \<in> {unat f..<unat f + unat count}"
        by (auto simp: in_node_def)
      have "fa_free (set_bitmap fa i a') x = fa_free fa x + of_bool (x \<in> frames f count)" for x
      proof (cases "x \<in> frames f count")
        case True
        then have "\<not> bm_is_free a x" using used bm_is_free_le [OF ok i Some, of x] by auto
        then show ?thesis
          using set_bitmap_free [OF ok i Some, of a' x] a'(4) True by (simp add: frames_def)
      next
        case False
        then have "bm_is_free a' x = bm_is_free a x" using a'(4) by (auto simp: frames_def)
        then show ?thesis using set_bitmap_free [OF ok i Some, of a' x] False by simp
      qed
      then show ?thesis
        using Some a'(1) mem True set_bitmap_ok [OF ok a'(2)] a'(3) a(2) by auto
    next
      case False
      have out: "bm_free a f count = Done (Err InvalidFrame, a)"
        using high False st by (intro bm_free_outside [OF a(1) st]) (auto simp: in_node_def word_le_nat_alt)
      have "set_bitmap fa i a = fa" using Some by (simp add: set_bitmap_def) (metis frame_allocator.surjective frame_allocator.update_convs(1) list_update_id)
      then have "free_in_bitmaps fa (i # ns) f count = free_in_bitmaps fa ns f count"
        using Some out by simp
      then show ?thesis using Cons False Some by auto
    qed
  qed
qed simp

lemma free_in_buddies_spec:
  assumes ok: "fa_ok s fa" and ib: "get_order count < BUDDY_ORDERS \<longrightarrow> (\<exists>b. Some b \<in> set (fa_buddies fa)) \<longrightarrow> in_bounds (get_order count) f"
    and ns: "set ns \<subseteq> {..<MAX_NUMA_NODES}"
  shows "\<exists>r fa'. free_in_buddies fa ns f count = (r, fa') \<and> fa_ok s fa' \<and>
    (\<forall>x. fa_free fa' x \<le> fa_free fa x +
      of_bool (get_order count < BUDDY_ORDERS \<and> (\<exists>b. Some b \<in> set (fa_buddies fa)) \<and> x \<in> block f (get_order count)))"
  using ns
proof (induction ns)
  case Nil
  show ?case using ok by (intro exI [of _ False] exI [of _ fa]) simp
next
  case (Cons i ns)
  show ?case
  proof (cases "fa_buddies fa ! i")
    case None
    then show ?thesis using Cons by simp
  next
    case (Some b)
    have i: "i < MAX_NUMA_NODES" using Cons.prems by simp
    note b = fa_ok_buddy [OF ok i Some]
    have mem: "Some b \<in> set (fa_buddies fa)" using Some i ok nth_mem [of i "fa_buddies fa"] by (simp add: fa_ok_def)
    show ?thesis
    proof (cases "get_order count < BUDDY_ORDERS")
      case True
      from bd_free_frames [OF b _ True] ib True mem obtain b' where
        b': "bd_free b f count = (Ok (), b')" "bd_wf b'"
          "\<forall>x. bd_cover b' x = bd_cover b x + covers (get_order count) f x" by blast
      have "fa_free (set_buddy fa i b') x = fa_free fa x + covers (get_order count) f x" for x
        using set_buddy_free [OF ok i Some, of b' x] b'(3) by simp
      then show ?thesis
        using Some b'(1) set_buddy_ok [OF ok b'(2)] mem True by (auto simp: covers_def)
    next
      case False
      then have "bd_free b f count = (Err InvalidSize, b)"
        using b by (simp add: bd_free_def bd_wf_def lists_ok_def)
      moreover have "set_buddy fa i b = fa"
        using Some by (simp add: set_buddy_def) (metis frame_allocator.surjective frame_allocator.update_convs(2) list_update_id)
      ultimately show ?thesis using Cons Some by simp
    qed
  qed
qed

lemma free_frames_spec:
  assumes ok: "fa_ok s fa" and low: "unat s \<le> unat f" and high: "unat f + unat count \<le> 2 ^ 63"
    and pos: "0 < count" and used: "\<forall>x \<in> frames f count. fa_free fa x = 0"
    and bound: "\<forall>x \<in> released fa f count. x < 2 ^ 63"
  shows "\<exists>r fa'. free_frames fa f count = Done (r, fa') \<and> fa_ok s fa' \<and>
           (\<forall>x. fa_free fa' x \<le> fa_free fa x + of_bool (x \<in> released fa f count))"
proof -
  from free_in_bitmaps_spec [OF ok low high pos used nodes_subset]
  consider (bitmap) fa' where "free_in_bitmaps fa [0..<MAX_NUMA_NODES] f count = Done (True, fa')"
      "fa_ok s fa'" "\<forall>x. fa_free fa' x = fa_free fa x + of_bool (x \<in> frames f count)"
      "\<exists>a. Some a \<in> set (fa_bitmaps fa) \<and> in_node a f count"
    | (none) "free_in_bitmaps fa [0..<MAX_NUMA_NODES] f count = Done (False, fa)"
      "\<forall>i < MAX_NUMA_NODES. \<forall>a. fa_bitmaps fa ! i = Some a \<longrightarrow> \<not> in_node a f count"
    by (auto simp: lessThan_def)
  then show ?thesis
  proof cases
    case bitmap
    then show ?thesis by (simp add: free_frames_def released_def)
  next
    case none
    have no: "\<not> (\<exists>a. Some a \<in> set (fa_bitmaps fa) \<and> in_node a f count)"
    proof
      assume "\<exists>a. Some a \<in> set (fa_bitmaps fa) \<and> in_node a f count"
      then obtain a where a: "Some a \<in> set (fa_bitmaps fa)" "in_node a f count" by blast
      then obtain i where "i < length (fa_bitmaps fa)" "fa_bitmaps fa ! i = Some a"
        by (auto simp: in_set_conv_nth)
      then show False using none(2) a(2) ok by (simp add: fa_ok_def)
    qed
    have "in_bounds (get_order count) f"
      if "get_order count < BUDDY_ORDERS" "\<exists>b. Some b \<in> set (fa_buddies fa)"
    proof -
      have rel: "released fa f count = block f (get_order count)"
        unfolding released_def if_not_P [OF no] using that by simp
      have "0 < (2 :: nat) ^ get_order count" by simp
      then have "unat f + 2 ^ get_order count - 1 \<in> released fa f count"
        unfolding rel block_def atLeastLessThan_iff by linarith
      then have "unat f + 2 ^ get_order count - 1 < 2 ^ 63" using bound by blast
      then show ?thesis unfolding in_bounds_def by linarith
    qed
    from free_in_buddies_spec [OF ok _ nodes_subset] this obtain r fa' where
      b: "free_in_buddies fa [0..<MAX_NUMA_NODES] f count = (r, fa')" "fa_ok s fa'"
      "\<forall>x. fa_free fa' x \<le> fa_free fa x + of_bool (get_order count < BUDDY_ORDERS \<and>
         (\<exists>b. Some b \<in> set (fa_buddies fa)) \<and> x \<in> block f (get_order count))" by blast
    have "x \<in> released fa f count \<longleftrightarrow> get_order count < BUDDY_ORDERS \<and>
         (\<exists>b. Some b \<in> set (fa_buddies fa)) \<and> x \<in> block f (get_order count)" for x
      unfolding released_def if_not_P [OF no] by auto
    then show ?thesis using none(1) b by (cases r) (simp_all add: free_frames_def)
  qed
qed

section \<open>The caches\<close>

definition pc_wf :: "page_cache \<Rightarrow> bool" where
  "pc_wf c = (length (pc_frames c) = CACHE_CAPACITY \<and> pc_count c \<le> CACHE_CAPACITY)"

definition cached :: "nat \<Rightarrow> page_cache \<Rightarrow> nat" where
  "cached x c = count_list (map unat (take (pc_count c) (pc_frames c))) x"

lemma cached_pop:
  assumes "pc_wf c" and "pc_count c = Suc k"
  shows "cached x c = cached x (c\<lparr>pc_count := k\<rparr>) + of_bool (x = unat (pc_frames c ! k))"
    and "pc_wf (c\<lparr>pc_count := k\<rparr>)"
proof -
  have "k < length (pc_frames c)" using assms by (simp add: pc_wf_def)
  then have "take (Suc k) (pc_frames c) = take k (pc_frames c) @ [pc_frames c ! k]"
    by (rule take_Suc_conv_app_nth)
  then show "cached x c = cached x (c\<lparr>pc_count := k\<rparr>) + of_bool (x = unat (pc_frames c ! k))"
    using assms(2) by (simp add: cached_def)
  show "pc_wf (c\<lparr>pc_count := k\<rparr>)" using assms by (simp add: pc_wf_def)
qed

lemma cached_push:
  assumes "pc_wf c" and "pc_count c < CACHE_CAPACITY"
  shows "cached x (c\<lparr>pc_frames := (pc_frames c)[pc_count c := f], pc_count := pc_count c + 1\<rparr>) =
      cached x c + of_bool (x = unat f)"
    and "pc_wf (c\<lparr>pc_frames := (pc_frames c)[pc_count c := f], pc_count := pc_count c + 1\<rparr>)"
proof -
  have "pc_count c < length (pc_frames c)" using assms by (simp add: pc_wf_def)
  then have "take (Suc (pc_count c)) ((pc_frames c)[pc_count c := f]) = take (pc_count c) (pc_frames c) @ [f]"
    by (simp add: take_Suc_conv_app_nth)
  then show "cached x (c\<lparr>pc_frames := (pc_frames c)[pc_count c := f], pc_count := pc_count c + 1\<rparr>) =
      cached x c + of_bool (x = unat f)"
    by (simp add: cached_def)
  show "pc_wf (c\<lparr>pc_frames := (pc_frames c)[pc_count c := f], pc_count := pc_count c + 1\<rparr>)"
    using assms by (simp add: pc_wf_def)
qed

lemma alloc_one_Some:
  assumes "pc_wf c" and "alloc_one c = (Some f, c')"
  shows "pc_wf c'" "cached x c = cached x c' + of_bool (x = unat f)"
proof -
  from assms(2) obtain k where k: "pc_count c = Suc k" "f = pc_frames c ! k" "c' = c\<lparr>pc_count := k\<rparr>"
    by (cases "pc_count c") (auto simp: alloc_one_def)
  show "pc_wf c'" "cached x c = cached x c' + of_bool (x = unat f)"
    unfolding k(2,3) by (rule cached_pop(2) [OF assms(1) k(1)], rule cached_pop(1) [OF assms(1) k(1)])
qed

lemma free_one_True:
  assumes "pc_wf c" and "free_one c f = (True, c')"
  shows "pc_wf c'" "cached x c' = cached x c + of_bool (x = unat f)"
  using assms cached_push [OF assms(1)] by (auto simp: free_one_def split: if_splits)

lemma refill_loop_spec:
  assumes "fa_ok s fa" and "pc_wf c" and "pc_count c + n \<le> CACHE_CAPACITY"
  shows "\<exists>c' fa'. refill_loop clock n c fa = Done (c', fa') \<and> fa_ok s fa' \<and> pc_wf c' \<and>
           (\<forall>x. cached x c' + fa_free fa' x \<le> cached x c + fa_free fa x)"
  using assms
proof (induction n arbitrary: c fa)
  case (Suc n)
  from allocate_frames_in_zone_takes [OF Suc.prems(1), of "clock n" 1 None None] obtain r fa1 where
    t: "allocate_frames (clock n) fa 1 None = Done (r, fa1)" "takes s 1 fa (Some r, fa1)"
    by (auto simp: allocate_frames_def)
  show ?case
  proof (cases r)
    case (Err e)
    then show ?thesis using t Suc.prems by (auto simp: takes_def)
  next
    case (Ok f)
    let ?c = "c\<lparr>pc_frames := (pc_frames c)[pc_count c := f], pc_count := pc_count c + 1\<rparr>"
    have room: "pc_count c < CACHE_CAPACITY" using Suc.prems(3) by simp
    note p = cached_push(1) [OF Suc.prems(2) room, of _ f] cached_push(2) [OF Suc.prems(2) room, of f]
    have "cached x ?c + fa_free fa1 x \<le> cached x c + fa_free fa x" for x
    proof -
      have "frames f 1 \<subseteq> handed_over fa1 f 1" using t(2) Ok by (simp add: takes_def)
      then have "of_bool (x = unat f) \<le> (of_bool (x \<in> handed_over fa1 f 1) :: nat)"
        by (auto simp: frames_def)
      moreover have "fa_free fa1 x + of_bool (x \<in> handed_over fa1 f 1) \<le> fa_free fa x"
        using t(2) Ok by (simp add: takes_def)
      ultimately show ?thesis unfolding p(1) by linarith
    qed
    moreover from Suc.IH [OF takes_ok [OF t(2)] p(2)] Suc.prems(3) obtain c' fa' where
      "refill_loop clock n ?c fa1 = Done (c', fa')" "fa_ok s fa'" "pc_wf c'"
      "\<forall>x. cached x c' + fa_free fa' x \<le> cached x ?c + fa_free fa1 x" by auto
    ultimately show ?thesis using t(1) Ok order_trans by fastforce
  qed
qed auto

lemma order_one: "get_order 1 = 0"
  using get_order_power [of 0] by simp

lemma released_one: "released fa f 1 \<subseteq> {unat f}"
  by (auto simp: released_def frames_def block_def order_one)

lemma free_one_frame:
  assumes ok: "fa_ok s fa" and "unat s \<le> unat f" and "unat f < 2 ^ 63" and "fa_free fa (unat f) = 0"
  shows "\<exists>r fa'. free_frames fa f 1 = Done (r, fa') \<and> fa_ok s fa' \<and>
           (\<forall>x. fa_free fa' x \<le> fa_free fa x + of_bool (x = unat f))"
proof -
  have "\<exists>r fa'. free_frames fa f 1 = Done (r, fa') \<and> fa_ok s fa' \<and>
           (\<forall>x. fa_free fa' x \<le> fa_free fa x + of_bool (x \<in> released fa f 1))"
  proof (rule free_frames_spec [OF ok assms(2)])
    show "\<forall>x \<in> released fa f 1. x < 2 ^ 63" using released_one assms(3) by auto
  qed (use assms(3,4) in \<open>simp_all add: frames_def\<close>)
  then obtain r fa' where f: "free_frames fa f 1 = Done (r, fa')" "fa_ok s fa'"
    "\<forall>x. fa_free fa' x \<le> fa_free fa x + of_bool (x \<in> released fa f 1)" by blast
  have "fa_free fa' x \<le> fa_free fa x + of_bool (x = unat f)" for x
  proof -
    have "of_bool (x \<in> released fa f 1) \<le> (of_bool (x = unat f) :: nat)"
      using released_one [of fa f] by auto
    then show ?thesis using f(3) [rule_format, of x] by linarith
  qed
  then show ?thesis using f by blast
qed

text \<open>A frame is in at most one place, and only frames from \<open>s\<close> on are.\<close>

definition managed :: "frame_number \<Rightarrow> nat \<Rightarrow> nat" where
  "managed s x = of_bool (unat s \<le> x \<and> x < 2 ^ 63)"

lemma managed_pos: "0 < n \<Longrightarrow> n \<le> managed s x \<Longrightarrow> unat s \<le> x \<and> x < 2 ^ 63 \<and> n = 1"
  by (cases "unat s \<le> x \<and> x < 2 ^ 63") (auto simp: managed_def)

lemma drain_loop_spec:
  assumes "fa_ok s fa" and "pc_wf c" and "\<forall>x. cached x c + fa_free fa x \<le> managed s x"
  shows "\<exists>c' fa'. drain_loop n c fa = Done (c', fa') \<and> fa_ok s fa' \<and> pc_wf c' \<and>
           (\<forall>x. cached x c' + fa_free fa' x \<le> cached x c + fa_free fa x)"
  using assms
proof (induction n arbitrary: c fa)
  case (Suc n)
  show ?case
  proof (cases "pc_count c")
    case 0
    then show ?thesis using Suc.prems by auto
  next
    case (Suc k)
    let ?f = "pc_frames c ! k" and ?c = "c\<lparr>pc_count := k\<rparr>"
    note p = cached_pop(1) [OF Suc.prems(2) Suc] cached_pop(2) [OF Suc.prems(2) Suc]
    have "0 < cached (unat ?f) c + fa_free fa (unat ?f)" using p(1) [of "unat ?f"] by simp
    from managed_pos [OF this Suc.prems(3) [rule_format]]
    have "unat s \<le> unat ?f" "unat ?f < 2 ^ 63" "fa_free fa (unat ?f) = 0" using p(1) [of "unat ?f"] by auto
    from free_one_frame [OF Suc.prems(1) this] obtain r fa1 where
      f: "free_frames fa ?f 1 = Done (r, fa1)" "fa_ok s fa1"
        "\<forall>x. fa_free fa1 x \<le> fa_free fa x + of_bool (x = unat ?f)" by blast
    have le: "cached x ?c + fa_free fa1 x \<le> cached x c + fa_free fa x" for x
      using p(1) [of x] f(3) [rule_format, of x] by linarith
    then have "\<forall>x. cached x ?c + fa_free fa1 x \<le> managed s x" using Suc.prems(3) order_trans by blast
    from Suc.IH [OF f(2) p(2) this] obtain c' fa' where
      d: "drain_loop n ?c fa1 = Done (c', fa')" "fa_ok s fa'" "pc_wf c'"
        "\<forall>x. cached x c' + fa_free fa' x \<le> cached x ?c + fa_free fa1 x" by blast
    have "drain_loop (Suc n) c fa = Done (c', fa')" using Suc f(1) d(1) by (simp add: Let_def)
    moreover have "\<forall>x. cached x c' + fa_free fa' x \<le> cached x c + fa_free fa x"
      using d(4) le order_trans by blast
    ultimately show ?thesis using d(2,3) by blast
  qed
qed auto

section \<open>The system\<close>

definition mm_ok :: "frame_number \<Rightarrow> mm_state \<Rightarrow> bool" where
  "mm_ok s st = (fa_ok s (mm_frames st) \<and> length (mm_caches st) = 16 \<and> (\<forall>c \<in> set (mm_caches st). pc_wf c))"

text \<open>In how many places a frame is kept, as free in the allocator or in a cache.\<close>

definition kept :: "mm_state \<Rightarrow> nat \<Rightarrow> nat" where
  "kept st x = sum_list (map (cached x) (mm_caches st)) + fa_free (mm_frames st) x"

lemma cache_index_lt: "cache_index cpu < 16"
  by (simp add: cache_index_def)

lemma mm_ok_cache: "mm_ok s st \<Longrightarrow> i < 16 \<Longrightarrow> pc_wf (mm_caches st ! i)"
  by (simp add: mm_ok_def)

lemma mm_set_ok:
  assumes "mm_ok s st" and "i < 16" and "pc_wf c" and "fa_ok s fa"
  shows "mm_ok s (mm_set st i (c, fa))"
    "kept (mm_set st i (c, fa)) x + cached x (mm_caches st ! i) + fa_free (mm_frames st) x =
     kept st x + cached x c + fa_free fa x"
proof -
  show "mm_ok s (mm_set st i (c, fa))"
    using assms set_update_subset_insert [of "mm_caches st" i c] by (auto simp: mm_ok_def mm_set_def)
  show "kept (mm_set st i (c, fa)) x + cached x (mm_caches st ! i) + fa_free (mm_frames st) x =
     kept st x + cached x c + fa_free fa x"
    using sum_list_map_update [of i "mm_caches st" "cached x" c] assms(1,2)
    by (simp add: kept_def mm_set_def mm_ok_def)
qed

lemma batch_refill_spec:
  assumes "fa_ok s fa" and "pc_wf c"
  shows "\<exists>c' fa'. batch_refill clock c fa = Done (c', fa') \<and> fa_ok s fa' \<and> pc_wf c' \<and>
           (\<forall>x. cached x c' + fa_free fa' x \<le> cached x c + fa_free fa x)"
  unfolding batch_refill_def using assms by (intro refill_loop_spec) (auto simp: pc_wf_def)

lemma per_cpu_alloc_frame_spec:
  assumes "mm_ok s st"
  shows "\<exists>r st'. per_cpu_alloc_frame clock cpu st = Done (r, st') \<and> mm_ok s st' \<and>
           (\<forall>x. kept st' x + (case r of Ok f \<Rightarrow> of_bool (x = unat f) | Err _ \<Rightarrow> 0) \<le> kept st x)"
proof -
  let ?i = "cache_index cpu" and ?fa = "mm_frames st"
  let ?c = "mm_caches st ! ?i"
  note i = cache_index_lt [of cpu] and c = mm_ok_cache [OF assms cache_index_lt [of cpu]]
  have ok: "fa_ok s ?fa" using assms by (simp add: mm_ok_def)
  obtain o1 c1 where a1: "alloc_one ?c = (o1, c1)" by fastforce
  show ?thesis
  proof (cases o1)
    case (Some f)
    note p = alloc_one_Some [OF c a1 [unfolded Some]]
    have "kept (mm_set st ?i (c1, ?fa)) x + of_bool (x = unat f) \<le> kept st x" for x
      using mm_set_ok(2) [OF assms i p(1) ok, of x] p(2) [of x] by linarith
    then show ?thesis
      using a1 Some mm_set_ok(1) [OF assms i p(1) ok] by (simp add: per_cpu_alloc_frame_def Let_def)
  next
    case None
    from batch_refill_spec [OF ok c] obtain c2 fa2 where
      r: "batch_refill clock ?c ?fa = Done (c2, fa2)" "fa_ok s fa2" "pc_wf c2"
        "\<forall>x. cached x c2 + fa_free fa2 x \<le> cached x ?c + fa_free ?fa x" by blast
    obtain o3 c3 where a3: "alloc_one c2 = (o3, c3)" by fastforce
    show ?thesis
    proof (cases o3)
      case (Some f)
      note p = alloc_one_Some [OF r(3) a3 [unfolded Some]]
      have "kept (mm_set st ?i (c3, fa2)) x + of_bool (x = unat f) \<le> kept st x" for x
        using mm_set_ok(2) [OF assms i p(1) r(2), of x] p(2) [of x] r(4) [rule_format, of x] by linarith
      then show ?thesis
        using a1 None r(1) a3 Some mm_set_ok(1) [OF assms i p(1) r(2)]
        by (simp add: per_cpu_alloc_frame_def Let_def)
    next
      case none: None
      from allocate_frames_in_zone_takes [OF r(2), of "clock CACHE_BATCH_SIZE" 1 None None] obtain q fa3 where
        t: "allocate_frames (clock CACHE_BATCH_SIZE) fa2 1 None = Done (q, fa3)" "takes s 1 fa2 (Some q, fa3)"
        by (auto simp: allocate_frames_def)
      have le: "fa_free fa3 x + (case q of Ok f \<Rightarrow> of_bool (x = unat f) | Err _ \<Rightarrow> 0) \<le> fa_free fa2 x" for x
      proof (cases q)
        case (Ok f)
        have "frames f 1 \<subseteq> handed_over fa3 f 1" using t(2) Ok by (simp add: takes_def)
        then have "of_bool (x = unat f) \<le> (of_bool (x \<in> handed_over fa3 f 1) :: nat)" by (auto simp: frames_def)
        moreover have "fa_free fa3 x + of_bool (x \<in> handed_over fa3 f 1) \<le> fa_free fa2 x"
          using t(2) Ok by (simp add: takes_def)
        ultimately show ?thesis unfolding Ok result.case by linarith
      qed (use t(2) in \<open>simp add: takes_def\<close>)
      have "kept (mm_set st ?i (c2, fa3)) x + (case q of Ok f \<Rightarrow> of_bool (x = unat f) | Err _ \<Rightarrow> 0) \<le> kept st x" for x
        using mm_set_ok(2) [OF assms i r(3) takes_ok [OF t(2)], of x] le [of x] r(4) [rule_format, of x] by linarith
      then show ?thesis
        using a1 None r(1) a3 none t(1) mm_set_ok(1) [OF assms i r(3) takes_ok [OF t(2)]]
        by (simp add: per_cpu_alloc_frame_def Let_def)
    qed
  qed
qed

lemma cache_le_kept:
  assumes "mm_ok s st" and "i < 16"
  shows "cached x (mm_caches st ! i) + fa_free (mm_frames st) x \<le> kept st x"
proof -
  have "cached x (mm_caches st ! i) \<in> set (map (cached x) (mm_caches st))"
    using assms by (simp add: mm_ok_def)
  then show ?thesis using member_le_sum_list unfolding kept_def by fastforce
qed

lemma batch_drain_spec:
  assumes "fa_ok s fa" and "pc_wf c" and "\<forall>x. cached x c + fa_free fa x \<le> managed s x"
  shows "\<exists>c' fa'. batch_drain c fa = Done (c', fa') \<and> fa_ok s fa' \<and> pc_wf c' \<and>
           (\<forall>x. cached x c' + fa_free fa' x \<le> cached x c + fa_free fa x)"
  unfolding batch_drain_def by (rule drain_loop_spec [OF assms])

lemma per_cpu_free_frame_spec:
  assumes st: "mm_ok s st" and bound: "\<forall>x. kept st x + of_bool (x = unat f) \<le> managed s x"
  shows "\<exists>r st'. per_cpu_free_frame cpu f st = Done (r, st') \<and> mm_ok s st' \<and>
           (\<forall>x. kept st' x \<le> kept st x + of_bool (x = unat f))"
proof -
  let ?i = "cache_index cpu" and ?fa = "mm_frames st"
  let ?c = "mm_caches st ! ?i"
  note i = cache_index_lt [of cpu] and c = mm_ok_cache [OF st cache_index_lt [of cpu]]
  note le = cache_le_kept [OF st i]
  have ok: "fa_ok s ?fa" using st by (simp add: mm_ok_def)
  obtain b1 c1 where a1: "free_one ?c f = (b1, c1)" by fastforce
  show ?thesis
  proof (cases b1)
    case True
    have "free_one ?c f = (True, c1)" using a1 True by simp
    note p = free_one_True [OF c this]
    show ?thesis
    proof (cases "needs_drain c1")
      case False
      have "kept (mm_set st ?i (c1, ?fa)) x \<le> kept st x + of_bool (x = unat f)" for x
        using mm_set_ok(2) [OF st i p(1) ok, of x] p(2) [of x] by linarith
      then show ?thesis
        using a1 True False mm_set_ok(1) [OF st i p(1) ok] by (simp add: per_cpu_free_frame_def Let_def)
    next
      case drain: True
      have "cached x c1 + fa_free ?fa x \<le> managed s x" for x
        using p(2) [of x] le [of x] bound [rule_format, of x] by linarith
      then obtain c2 fa2 where
        d: "batch_drain c1 ?fa = Done (c2, fa2)" "fa_ok s fa2" "pc_wf c2"
          "\<forall>x. cached x c2 + fa_free fa2 x \<le> cached x c1 + fa_free ?fa x"
        using batch_drain_spec [OF ok p(1)] by blast
      have "kept (mm_set st ?i (c2, fa2)) x \<le> kept st x + of_bool (x = unat f)" for x
        using mm_set_ok(2) [OF st i d(3,2), of x] p(2) [of x] d(4) [rule_format, of x] by linarith
      then show ?thesis
        using a1 True drain d(1) mm_set_ok(1) [OF st i d(3,2)] by (simp add: per_cpu_free_frame_def Let_def)
    qed
  next
    case False
    have "cached x ?c + fa_free ?fa x \<le> managed s x" for x
      using le [of x] bound [rule_format, of x] by linarith
    then obtain c2 fa2 where
      d: "batch_drain ?c ?fa = Done (c2, fa2)" "fa_ok s fa2" "pc_wf c2"
        "\<forall>x. cached x c2 + fa_free fa2 x \<le> cached x ?c + fa_free ?fa x"
      using batch_drain_spec [OF ok c] by blast
    obtain b3 c3 where a3: "free_one c2 f = (b3, c3)" by fastforce
    show ?thesis
    proof (cases b3)
      case True
      have "free_one c2 f = (True, c3)" using a3 True by simp
      note p = free_one_True [OF d(3) this]
      have "kept (mm_set st ?i (c3, fa2)) x \<le> kept st x + of_bool (x = unat f)" for x
        using mm_set_ok(2) [OF st i p(1) d(2), of x] p(2) [of x] d(4) [rule_format, of x] by linarith
      then show ?thesis
        using a1 False d(1) a3 True mm_set_ok(1) [OF st i p(1) d(2)] by (simp add: per_cpu_free_frame_def Let_def)
    next
      case full: False
      have "0 < kept st (unat f) + of_bool (unat f = unat f)" by simp
      from managed_pos [OF this bound [rule_format]]
      have f: "unat s \<le> unat f" "unat f < 2 ^ 63" "kept st (unat f) = 0" by auto
      have "fa_free fa2 (unat f) = 0" using d(4) [rule_format, of "unat f"] le [of "unat f"] f(3) by simp
      from free_one_frame [OF d(2) f(1,2) this] obtain r fa3 where
        q: "free_frames fa2 f 1 = Done (r, fa3)" "fa_ok s fa3"
          "\<forall>x. fa_free fa3 x \<le> fa_free fa2 x + of_bool (x = unat f)" by blast
      have "kept (mm_set st ?i (c2, fa3)) x \<le> kept st x + of_bool (x = unat f)" for x
        using mm_set_ok(2) [OF st i d(3) q(2), of x] q(3) [rule_format, of x] d(4) [rule_format, of x] by linarith
      then show ?thesis
        using a1 False d(1) a3 full q(1) mm_set_ok(1) [OF st i d(3) q(2)]
        by (simp add: per_cpu_free_frame_def Let_def)
    qed
  qed
qed

lemma mark_used_from_spec:
  assumes "fa_ok s fa" and "set ns \<subseteq> {..<MAX_NUMA_NODES}"
  shows "\<exists>fa'. mark_used_from fa ns f = Done (Ok (), fa') \<and> fa_ok s fa' \<and> (\<forall>x. fa_free fa' x \<le> fa_free fa x)"
  using assms
proof (induction ns arbitrary: fa)
  case (Cons i ns)
  then have i: "i < MAX_NUMA_NODES" "set ns \<subseteq> {..<MAX_NUMA_NODES}" by auto
  show ?case
  proof (cases "fa_bitmaps fa ! i")
    case None
    then show ?thesis using Cons by simp
  next
    case (Some a)
    note a = fa_ok_bitmap [OF Cons.prems(1) i(1) Some]
    from bm_mark_used_frames [OF a(1)] obtain a' where
      a': "bm_mark_used a f = Done (Ok (), a')" "bm_wf a'" "bm_start a' = bm_start a"
        "\<forall>x. bm_is_free a' x \<longrightarrow> bm_is_free a x" by blast
    have "of_bool (bm_is_free a' x) \<le> (of_bool (bm_is_free a x) :: nat)" for x using a'(4) by simp
    then have le: "fa_free (set_bitmap fa i a') x \<le> fa_free fa x" for x
      using set_bitmap_free [OF Cons.prems(1) i(1) Some, of a' x] by (metis add_le_cancel_left add_le_cancel_right)
    have "fa_ok s (set_bitmap fa i a')" using set_bitmap_ok [OF Cons.prems(1) a'(2)] a'(3) a(2) by simp
    from Cons.IH [OF this i(2)] obtain fa' where
      "mark_used_from (set_bitmap fa i a') ns f = Done (Ok (), fa')" "fa_ok s fa'"
      "\<forall>x. fa_free fa' x \<le> fa_free (set_bitmap fa i a') x" by blast
    then show ?thesis using Some a'(1) le order_trans by fastforce
  qed
qed auto

text \<open>
  The histories of a machine with one memory region, which is how the kernel starts on all three
  targets. Beside the state, a history records the set of frames that the rest of the kernel has
  been given and has not returned. Callers return frames that they have; a release from the buddy
  allocator returns the whole block.
\<close>

inductive mm_history :: "frame_number \<Rightarrow> mm_state \<Rightarrow> nat set \<Rightarrow> bool" for s where
  mm_boot: "init_numa_node fa_new node s n = Done (Ok (), fa) \<Longrightarrow> 0 < n \<Longrightarrow> unat s + unat n \<le> 2 ^ 62 \<Longrightarrow>
    mm_history s \<lparr>mm_frames = fa, mm_caches = replicate 16 pc_new\<rparr> {}"
| mm_allocate: "mm_history s st own \<Longrightarrow>
    allocate_frames_in_zone elapsed (mm_frames st) count numa zone = Done (Ok f, fa) \<Longrightarrow>
    mm_history s (st\<lparr>mm_frames := fa\<rparr>) (own \<union> handed_over fa f count)"
| mm_refuse: "mm_history s st own \<Longrightarrow>
    allocate_frames_in_zone elapsed (mm_frames st) count numa zone = Done (Err e, fa) \<Longrightarrow>
    mm_history s (st\<lparr>mm_frames := fa\<rparr>) own"
| mm_release: "mm_history s st own \<Longrightarrow> 0 < count \<Longrightarrow>
    frames f count \<union> released (mm_frames st) f count \<subseteq> own \<Longrightarrow>
    free_frames (mm_frames st) f count = Done (r, fa) \<Longrightarrow>
    mm_history s (st\<lparr>mm_frames := fa\<rparr>) (own - released (mm_frames st) f count)"
| mm_mark: "mm_history s st own \<Longrightarrow> mark_frame_used (mm_frames st) f = Done (r, fa) \<Longrightarrow>
    mm_history s (st\<lparr>mm_frames := fa\<rparr>) own"
| mm_reserve: "mm_history s st own \<Longrightarrow> add_reserved_region (mm_frames st) region = (r, fa) \<Longrightarrow>
    mm_history s (st\<lparr>mm_frames := fa\<rparr>) own"
| mm_cpu_alloc: "mm_history s st own \<Longrightarrow> per_cpu_alloc_frame clock cpu st = Done (Ok f, st') \<Longrightarrow>
    mm_history s st' (insert (unat f) own)"
| mm_cpu_refuse: "mm_history s st own \<Longrightarrow> per_cpu_alloc_frame clock cpu st = Done (Err e, st') \<Longrightarrow>
    mm_history s st' own"
| mm_cpu_free: "mm_history s st own \<Longrightarrow> unat f \<in> own \<Longrightarrow> per_cpu_free_frame cpu f st = Done (r, st') \<Longrightarrow>
    mm_history s st' (own - {unat f})"

definition mm_inv :: "frame_number \<Rightarrow> mm_state \<Rightarrow> nat set \<Rightarrow> bool" where
  "mm_inv s st own = (mm_ok s st \<and> (\<forall>x. of_bool (x \<in> own) + kept st x \<le> managed s x))"

lemma bm_count_new: "bm_count x (Some (bm_new s n)) = of_bool (unat s \<le> x \<and> x < unat s + 64 * BITMAP_WORDS)"
  by (simp add: bm_count_def bm_new_free)

lemma bd_new_cover:
  assumes "bd_new s n = Done b" and "0 < n" and "unat s + unat n \<le> 2 ^ 63"
  shows "bd_wf b" "bd_cover b x \<le> of_bool (unat s \<le> x \<and> x < 2 ^ 63)"
proof -
  from bd_new_Done [OF assms] obtain k where k: "k < BUDDY_ORDERS" "in_bounds k s"
    "bd_lists b = (replicate BUDDY_ORDERS [])[k := [s]]" by metis
  have "lists_ok (replicate BUDDY_ORDERS [])" by (simp add: lists_ok_def)
  then show "bd_wf b" unfolding bd_wf_def k(3) using k(2) by (intro lists_ok_update) simp_all
  have "cover (replicate BUDDY_ORDERS []) x = 0" by (simp add: cover_def)
  then have "bd_cover b x = covers k s x"
    using cover_update [of k "replicate BUDDY_ORDERS []" "[s]" x] k(1) by (simp add: bd_cover_def k(3))
  then show "bd_cover b x \<le> of_bool (unat s \<le> x \<and> x < 2 ^ 63)"
    using k(2) by (simp add: covers_def block_def in_bounds_def)
qed

lemma mm_inv_boot:
  assumes "init_numa_node fa_new node s n = Done (Ok (), fa)" and "0 < n" and "unat s + unat n \<le> 2 ^ 62"
  shows "mm_inv s \<lparr>mm_frames = fa, mm_caches = replicate 16 pc_new\<rparr> {}"
proof -
  let ?m = "min n (2048 * 64)"
  let ?E = "replicate MAX_NUMA_NODES None"
  let ?a = "bm_new s ?m"
  have node: "unat node < MAX_NUMA_NODES" using assms(1) by (auto simp: init_numa_node_def not_le split: if_splits)
  have m: "0 < ?m" "unat ?m \<le> 64 * BITMAP_WORDS"
    using assms(2) by (auto simp: min_def BITMAP_WORDS_def word_le_nat_alt word_less_nat_alt)
  have a: "bm_wf ?a" "bm_start ?a = s"
    using bm_new_wf [OF m(2), of s] assms(3) by (auto simp: BITMAP_WORDS_def bm_new_def)
  have bits: "sum_list (map (bm_count x) (?E[unat node := Some ?a])) = bm_count x (Some ?a)" for x
    using sum_list_map_update [of "unat node" ?E "bm_count x" "Some ?a"] node
    by (simp add: bm_count_def sum_list_replicate)
  have fa_b: "fa_bitmaps fa = ?E[unat node := Some ?a]"
    using assms(1) m(1) node
    by (auto simp: init_numa_node_def fa_new_def Let_def split: if_splits outcome.splits)
  have bm_le: "bm_count x (Some ?a) \<le> managed s x" for x
    using assms(3) unfolding bm_count_new managed_def by (auto simp: BITMAP_WORDS_def)
  consider (no) "fa_buddies fa = ?E"
    | (buddy) b where "0 < n - ?m" "bd_new (s + ?m) (n - ?m) = Done b" "fa_buddies fa = ?E[unat node := Some b]"
    using assms(1) m(1) node
    by (auto simp: init_numa_node_def fa_new_def Let_def split: if_splits outcome.splits)
  then have "fa_ok s fa \<and> (\<forall>x. fa_free fa x \<le> managed s x)"
  proof cases
    case no
    then have "fa_ok s fa"
      using a fa_b node set_update_subset_insert [of ?E "unat node" "Some ?a"] by (auto simp: fa_ok_def)
    moreover have "fa_free fa x = bm_count x (Some ?a)" for x
      by (simp only: fa_free_def fa_b bits no) (simp add: bd_count_def sum_list_replicate)
    ultimately show ?thesis using bm_le by simp
  next
    case buddy
    have big: "?m = 131072" "131072 < n" using buddy(1) by (auto simp: min_def split: if_splits)
    then have n: "131072 < unat n" by (simp add: word_less_nat_alt)
    have "unat (s + ?m) = unat s + 131072"
      using assms(3) n unfolding big(1) by (simp add: unat_word_ariths(1))
    moreover have "unat (n - ?m) = unat n - 131072" unfolding big(1) using big(2) by (simp add: unat_offset)
    ultimately have st: "unat (s + ?m) = unat s + 131072" "unat (s + ?m) + unat (n - ?m) \<le> 2 ^ 63"
      using assms(3) n by auto
    note bc = bd_new_cover [OF buddy(2,1) st(2)]
    have "fa_ok s fa"
      using a fa_b bc(1) buddy(3) node set_update_subset_insert [of ?E "unat node" "Some ?a"]
        set_update_subset_insert [of ?E "unat node" "Some b"] by (auto simp: fa_ok_def)
    moreover have "fa_free fa x \<le> managed s x" for x
    proof -
      have "sum_list (map (bd_count x) (?E[unat node := Some b])) = bd_cover b x"
        using sum_list_map_update [of "unat node" ?E "bd_count x" "Some b"] node
        by (simp add: bd_count_def sum_list_replicate)
      then have "fa_free fa x = bm_count x (Some ?a) + bd_cover b x"
        by (simp only: fa_free_def fa_b bits buddy(3))
      moreover have "bm_count x (Some ?a) + bd_cover b x \<le> managed s x"
        using bc(2) [of x] bm_le [of x] st(1) unfolding bm_count_new managed_def
        by (cases "unat s + 131072 \<le> x") (auto simp: BITMAP_WORDS_def)
      ultimately show ?thesis by simp
    qed
    ultimately show ?thesis by blast
  qed
  moreover have "sum_list (map (cached x) (replicate 16 pc_new)) = 0" for x
    by (simp add: cached_def pc_new_def sum_list_replicate)
  moreover have "pc_wf pc_new" by (simp add: pc_wf_def pc_new_def)
  ultimately show ?thesis by (simp add: mm_inv_def mm_ok_def kept_def sum_list_replicate)
qed

lemma mm_ok_frames: "mm_ok s st \<Longrightarrow> fa_ok s fa \<Longrightarrow> mm_ok s (st\<lparr>mm_frames := fa\<rparr>)"
  by (simp add: mm_ok_def)

lemma kept_frames: "kept (st\<lparr>mm_frames := fa\<rparr>) x + fa_free (mm_frames st) x = kept st x + fa_free fa x"
  by (simp add: kept_def)

lemma mm_inv_ok: "mm_inv s st own \<Longrightarrow> mm_ok s st" "mm_inv s st own \<Longrightarrow> fa_ok s (mm_frames st)"
  by (auto simp: mm_inv_def mm_ok_def)

lemma mm_inv_frames:
  assumes "mm_inv s st own" and "fa_ok s fa"
    and "\<And>x. of_bool (x \<in> own') + fa_free fa x \<le> of_bool (x \<in> own) + fa_free (mm_frames st) x"
  shows "mm_inv s (st\<lparr>mm_frames := fa\<rparr>) own'"
proof -
  have "of_bool (x \<in> own') + kept (st\<lparr>mm_frames := fa\<rparr>) x \<le> managed s x" for x
  proof -
    have "of_bool (x \<in> own) + kept st x \<le> managed s x" using assms(1) by (simp add: mm_inv_def)
    then show ?thesis using assms(3) [of x] kept_frames [of fa st x] by linarith
  qed
  then show ?thesis using mm_ok_frames [OF mm_inv_ok(1) [OF assms(1)] assms(2)] by (simp add: mm_inv_def)
qed

lemma mm_inv_kept:
  assumes "mm_inv s st own" and "mm_ok s st'"
    and "\<And>x. of_bool (x \<in> own') + kept st' x \<le> of_bool (x \<in> own) + kept st x"
  shows "mm_inv s st' own'"
  using assms order_trans unfolding mm_inv_def by blast

lemma mm_inv_owned:
  assumes "mm_inv s st own" and "x \<in> own"
  shows "unat s \<le> x \<and> x < 2 ^ 63" "kept st x = 0" "fa_free (mm_frames st) x = 0"
proof -
  have le: "1 + kept st x \<le> managed s x" using assms by (simp add: mm_inv_def) (metis of_bool_eq(2) plus_1_eq_Suc)
  from managed_pos [OF _ le] show "unat s \<le> x \<and> x < 2 ^ 63" "kept st x = 0" by auto
  then show "fa_free (mm_frames st) x = 0" by (simp add: kept_def)
qed

lemma handed_disjoint:
  assumes "mm_inv s st own" and "takes s count (mm_frames st) (Some (Ok f), fa)"
  shows "handed_over fa f count \<inter> own = {}"
proof -
  have "x \<notin> own" if "x \<in> handed_over fa f count" for x
  proof
    assume "x \<in> own"
    then have "fa_free (mm_frames st) x = 0" by (rule mm_inv_owned(3) [OF assms(1)])
    moreover have "fa_free fa x + of_bool (x \<in> handed_over fa f count) \<le> fa_free (mm_frames st) x"
      using assms(2) by (simp add: takes_def)
    ultimately show False using that by simp
  qed
  then show ?thesis by blast
qed

lemma release_spec:
  assumes inv: "mm_inv s st own" and "0 < count"
    and own: "frames f count \<union> released (mm_frames st) f count \<subseteq> own"
  shows "\<exists>r fa. free_frames (mm_frames st) f count = Done (r, fa) \<and> fa_ok s fa \<and>
    (\<forall>x. fa_free fa x \<le> fa_free (mm_frames st) x + of_bool (x \<in> released (mm_frames st) f count))"
proof (rule free_frames_spec [OF mm_inv_ok(2) [OF inv]])
  have c: "0 < unat count" using assms(2) by (simp add: word_less_nat_alt)
  then have "unat f \<in> frames f count" "unat f + unat count - 1 \<in> frames f count"
    by (auto simp: frames_def)
  then have o: "unat f \<in> own" "unat f + unat count - 1 \<in> own" using own by auto
  show "unat s \<le> unat f" using mm_inv_owned(1) [OF inv o(1)] by simp
  show "unat f + unat count \<le> 2 ^ 63" using mm_inv_owned(1) [OF inv o(2)] c by linarith
  show "0 < count" by fact
  show "\<forall>x \<in> frames f count. fa_free (mm_frames st) x = 0" using own mm_inv_owned(3) [OF inv] by blast
  show "\<forall>x \<in> released (mm_frames st) f count. x < 2 ^ 63" using own mm_inv_owned(1) [OF inv] by blast
qed

lemma mm_history_inv: "mm_history s st own \<Longrightarrow> mm_inv s st own"
proof (induction rule: mm_history.induct)
  case (mm_boot node n fa)
  then show ?case by (rule mm_inv_boot)
next
  case (mm_allocate st own elapsed count numa zone f fa)
  note inv = mm_allocate.IH
  from allocate_frames_in_zone_takes [OF mm_inv_ok(2) [OF inv], of elapsed count numa zone] mm_allocate.hyps(2)
  have t: "takes s count (mm_frames st) (Some (Ok f), fa)" by simp
  show ?case
  proof (rule mm_inv_frames [OF inv takes_ok [OF t]])
    fix x
    have "fa_free fa x + of_bool (x \<in> handed_over fa f count) \<le> fa_free (mm_frames st) x"
      using t by (simp add: takes_def)
    then show "of_bool (x \<in> own \<union> handed_over fa f count) + fa_free fa x \<le> of_bool (x \<in> own) + fa_free (mm_frames st) x"
      using handed_disjoint [OF inv t] by (cases "x \<in> own") auto
  qed
next
  case (mm_refuse st own elapsed count numa zone e fa)
  from allocate_frames_in_zone_takes [OF mm_inv_ok(2) [OF mm_refuse.IH], of elapsed count numa zone] mm_refuse.hyps(2)
  have "takes s count (mm_frames st) (Some (Err e), fa)" by simp
  then show ?case using mm_inv_frames [OF mm_refuse.IH, of fa own] by (simp add: takes_def)
next
  case (mm_release st own count f r fa)
  let ?R = "released (mm_frames st) f count"
  from release_spec [OF mm_release.IH mm_release.hyps(2,3)] mm_release.hyps(4)
  have fa: "fa_ok s fa" "\<forall>x. fa_free fa x \<le> fa_free (mm_frames st) x + of_bool (x \<in> ?R)" by auto
  show ?case
  proof (rule mm_inv_frames [OF mm_release.IH fa(1)])
    fix x
    show "of_bool (x \<in> own - ?R) + fa_free fa x \<le> of_bool (x \<in> own) + fa_free (mm_frames st) x"
      using fa(2) [rule_format, of x] mm_release.hyps(3) by (cases "x \<in> ?R") auto
  qed
next
  case (mm_mark st own f r fa)
  from mark_used_from_spec [OF mm_inv_ok(2) [OF mm_mark.IH] nodes_subset, of f] mm_mark.hyps(2)
  have "fa_ok s fa" "\<forall>x. fa_free fa x \<le> fa_free (mm_frames st) x" by (auto simp: mark_frame_used_def)
  then show ?case using mm_inv_frames [OF mm_mark.IH, of fa own] by simp
next
  case (mm_reserve st own region r fa)
  then have "fa_ok s fa" "\<forall>x. fa_free fa x = fa_free (mm_frames st) x"
    using mm_inv_ok(2) [OF mm_reserve.IH]
    by (auto simp: add_reserved_region_def fa_ok_def fa_free_def split: if_splits)
  then show ?case using mm_inv_frames [OF mm_reserve.IH, of fa own] by simp
next
  case (mm_cpu_alloc st own clock cpu f st')
  from per_cpu_alloc_frame_spec [OF mm_inv_ok(1) [OF mm_cpu_alloc.IH], of clock cpu] mm_cpu_alloc.hyps(2)
  have st': "mm_ok s st'" "\<forall>x. kept st' x + of_bool (x = unat f) \<le> kept st x" by auto
  show ?case
  proof (rule mm_inv_kept [OF mm_cpu_alloc.IH st'(1)])
    fix x
    show "of_bool (x \<in> insert (unat f) own) + kept st' x \<le> of_bool (x \<in> own) + kept st x"
      using st'(2) [rule_format, of x] mm_inv_owned(2) [OF mm_cpu_alloc.IH, of x]
      by (cases "x = unat f"; cases "x \<in> own") auto
  qed
next
  case (mm_cpu_refuse st own clock cpu e st')
  from per_cpu_alloc_frame_spec [OF mm_inv_ok(1) [OF mm_cpu_refuse.IH], of clock cpu] mm_cpu_refuse.hyps(2)
  show ?case by (intro mm_inv_kept [OF mm_cpu_refuse.IH]) auto
next
  case (mm_cpu_free st own f cpu r st')
  have "kept st x + of_bool (x = unat f) \<le> managed s x" for x
    using mm_cpu_free.IH mm_cpu_free.hyps(2) unfolding mm_inv_def
    by (cases "x = unat f") (auto simp: add.commute dest!: spec [of _ x] elim: order_trans [rotated])
  from per_cpu_free_frame_spec [OF mm_inv_ok(1) [OF mm_cpu_free.IH], of f cpu] this mm_cpu_free.hyps(3)
  have st': "mm_ok s st'" "\<forall>x. kept st' x \<le> kept st x + of_bool (x = unat f)" by auto
  show ?case
  proof (rule mm_inv_kept [OF mm_cpu_free.IH st'(1)])
    fix x
    show "of_bool (x \<in> own - {unat f}) + kept st' x \<le> of_bool (x \<in> own) + kept st x"
      using st'(2) [rule_format, of x] mm_cpu_free.hyps(2) by (cases "x = unat f") auto
  qed
qed

section \<open>Properties\<close>

text \<open>
  C3. Every frame has at most one owner. On a machine with one memory region, whatever requests,
  releases, reservations and per-processor operations have run, a frame is in at most one place: with
  a caller, in one page cache, free in the bitmap, or in one free block of the buddy allocator. Hence
  an allocation never returns a frame that somebody has; and no operation panics, neither an
  allocation nor the release of frames that the caller has.
\<close>

theorem frames_have_one_owner:
  assumes "mm_history s st own"
  shows "(\<forall>x. of_bool (x \<in> own) + kept st x \<le> 1) \<and>
    (\<forall>elapsed count numa zone. \<exists>r fa.
      allocate_frames_in_zone elapsed (mm_frames st) count numa zone = Done (r, fa) \<and>
      (\<forall>f. r = Ok f \<longrightarrow> frames f count \<inter> own = {})) \<and>
    (\<forall>clock cpu. \<exists>r st'. per_cpu_alloc_frame clock cpu st = Done (r, st') \<and>
      (\<forall>f. r = Ok f \<longrightarrow> unat f \<notin> own)) \<and>
    (\<forall>f count. 0 < count \<and> frames f count \<union> released (mm_frames st) f count \<subseteq> own \<longrightarrow>
      (\<exists>r fa. free_frames (mm_frames st) f count = Done (r, fa))) \<and>
    (\<forall>cpu f. unat f \<in> own \<longrightarrow> (\<exists>r st'. per_cpu_free_frame cpu f st = Done (r, st')))"
proof (intro conjI allI impI)
  note inv = mm_history_inv [OF assms]
  show "of_bool (x \<in> own) + kept st x \<le> 1" for x
  proof -
    have "of_bool (x \<in> own) + kept st x \<le> managed s x" using inv by (simp add: mm_inv_def)
    also have "\<dots> \<le> 1" by (simp add: managed_def)
    finally show ?thesis .
  qed
  show "\<exists>r fa. allocate_frames_in_zone elapsed (mm_frames st) count numa zone = Done (r, fa) \<and>
      (\<forall>f. r = Ok f \<longrightarrow> frames f count \<inter> own = {})" for elapsed count numa zone
  proof -
    from allocate_frames_in_zone_takes [OF mm_inv_ok(2) [OF inv]] obtain r fa where
      t: "allocate_frames_in_zone elapsed (mm_frames st) count numa zone = Done (r, fa)"
        "takes s count (mm_frames st) (Some r, fa)" by blast
    have "frames f count \<inter> own = {}" if "r = Ok f" for f
    proof -
      have "frames f count \<subseteq> handed_over fa f count" using t(2) that by (simp add: takes_def)
      then show ?thesis using handed_disjoint [OF inv t(2) [unfolded that]] by blast
    qed
    then show ?thesis using t(1) by blast
  qed
  show "\<exists>r st'. per_cpu_alloc_frame clock cpu st = Done (r, st') \<and> (\<forall>f. r = Ok f \<longrightarrow> unat f \<notin> own)" for clock cpu
  proof -
    from per_cpu_alloc_frame_spec [OF mm_inv_ok(1) [OF inv]] obtain r st' where
      p: "per_cpu_alloc_frame clock cpu st = Done (r, st')"
        "\<forall>x. kept st' x + (case r of Ok f \<Rightarrow> of_bool (x = unat f) | Err _ \<Rightarrow> 0) \<le> kept st x" by blast
    have "unat f \<notin> own" if "r = Ok f" for f
    proof
      assume "unat f \<in> own"
      then have "kept st (unat f) = 0" by (rule mm_inv_owned(2) [OF inv])
      then show False using p(2) [rule_format, of "unat f"] that by simp
    qed
    then show ?thesis using p(1) by blast
  qed
  show "\<exists>r fa. free_frames (mm_frames st) f count = Done (r, fa)"
    if "0 < count \<and> frames f count \<union> released (mm_frames st) f count \<subseteq> own" for f count
    using release_spec [OF inv] that by blast
  show "\<exists>r st'. per_cpu_free_frame cpu f st = Done (r, st')" if f: "unat f \<in> own" for cpu f
  proof -
    have "kept st x + of_bool (x = unat f) \<le> managed s x" for x
    proof (cases "x = unat f")
      case True
      then show ?thesis using inv f by (simp add: mm_inv_def) (metis of_bool_eq(2) plus_1_eq_Suc)
    next
      case False
      have "of_bool (x \<in> own) + kept st x \<le> managed s x" using inv by (simp add: mm_inv_def)
      then show ?thesis using False by simp
    qed
    then show ?thesis using per_cpu_free_frame_spec [OF mm_inv_ok(1) [OF inv]] by blast
  qed
qed

text \<open>The boot state of the AArch64 target, and one allocation there.\<close>

definition demo_fa :: frame_allocator where
  "demo_fa = fa_new\<lparr>fa_bitmaps := (replicate MAX_NUMA_NODES None)[0 := Some (bm_new 0x48000 32768)]\<rparr>"

definition demo_mm :: mm_state where
  "demo_mm = \<lparr>mm_frames = demo_fa, mm_caches = replicate 16 pc_new\<rparr>"

lemma demo_boot: "init_numa_node fa_new 0 0x48000 32768 = Done (Ok (), demo_fa)"
proof -
  have "min (32768 :: usize) (2048 * 64) = 32768" by (simp add: min_def word_le_nat_alt)
  then show ?thesis by (simp add: init_numa_node_def fa_new_def demo_fa_def MAX_NUMA_NODES_def Let_def)
qed

theorem frames_have_one_owner_witness:
  "mm_history 0x48000 demo_mm {} \<and> (\<forall>x. of_bool (x \<in> {}) + kept demo_mm x \<le> 1) \<and>
   (\<forall>elapsed count numa zone. \<exists>r fa.
      allocate_frames_in_zone elapsed (mm_frames demo_mm) count numa zone = Done (r, fa) \<and>
      (\<forall>f. r = Ok f \<longrightarrow> frames f count \<inter> {} = {}))"
proof -
  have h: "mm_history 0x48000 demo_mm {}"
    unfolding demo_mm_def by (rule mm_boot [OF demo_boot]) simp_all
  from frames_have_one_owner [OF h] show ?thesis using h by blast
qed

end
