(* ===== verification/Mm_Boot.thy ===== *)
theory Mm_Boot
  imports Mm_Ownership Kernel_Error
begin

text \<open>
  Memory maps of the boot loaders (\<open>src/kernel/src/mm/bootloader.rs\<close>), reserved regions, and how the
  frame allocator behaves at the boundaries: zones, reserved runs, double frees, frames below a node
  and regions that are too large.
\<close>

section \<open>Memory maps of the boot loaders\<close>

datatype memory_region_type =
    RtUsable | RtReserved | RtAcpiReclaimable | RtAcpiNvs | RtBadMemory | RtKernelAndModules
  | RtBootloaderReclaimable | RtFramebuffer | RtUnknown u32

record bootloader_memory_region =
  br_start :: u64
  br_size :: u64
  br_type :: memory_region_type

definition br_is_usable :: "bootloader_memory_region \<Rightarrow> bool" where
  "br_is_usable r = (br_type r = RtUsable)"

definition to_memory_region :: "bootloader_memory_region \<Rightarrow> mm_region" where
  "to_memory_region r = \<lparr>mmr_start = br_start r, mmr_size = br_size r, mmr_usable = br_is_usable r\<rparr>"

definition e820_type :: "u32 \<Rightarrow> memory_region_type" where
  "e820_type typ =
     (if typ = 1 then RtUsable else if typ = 2 then RtReserved else if typ = 3 then RtAcpiReclaimable
      else if typ = 4 then RtAcpiNvs else if typ = 5 then RtBadMemory else RtUnknown typ)"

definition parse_e820_map :: "(u64 \<times> u64 \<times> u32) list \<Rightarrow> bootloader_memory_region list" where
  "parse_e820_map entries =
     map (\<lambda>(base, len, typ). \<lparr>br_start = base, br_size = len, br_type = e820_type typ\<rparr>) entries"

record uefi_memory_descriptor =
  ud_typ :: u32
  ud_phys_start :: u64
  ud_virt_start :: u64
  ud_num_pages :: u64
  ud_attr :: u64

definition uefi_type :: "u32 \<Rightarrow> memory_region_type" where
  "uefi_type typ =
     (if typ \<le> 2 then RtReserved else if typ = 3 \<or> typ = 4 then RtBootloaderReclaimable
      else if typ = 7 then RtUsable else if typ = 9 then RtAcpiReclaimable
      else if typ = 10 then RtAcpiNvs else if typ = 11 then RtReserved else RtUnknown typ)"

definition parse_uefi_map :: "uefi_memory_descriptor list \<Rightarrow> bootloader_memory_region list" where
  "parse_uefi_map descriptors =
     map (\<lambda>d. \<lparr>br_start = ud_phys_start d, br_size = ud_num_pages d * 4096, br_type = uefi_type (ud_typ d)\<rparr>)
       descriptors"

fun reserved_description :: "memory_region_type \<Rightarrow> string option" where
  "reserved_description RtReserved = Some ''Reserved''"
| "reserved_description RtAcpiNvs = Some ''ACPI NVS''"
| "reserved_description RtBadMemory = Some ''Bad Memory''"
| "reserved_description RtKernelAndModules = Some ''Kernel/Modules''"
| "reserved_description RtFramebuffer = Some ''Framebuffer''"
| "reserved_description _ = None"

text \<open>\<open>u64::div_ceil\<close> of the standard library.\<close>

definition div_ceil :: "u64 \<Rightarrow> u64 \<Rightarrow> u64" where
  "div_ceil a b = (if a mod b = 0 then a div b else a div b + 1)"

definition reserve_region ::
    "frame_allocator \<Rightarrow> reserved_region \<Rightarrow> (unit, kernel_error) result \<times> frame_allocator" where
  "reserve_region fa region =
     (case add_reserved_region fa region of
        (Ok _, fa') \<Rightarrow> (Ok (), fa')
      | (Err _, fa') \<Rightarrow> (Err (KeResourceExhausted ''reserved memory regions''), fa'))"

text \<open>The two passes of \<open>process_memory_map\<close>.\<close>

fun reserve_pass ::
    "frame_allocator \<Rightarrow> bootloader_memory_region list \<Rightarrow> (unit, kernel_error) result \<times> frame_allocator" where
  "reserve_pass fa [] = (Ok (), fa)"
| "reserve_pass fa (region # rs) =
     (case reserved_description (br_type region) of
        None \<Rightarrow> reserve_pass fa rs
      | Some d \<Rightarrow>
          (case reserve_region fa
                  \<lparr>rr_start = as_frame (br_start region),
                   rr_end = div_ceil (br_start region + br_size region) FRAME_SIZE, rr_description = d\<rparr> of
             (Err e, fa') \<Rightarrow> (Err e, fa')
           | (Ok _, fa') \<Rightarrow> reserve_pass fa' rs))"

fun usable_pass ::
    "frame_allocator \<Rightarrow> usize \<Rightarrow> bootloader_memory_region list \<Rightarrow> frame_allocator outcome" where
  "usable_pass fa region_count [] = Done fa"
| "usable_pass fa region_count (region # rs) =
     (let frame_count = br_size region div FRAME_SIZE in
      if br_is_usable region \<and> \<not> frame_count < 16 then
        (case init_numa_node fa (region_count mod 8) (as_frame (br_start region)) frame_count of
           Panic \<Rightarrow> Panic
         | Done (Err _, fa') \<Rightarrow> usable_pass fa' region_count rs
         | Done (Ok _, fa') \<Rightarrow> usable_pass fa' (region_count + 1) rs)
      else usable_pass fa region_count rs)"

definition process_memory_map ::
    "frame_allocator \<Rightarrow> bootloader_memory_region list \<Rightarrow>
     ((unit, kernel_error) result \<times> frame_allocator) outcome" where
  "process_memory_map fa regions =
     (case reserve_pass fa regions of
        (Err e, fa') \<Rightarrow> Done (Err e, fa')
      | (Ok _, fa') \<Rightarrow>
          (case usable_pass fa' 0 regions of
             Panic \<Rightarrow> Panic
           | Done fa'' \<Rightarrow> Done (Ok (), fa'')))"

text \<open>\<open>apic\<close> says whether the target is x86-64, which also reserves the local APIC.\<close>

definition reserve_standard_regions ::
    "bool \<Rightarrow> frame_allocator \<Rightarrow> (unit, kernel_error) result \<times> frame_allocator" where
  "reserve_standard_regions apic fa =
     (case reserve_region fa \<lparr>rr_start = 0, rr_end = 256, rr_description = ''BIOS/Real mode''\<rparr> of
        (Err e, fa1) \<Rightarrow> (Err e, fa1)
      | (Ok _, fa1) \<Rightarrow>
          (case reserve_region fa1 \<lparr>rr_start = 0xA0, rr_end = 0x100, rr_description = ''Video memory''\<rparr> of
             (Err e, fa2) \<Rightarrow> (Err e, fa2)
           | (Ok _, fa2) \<Rightarrow>
               if apic then
                 let apic_frame = as_frame 0xFEE00000 in
                 reserve_region fa2
                   \<lparr>rr_start = apic_frame, rr_end = apic_frame + 1, rr_description = ''Local APIC''\<rparr>
               else (Ok (), fa2)))"

section \<open>Reserved regions\<close>

definition avoids :: "usize \<Rightarrow> frame_allocator \<Rightarrow> (frame_number, frame_error) result option \<times> frame_allocator \<Rightarrow> bool" where
  "avoids count fa rf = (case rf of (r, fa') \<Rightarrow>
     fa_reserved fa' = fa_reserved fa \<and> (\<forall>f. r = Some (Ok f) \<longrightarrow> \<not> is_reserved fa f count))"

lemma is_reserved_cong: "fa_reserved fa' = fa_reserved fa \<Longrightarrow> is_reserved fa' = is_reserved fa"
  by (intro ext) (simp add: is_reserved_def)

lemma fa_reserved_set [simp]:
  "fa_reserved (set_bitmap fa i a) = fa_reserved fa" "fa_reserved (set_buddy fa i b) = fa_reserved fa"
  by (simp_all add: set_bitmap_def set_buddy_def)

lemma avoids_trans:
  assumes "avoids count fa (r, fa')" and "avoids count fa' rf"
  shows "avoids count fa rf"
proof -
  have r: "fa_reserved fa' = fa_reserved fa" using assms(1) by (simp add: avoids_def)
  show ?thesis using assms(2) unfolding avoids_def is_reserved_cong [OF r] r .
qed

lemma try_bitmap_node_avoids: "try_bitmap_node fa i count zone = Done rf \<Longrightarrow> avoids count fa rf"
  by (auto simp: try_bitmap_node_def avoids_def
      split: option.splits prod.splits result.splits outcome.splits if_splits)

lemma try_buddy_node_avoids: "avoids count fa (try_buddy_node fa i count zone)"
  by (auto simp: try_buddy_node_def avoids_def
      split: option.splits prod.splits result.splits if_splits)

lemma try_bitmaps_avoids: "try_bitmaps fa is count = Done (r, fa') \<Longrightarrow> avoids count fa (Some r, fa')"
proof (induction fa "is" count rule: try_bitmaps.induct)
  case (2 fa i ns count)
  from 2(2) obtain r1 fa1 where t: "try_bitmap_node fa i count None = Done (r1, fa1)"
    by (auto split: outcome.splits)
  note a = try_bitmap_node_avoids [OF t]
  show ?case
  proof (cases r1)
    case None
    then show ?thesis using 2 t avoids_trans [OF a] by simp
  next
    case (Some r')
    then show ?thesis using 2(2) t a by simp
  qed
qed (auto simp: avoids_def)

lemma try_buddies_avoids: "try_buddies fa is count = (r, fa') \<Longrightarrow> avoids count fa (Some r, fa')"
proof (induction fa "is" count rule: try_buddies.induct)
  case (2 fa i ns count)
  obtain r1 fa1 where t: "try_buddy_node fa i count None = (r1, fa1)" by fastforce
  note a = try_buddy_node_avoids [of count fa i None, unfolded t]
  show ?case
  proof (cases r1)
    case None
    then show ?thesis using 2 t avoids_trans [OF a] by simp
  next
    case (Some r')
    then show ?thesis using 2(2) t a by simp
  qed
qed (auto simp: avoids_def)

lemma avoids_refl: "avoids count fa (None, fa)"
  by (simp add: avoids_def)

lemma allocate_bitmap_internal_avoids:
  assumes "allocate_bitmap_internal fa count numa zone = Done (r, fa')"
  shows "avoids count fa (Some r, fa')"
proof -
  let ?first = "case numa of
      Some node \<Rightarrow> if unat node < MAX_NUMA_NODES then try_bitmap_node fa (unat node) count zone
                   else Done (None, fa)
    | None \<Rightarrow> Done (None, fa)"
  from assms obtain r1 fa1 where f: "?first = Done (r1, fa1)"
    by (auto simp: allocate_bitmap_internal_def split: outcome.splits)
  have a: "avoids count fa (r1, fa1)"
    using f try_bitmap_node_avoids [of fa _ count zone] avoids_refl by (auto split: option.splits if_splits)
  show ?thesis
  proof (cases r1)
    case None
    then have "try_bitmaps fa1 [0..<MAX_NUMA_NODES] count = Done (r, fa')"
      using assms f by (simp add: allocate_bitmap_internal_def)
    then show ?thesis by (rule avoids_trans [OF a try_bitmaps_avoids])
  next
    case (Some r')
    then show ?thesis using a assms f by (simp add: allocate_bitmap_internal_def)
  qed
qed

lemma allocate_buddy_internal_avoids:
  assumes "allocate_buddy_internal fa count numa zone = (r, fa')"
  shows "avoids count fa (Some r, fa')"
proof -
  let ?first = "case numa of
      Some node \<Rightarrow> if unat node < MAX_NUMA_NODES then try_buddy_node fa (unat node) count zone
                   else (None, fa)
    | None \<Rightarrow> (None, fa)"
  obtain r1 fa1 where f: "?first = (r1, fa1)" by fastforce
  have a: "avoids count fa (r1, fa1)"
    using f try_buddy_node_avoids [of count fa _ zone] avoids_refl by (auto split: option.splits if_splits) (metis f)+
  show ?thesis
  proof (cases r1)
    case None
    then have "try_buddies fa1 [0..<MAX_NUMA_NODES] count = (r, fa')"
      using assms f by (simp add: allocate_buddy_internal_def)
    then show ?thesis by (rule avoids_trans [OF a try_buddies_avoids])
  next
    case (Some r')
    then show ?thesis using a assms f by (simp add: allocate_buddy_internal_def)
  qed
qed

lemma avoids_Err: "avoids count fa (Some (Err e), fa') \<longleftrightarrow> fa_reserved fa' = fa_reserved fa"
  by (simp add: avoids_def)

lemma allocate_bitmap_with_zone_avoids:
  assumes "allocate_bitmap_with_zone fa count numa zone = Done (r, fa')"
  shows "avoids count fa (Some r, fa')"
proof -
  from assms obtain r1 fa1 where f: "allocate_bitmap_internal fa count numa zone = Done (r1, fa1)"
    by (auto simp: allocate_bitmap_with_zone_def split: outcome.splits)
  note a = allocate_bitmap_internal_avoids [OF f]
  show ?thesis
  proof (cases "(\<exists>frame. r1 = Ok frame) \<or> zone = None \<or> zone = Some Dma")
    case True
    then show ?thesis
      using assms f a by (auto simp: allocate_bitmap_with_zone_def avoids_Err split: result.splits)
  next
    case False
    then have "allocate_bitmap_internal fa1 count numa None = Done (r, fa')"
      using assms f by (auto simp: allocate_bitmap_with_zone_def split: result.splits)
    then show ?thesis by (rule avoids_trans [OF a allocate_bitmap_internal_avoids])
  qed
qed

lemma allocate_buddy_with_zone_avoids:
  assumes "allocate_buddy_with_zone fa count numa zone = (r, fa')"
  shows "avoids count fa (Some r, fa')"
proof -
  obtain r1 fa1 where f: "allocate_buddy_internal fa count numa zone = (r1, fa1)" by fastforce
  note a = allocate_buddy_internal_avoids [OF f]
  show ?thesis
  proof (cases "(\<exists>frame. r1 = Ok frame) \<or> zone = None \<or> zone = Some Dma")
    case True
    then show ?thesis
      using assms f a by (auto simp: allocate_buddy_with_zone_def avoids_Err split: result.splits)
  next
    case False
    then have "allocate_buddy_internal fa1 count numa None = (r, fa')"
      using assms f by (auto simp: allocate_buddy_with_zone_def split: result.splits)
    then show ?thesis by (rule avoids_trans [OF a allocate_buddy_internal_avoids])
  qed
qed

lemma allocate_frames_in_zone_avoids:
  assumes "allocate_frames_in_zone elapsed fa count numa zone = Done (r, fa')"
  shows "avoids count fa (Some r, fa')"
proof -
  let ?search = "if count < BITMAP_BUDDY_THRESHOLD then
              case allocate_bitmap_with_zone fa count numa zone of
                Panic \<Rightarrow> Panic
              | Done (Ok frame, fa') \<Rightarrow> Done (Ok frame, fa')
              | Done (Err _, fa') \<Rightarrow> Done (allocate_buddy_with_zone fa' count numa zone)
            else Done (allocate_buddy_with_zone fa count numa zone)"
  from assms obtain fa1 where s: "?search = Done (r, fa1)" and r: "fa_reserved fa' = fa_reserved fa1"
    unfolding allocate_frames_in_zone_def by (auto split: outcome.splits)
  have "avoids count fa (Some r, fa1)"
  proof (cases "count < BITMAP_BUDDY_THRESHOLD")
    case True
    with s obtain r1 fa2 where b: "allocate_bitmap_with_zone fa count numa zone = Done (r1, fa2)"
      by (auto split: outcome.splits)
    note a = allocate_bitmap_with_zone_avoids [OF b]
    show ?thesis
    proof (cases r1)
      case (Ok frame)
      then show ?thesis using s True b a by simp
    next
      case (Err e)
      then have "allocate_buddy_with_zone fa2 count numa zone = (r, fa1)" using s True b by simp
      then show ?thesis by (rule avoids_trans [OF a allocate_buddy_with_zone_avoids])
    qed
  next
    case False
    then show ?thesis using s allocate_buddy_with_zone_avoids by simp
  qed
  then show ?thesis using r by (simp add: avoids_def)
qed

section \<open>Properties\<close>

text \<open>
  C27. Reserved memory is never handed out. Whatever the request (size, preferred node, zone), the frames
  that a successful allocation returns lie outside every reserved region, on the bitmap path, on the
  buddy path and on the fallbacks between them, and the list of regions is as before.
\<close>

theorem allocation_avoids_reserved:
  assumes "allocate_frames_in_zone elapsed fa count numa zone = Done (Ok f, fa')"
    and "unat f + unat count < 2 ^ 64" and "region \<in> set (fa_reserved fa)"
  shows "frames f count \<inter> {unat (rr_start region)..<unat (rr_end region)} = {} \<and>
         fa_reserved fa' = fa_reserved fa"
proof -
  have a: "\<not> is_reserved fa f count" "fa_reserved fa' = fa_reserved fa"
    using allocate_frames_in_zone_avoids [OF assms(1)] by (simp_all add: avoids_def)
  have "unat (f + count) = unat f + unat count" using assms(2) by (simp add: unat_word_ariths(1))
  then have "\<not> (unat f < unat (rr_end region) \<and> unat (rr_start region) < unat f + unat count)"
    using a(1) assms(3) by (auto simp: is_reserved_def list_ex_iff word_less_nat_alt)
  then show ?thesis using a(2) by (auto simp: frames_def)
qed

text \<open>A buddy allocator with one block of two frames, right above the reserved first megabyte.\<close>

definition demo_reserved :: frame_allocator where
  "demo_reserved = fa_new\<lparr>fa_buddies := (replicate MAX_NUMA_NODES None)[0 :=
       Some \<lparr>bd_lists = (replicate BUDDY_ORDERS [])[1 := [256]], bd_start = 256, bd_total = 2, bd_free_frames = 2\<rparr>],
     fa_reserved := [\<lparr>rr_start = 0, rr_end = 256, rr_description = ''BIOS/Real mode''\<rparr>]\<rparr>"

theorem allocation_avoids_reserved_witness:
  "\<exists>fa'. allocate_frames_in_zone 7 demo_reserved 2 None None = Done (Ok 256, fa') \<and>
    frames 256 2 \<inter> {unat (0 :: frame_number)..<unat (256 :: frame_number)} = {}"
proof -
  let ?fa = "snd (allocate_buddy_with_zone demo_reserved 2 None None)"
  have "allocate_bitmap_with_zone demo_reserved 2 None None = Done (Err OutOfMemory, demo_reserved)" by code_simp
  moreover have "fst (allocate_buddy_with_zone demo_reserved 2 None None) = Ok 256" by code_simp
  moreover have "(2 :: usize) < BITMAP_BUDDY_THRESHOLD" by code_simp
  ultimately obtain fa' where al: "allocate_frames_in_zone 7 demo_reserved 2 None None = Done (Ok 256, fa')"
    by (cases "allocate_buddy_with_zone demo_reserved 2 None None") (simp add: allocate_frames_in_zone_def)
  have "\<lparr>rr_start = 0, rr_end = 256, rr_description = ''BIOS/Real mode''\<rparr> \<in> set (fa_reserved demo_reserved)"
    by (simp add: demo_reserved_def)
  from allocation_avoids_reserved [OF al _ this] al show ?thesis by auto
qed

lemma bm_free_twice:
  assumes "bm_wf a" and "in_node a f 1" and "bm_is_free a (unat f)"
  shows "bm_free a f 1 = Done (Err InvalidFrame, a)"
proof -
  let ?o = "unat (f - bm_start a)"
  have le: "bm_start a \<le> f" using assms(2) by (simp add: in_node_def word_le_nat_alt)
  have o: "?o = unat f - unat (bm_start a)" by (rule unat_offset [OF le])
  have lt: "?o + 1 \<le> unat (bm_total a)" using assms(2) o by (auto simp: in_node_def)
  have "?o + 1 < 2 ^ 64" using lt unat_lt_2p64 [of "bm_total a"] by simp
  then have "unat (f - bm_start a + 1) = ?o + 1" by (simp add: unat_word_ariths(1))
  then have "\<not> bm_total a < f - bm_start a + 1" using lt by (simp add: word_less_nat_alt)
  moreover have "bit_at (bm_bits a) ?o" using assms(3) o by (simp add: bm_is_free_def)
  then have "free_bits (bm_bits a) ?o (Suc 0) = Done (False, bm_bits a)"
    using test_bit_at [of ?o "bm_bits a"] by (simp add: bit_at_def index_lt)
  ultimately show ?thesis by (simp add: bm_free_def Let_def)
qed

text \<open>
  C38. A double free of a bitmap frame succeeds. The bitmap detects that the frame is free already and
  reports it, but the caller takes every error for a frame of another node, and the buddy allocator
  takes any frame without a look at its range: the release returns success, and the frame is now
  free in two places, from which it can be handed out twice.
\<close>

theorem double_free_enters_buddy:
  assumes "fa_ok s fa" and "fa_bitmaps fa = (replicate MAX_NUMA_NODES None)[0 := Some a]"
    and "fa_buddies fa = (replicate MAX_NUMA_NODES None)[0 := Some b]"
    and "in_node a f 1" and "bm_is_free a (unat f)"
  shows "\<exists>fa'. free_frames fa f 1 = Done (Ok (), fa') \<and> 2 \<le> fa_free fa' (unat f)"
proof -
  have n: "[0..<MAX_NUMA_NODES] = 0 # [Suc 0..<MAX_NUMA_NODES]" "0 < MAX_NUMA_NODES"
    by (simp_all add: MAX_NUMA_NODES_def upt_conv_Cons)
  have b0: "fa_bitmaps fa ! 0 = Some a" "fa_buddies fa ! 0 = Some b" using assms(2,3) n(2) by simp_all
  note a = fa_ok_bitmap [OF assms(1) n(2) b0(1)] and bw = fa_ok_buddy [OF assms(1) n(2) b0(2)]
  have f: "unat f < 2 ^ 63" using assms(4) a(1) by (auto simp: in_node_def bm_wf_def)
  have same: "set_bitmap fa 0 a = fa"
    using b0(1) by (simp add: set_bitmap_def) (metis frame_allocator.surjective frame_allocator.update_convs(1) list_update_id)
  have "free_in_bitmaps fa ns f 1 = Done (False, fa)" if "set ns \<subseteq> {Suc 0..<MAX_NUMA_NODES}" for ns
    using that by (induction ns) (simp_all add: assms(2))
  then have bm: "free_in_bitmaps fa [0..<MAX_NUMA_NODES] f 1 = Done (False, fa)"
    unfolding n(1) using bm_free_twice [OF a(1) assms(4,5)] b0(1) same by simp
  have "in_bounds (get_order 1) f" "get_order 1 < BUDDY_ORDERS"
    using f by (simp_all add: order_one in_bounds_def BUDDY_ORDERS_def)
  from bd_free_frames [OF bw this] obtain b' where
    b': "bd_free b f 1 = (Ok (), b')" "\<forall>x. bd_cover b' x = bd_cover b x + covers 0 f x"
    by (auto simp: order_one)
  let ?fa = "set_buddy fa 0 b'"
  have "free_frames fa f 1 = Done (Ok (), ?fa)"
    unfolding free_frames_def bm using b0(2) b'(1) n(1) by simp
  moreover have "fa_free ?fa (unat f) = fa_free fa (unat f) + 1"
    using set_buddy_free [OF assms(1) n(2) b0(2), of b' "unat f"] b'(2) by (simp add: covers_def block_def)
  moreover have "1 \<le> fa_free fa (unat f)" using bm_is_free_le [OF assms(1) n(2) b0(1), of "unat f"] assms(5) by simp
  ultimately show ?thesis by auto
qed

definition demo_double :: frame_allocator where
  "demo_double = fa_new\<lparr>fa_bitmaps := (replicate MAX_NUMA_NODES None)[0 := Some (bm_new 512 131072)],
     fa_buddies := (replicate MAX_NUMA_NODES None)[0 :=
       Some \<lparr>bd_lists = replicate BUDDY_ORDERS [], bd_start = 131584, bd_total = 2, bd_free_frames = 0\<rparr>]\<rparr>"

theorem double_free_enters_buddy_witness:
  "fa_ok 512 demo_double \<and> in_node (bm_new 512 131072) 600 1 \<and> bm_is_free (bm_new 512 131072) (unat (600 :: frame_number)) \<and>
   (\<exists>fa'. free_frames demo_double 600 1 = Done (Ok (), fa') \<and> 2 \<le> fa_free fa' (unat (600 :: frame_number)))"
proof -
  have "bm_wf (bm_new 512 131072)" by (rule bm_new_wf) (simp_all add: BITMAP_WORDS_def)
  moreover have "bm_start (bm_new 512 131072) = 512" by (simp add: bm_new_def)
  ultimately have ok: "fa_ok 512 demo_double"
    using set_update_subset_insert [of "replicate MAX_NUMA_NODES None" 0 "Some (bm_new 512 131072)"]
      set_update_subset_insert [of "replicate MAX_NUMA_NODES None" 0
        "Some \<lparr>bd_lists = replicate BUDDY_ORDERS [], bd_start = 131584, bd_total = 2, bd_free_frames = 0\<rparr>"]
    by (auto simp: fa_ok_def demo_double_def fa_new_def bd_wf_def lists_ok_def)
  have n: "in_node (bm_new 512 131072) 600 1" by (simp add: in_node_def bm_new_def)
  have fr: "bm_is_free (bm_new 512 131072) (unat (600 :: frame_number))"
    unfolding bm_new_free by (simp add: BITMAP_WORDS_def)
  show ?thesis
    using ok n fr double_free_enters_buddy [OF ok _ _ n fr] by (simp add: demo_double_def)
qed

section \<open>Further behaviour at the boundaries\<close>

text \<open>
  A request for the DMA zone that names no node is the same as one without a zone: the loop over all
  nodes does not look at the zone.
\<close>

lemma dma_request_unconstrained:
  "allocate_frames_in_zone elapsed fa count None (Some Dma) = allocate_frames_in_zone elapsed fa count None None"
proof -
  have e: "allocate_bitmap_with_zone fa count None (Some Dma) = allocate_bitmap_with_zone fa count None None"
    "allocate_buddy_with_zone fa' count None (Some Dma) = allocate_buddy_with_zone fa' count None None" for fa'
    by (simp_all add: allocate_bitmap_with_zone_def allocate_bitmap_internal_def
        allocate_buddy_with_zone_def allocate_buddy_internal_def split: outcome.split prod.split result.split)
  show ?thesis unfolding allocate_frames_in_zone_def e ..
qed

text \<open>
  The bitmap search does not go on behind a reserved run: when the lowest run that fits is reserved,
  it is given back and the node reports that it is out of memory, however much of it is free.
\<close>

lemma reserved_run_blocks_node:
  assumes "fa_ok s fa" and "fa_bitmaps fa = (replicate MAX_NUMA_NODES None)[0 := Some a]"
    and "bm_allocate a count = (Ok f, a')" and "in_node a f count" and "is_reserved fa f count"
  shows "allocate_bitmap_internal fa count None None = Done (Err OutOfMemory, fa)"
proof -
  have n: "[0..<MAX_NUMA_NODES] = 0 # [Suc 0..<MAX_NUMA_NODES]" "0 < MAX_NUMA_NODES"
    by (simp_all add: MAX_NUMA_NODES_def upt_conv_Cons)
  have b0: "fa_bitmaps fa ! 0 = Some a" using assms(2) n(2) by simp
  note a = fa_ok_bitmap [OF assms(1) n(2) b0]
  have same: "set_bitmap fa 0 a = fa"
    using b0 by (simp add: set_bitmap_def) (metis frame_allocator.surjective frame_allocator.update_convs(1) list_update_id)
  have "try_bitmap_node fa 0 count None = Done (None, fa)"
    using bm_allocate_free [OF a(1) assms(3)] assms(3-5) b0 same by (simp add: try_bitmap_node_def in_node_def)
  moreover have "try_bitmaps fa ns count = Done (Err OutOfMemory, fa)" if "set ns \<subseteq> {Suc 0..<MAX_NUMA_NODES}" for ns
    using that by (induction ns) (simp_all add: assms(2) try_bitmap_node_def)
  ultimately show ?thesis unfolding allocate_bitmap_internal_def n(1) by simp
qed

text \<open>
  Releasing the frame just below a node panics: the distance wraps, the range check wraps back to 0
  and passes, and the bitmap is indexed far out of range. With two adjacent regions this is the last
  frame of the lower one, when that frame belongs to a buddy allocator or when the lower region has
  the higher node number.
\<close>

lemma free_below_node_panics:
  assumes "bm_wf a" and "0 < bm_start a"
  shows "bm_free a (bm_start a - 1) 1 = Panic"
proof -
  have "bm_start a - 1 - bm_start a = (- 1 :: u64)" by simp
  moreover have "length (bm_bits a) \<le> unat (- 1 :: u64) div 64"
    using assms(1) by (simp add: bm_wf_def BITMAP_WORDS_def unsigned_minus_1_eq_mask mask_eq_exp_minus_1)
  ultimately show ?thesis by (simp add: bm_free_def Let_def)
qed

text \<open>A region of 8.5 GiB or more panics at boot: its buddy block would need a list of order 21.\<close>

lemma large_region_panics:
  assumes "unat node < MAX_NUMA_NODES" and "131072 + 2 ^ 21 \<le> unat n" and "unat n < 2 ^ 52"
  shows "init_numa_node fa node s n = Panic"
proof -
  have big: "131072 < n" using assms(2) by (simp add: word_less_nat_alt)
  then have m: "min n (2048 * 64) = 131072" by (auto simp: min_def dest: leD)
  have u: "unat (n - 131072) = unat n - 131072" using big by (simp add: unat_offset)
  have pos: "0 < n - 131072" using u assms(2) by (simp add: word_less_nat_alt)
  from floor_log [OF pos] obtain k where k: "2 ^ k \<le> unat (n - 131072)" "unat (n - 131072) < 2 ^ Suc k" by blast
  have "(2 :: nat) ^ 21 < 2 ^ Suc k" using k(2) u assms(2) by simp
  then have "21 < Suc k" by (rule power_less_imp_less_exp [rotated]) simp
  moreover have "(2 :: nat) ^ k < 2 ^ 52" using k(1) u assms(3) by simp
  then have "k < 52" by (rule power_less_imp_less_exp [rotated]) simp
  ultimately have "bd_new (s + 131072) (n - 131072) = Panic"
    using bd_new_eq [OF k, of "s + 131072"] by (simp add: BUDDY_ORDERS_def)
  then show ?thesis using assms(1) m pos by (simp add: init_numa_node_def Let_def)
qed

text \<open>
  \<open>reserve_standard_regions\<close> never succeeds: its second region lies within its first.
\<close>

lemma standard_regions_conflict: "\<exists>fa'. reserve_standard_regions apic fa =
    (Err (KeResourceExhausted ''reserved memory regions''), fa')"
  by (auto simp: reserve_standard_regions_def reserve_region_def add_reserved_region_def
      split: prod.splits result.splits if_splits)

text \<open>Reserved regions do not overlap each other.\<close>

lemma add_reserved_region_disjoint:
  assumes "\<forall>i < length (fa_reserved fa). \<forall>j < i.
      {unat (rr_start (fa_reserved fa ! i))..<unat (rr_end (fa_reserved fa ! i))} \<inter>
      {unat (rr_start (fa_reserved fa ! j))..<unat (rr_end (fa_reserved fa ! j))} = {}"
    and "add_reserved_region fa region = (r, fa')"
  shows "\<forall>i < length (fa_reserved fa'). \<forall>j < i.
      {unat (rr_start (fa_reserved fa' ! i))..<unat (rr_end (fa_reserved fa' ! i))} \<inter>
      {unat (rr_start (fa_reserved fa' ! j))..<unat (rr_end (fa_reserved fa' ! j))} = {}"
proof (cases "r = Ok ()")
  case True
  then have new: "fa_reserved fa' = fa_reserved fa @ [region]"
    and ok: "\<forall>ex \<in> set (fa_reserved fa). \<not> (rr_start region < rr_end ex \<and> rr_start ex < rr_end region)"
    using assms(2) by (auto simp: add_reserved_region_def list_ex_iff split: if_splits)
  have "{unat (rr_start region)..<unat (rr_end region)} \<inter>
      {unat (rr_start (fa_reserved fa ! j))..<unat (rr_end (fa_reserved fa ! j))} = {}"
    if "j < length (fa_reserved fa)" for j
    using ok [rule_format, OF nth_mem [OF that]] by (auto simp: word_less_nat_alt)
  then show ?thesis using assms(1) unfolding new by (auto simp: nth_append less_Suc_eq)
next
  case False
  then show ?thesis using assms by (auto simp: add_reserved_region_def split: if_splits)
qed

end
