(* ===== verification/Fs_Flock.thy ===== *)
theory Fs_Flock
  imports Kernel_Error
begin

text \<open>
  Advisory file locks (\<open>src/kernel/src/fs/flock.rs\<close>): whole-file locks and byte-range locks, both
  kept per inode in one global table, and the deadlock detector of the blocking request. The global
  table is passed explicitly; each operation takes its lock once, so an operation is one step.
\<close>

section \<open>Data\<close>

definition LOCK_SH :: u32 where "LOCK_SH = 1"
definition LOCK_EX :: u32 where "LOCK_EX = 2"
definition LOCK_NB :: u32 where "LOCK_NB = 4"
definition LOCK_UN :: u32 where "LOCK_UN = 8"

definition F_RDLCK :: u16 where "F_RDLCK = 0"
definition F_WRLCK :: u16 where "F_WRLCK = 1"
definition F_UNLCK :: u16 where "F_UNLCK = 2"

lemmas lock_constants = LOCK_SH_def LOCK_EX_def LOCK_NB_def LOCK_UN_def
  F_RDLCK_def F_WRLCK_def F_UNLCK_def

record file_lock =
  fl_lock_type :: u16
  fl_start :: u64
  fl_len :: u64
  fl_pid :: u64

definition fl_end :: "file_lock \<Rightarrow> u64" where
  "fl_end l = (if fl_len l = 0 then - 1
     else if unat (fl_start l) + unat (fl_len l) < 2 ^ 64 then fl_start l + fl_len l else - 1)"

definition fl_overlaps :: "file_lock \<Rightarrow> file_lock \<Rightarrow> bool" where
  "fl_overlaps l other = (fl_start l < fl_end other \<and> fl_start other < fl_end l)"

record flock_entry =
  fe_lock_type :: u32
  fe_pid :: u64

record lock_table =
  flock_locks :: "(u64, flock_entry list) btree_map"
  range_locks :: "(u64, file_lock list) btree_map"

definition lock_table_new :: lock_table where
  "lock_table_new = \<lparr>flock_locks = [], range_locks = []\<rparr>"

definition or_default :: "'v list option \<Rightarrow> 'v list" where
  "or_default e = (case e of Some vs \<Rightarrow> vs | None \<Rightarrow> [])"

section \<open>Whole-file locks\<close>

definition flock_lock :: "u64 \<Rightarrow> u64 \<Rightarrow> u32 \<Rightarrow> bool \<Rightarrow> lock_table \<Rightarrow> (unit, kernel_error) result \<times> lock_table" where
  "flock_lock inode pid lock_type non_blocking t =
     (let entries = or_default (bt_get (flock_locks t) inode);
          conflict = list_ex (\<lambda>e. fe_pid e \<noteq> pid \<and> (lock_type = LOCK_EX \<or> fe_lock_type e = LOCK_EX)) entries
      in if conflict then (Err KeWouldBlock, t\<lparr>flock_locks := bt_insert inode entries (flock_locks t)\<rparr>)
         else let entries2 = filter (\<lambda>e. fe_pid e \<noteq> pid) entries @ [\<lparr>fe_lock_type = lock_type, fe_pid = pid\<rparr>]
              in (Ok (), t\<lparr>flock_locks := bt_insert inode entries2 (flock_locks t)\<rparr>))"

definition flock_unlock :: "u64 \<Rightarrow> u64 \<Rightarrow> lock_table \<Rightarrow> (unit, kernel_error) result \<times> lock_table" where
  "flock_unlock inode pid t =
     (case bt_get (flock_locks t) inode of
        Some entries \<Rightarrow>
          let entries2 = filter (\<lambda>e. fe_pid e \<noteq> pid) entries
          in if entries2 = [] then (Ok (), t\<lparr>flock_locks := bt_remove inode (flock_locks t)\<rparr>)
             else (Ok (), t\<lparr>flock_locks := bt_insert inode entries2 (flock_locks t)\<rparr>)
      | None \<Rightarrow> (Ok (), t))"

definition flock :: "u64 \<Rightarrow> u64 \<Rightarrow> u32 \<Rightarrow> lock_table \<Rightarrow> (unit, kernel_error) result \<times> lock_table" where
  "flock inode pid operation t =
     (let op = operation AND NOT LOCK_NB;
          non_blocking = operation AND LOCK_NB \<noteq> 0
      in if op = LOCK_UN then flock_unlock inode pid t
         else if op = LOCK_SH then flock_lock inode pid LOCK_SH non_blocking t
         else if op = LOCK_EX then flock_lock inode pid LOCK_EX non_blocking t
         else (Err (KeInvalidArgument ''operation'' ''invalid flock operation''), t))"

section \<open>Byte-range locks\<close>

fun check_range_conflict :: "file_lock list \<Rightarrow> file_lock \<Rightarrow> bool" where
  "check_range_conflict [] new_lock = False"
| "check_range_conflict (lock # existing) new_lock =
     (if fl_pid lock = fl_pid new_lock then check_range_conflict existing new_lock
      else if \<not> fl_overlaps lock new_lock then check_range_conflict existing new_lock
      else if fl_lock_type lock = F_RDLCK \<and> fl_lock_type new_lock = F_RDLCK
      then check_range_conflict existing new_lock
      else True)"

fun find_conflicting_lock :: "file_lock list \<Rightarrow> file_lock \<Rightarrow> file_lock option" where
  "find_conflicting_lock [] query = None"
| "find_conflicting_lock (lock # existing) query =
     (if fl_pid lock = fl_pid query then find_conflicting_lock existing query
      else if \<not> fl_overlaps lock query then find_conflicting_lock existing query
      else if fl_lock_type lock = F_RDLCK \<and> fl_lock_type query = F_RDLCK
      then find_conflicting_lock existing query
      else Some lock)"

definition fcntl_unlock :: "u64 \<Rightarrow> file_lock \<Rightarrow> lock_table \<Rightarrow> (unit, kernel_error) result \<times> lock_table" where
  "fcntl_unlock inode lock t =
     (case bt_get (range_locks t) inode of
        Some locks \<Rightarrow>
          let locks2 = filter (\<lambda>ex. fl_pid ex \<noteq> fl_pid lock \<or>
                \<not> (fl_start lock \<le> fl_start ex \<and> fl_end ex \<le> fl_end lock)) locks
          in if locks2 = [] then (Ok (), t\<lparr>range_locks := bt_remove inode (range_locks t)\<rparr>)
             else (Ok (), t\<lparr>range_locks := bt_insert inode locks2 (range_locks t)\<rparr>)
      | None \<Rightarrow> (Ok (), t))"

definition replace_locks :: "file_lock list \<Rightarrow> file_lock \<Rightarrow> file_lock list" where
  "replace_locks locks lock =
     filter (\<lambda>ex. fl_pid ex \<noteq> fl_pid lock \<or>
        \<not> (fl_start ex < fl_end lock \<and> fl_start lock < fl_end ex)) locks @ [lock]"

definition fcntl_setlk :: "u64 \<Rightarrow> file_lock \<Rightarrow> lock_table \<Rightarrow> (unit, kernel_error) result \<times> lock_table" where
  "fcntl_setlk inode lock t =
     (if fl_lock_type lock = F_UNLCK then fcntl_unlock inode lock t
      else if fl_lock_type lock \<noteq> F_RDLCK \<and> fl_lock_type lock \<noteq> F_WRLCK
      then (Err (KeInvalidArgument ''lock_type'' ''must be F_RDLCK, F_WRLCK, or F_UNLCK''), t)
      else let locks = or_default (bt_get (range_locks t) inode)
           in if check_range_conflict locks lock
              then (Err KeWouldBlock, t\<lparr>range_locks := bt_insert inode locks (range_locks t)\<rparr>)
              else (Ok (), t\<lparr>range_locks := bt_insert inode (replace_locks locks lock) (range_locks t)\<rparr>))"

section \<open>Deadlock detection\<close>

definition push_new :: "u64 \<Rightarrow> u64 list \<Rightarrow> u64 list" where
  "push_new p ps = (if p \<in> set ps then ps else ps @ [p])"

definition dd_seed :: "file_lock \<Rightarrow> file_lock list \<Rightarrow> u64 list \<Rightarrow> u64 list" where
  "dd_seed request =
     fold (\<lambda>lock frontier.
       if fl_pid lock = fl_pid request then frontier
       else if \<not> fl_overlaps lock request then frontier
       else if fl_lock_type lock = F_RDLCK \<and> fl_lock_type request = F_RDLCK then frontier
       else push_new (fl_pid lock) frontier)"

definition dd_others :: "u64 \<Rightarrow> u64 list \<Rightarrow> file_lock \<Rightarrow> file_lock list \<Rightarrow> u64 list \<Rightarrow> u64 list" where
  "dd_others blocker visited bl =
     fold (\<lambda>other frontier.
       if fl_pid other = blocker \<or> fl_pid other \<in> set visited then frontier
       else if \<not> fl_overlaps other bl then frontier
       else if fl_lock_type other = F_RDLCK \<and> fl_lock_type bl = F_RDLCK then frontier
       else push_new (fl_pid other) frontier)"

definition dd_expand :: "u64 \<Rightarrow> u64 list \<Rightarrow> file_lock list list \<Rightarrow> u64 list \<Rightarrow> u64 list" where
  "dd_expand blocker visited =
     fold (\<lambda>locks frontier.
       fold (\<lambda>bl. dd_others blocker visited bl locks)
         (filter (\<lambda>l. fl_pid l = blocker) locks) frontier)"

lemma set_push_new [simp]: "set (push_new p ps) = insert p (set ps)"
  by (auto simp: push_new_def)

lemma set_dd_others: "set (dd_others b vs bl ls fr) \<subseteq> set fr \<union> fl_pid ` set ls"
  unfolding dd_others_def by (induction ls arbitrary: fr) (force split: if_splits)+

lemma set_dd_expand_locks:
  "set (fold (\<lambda>bl. dd_others b vs bl ls) bls fr) \<subseteq> set fr \<union> fl_pid ` set ls"
proof (induction bls arbitrary: fr)
  case (Cons bl bls)
  show ?case using Cons [of "dd_others b vs bl ls fr"] set_dd_others [of b vs bl ls fr] by auto
qed simp

lemma set_dd_expand: "set (dd_expand b vs tabs fr) \<subseteq> set fr \<union> fl_pid ` set (concat tabs)"
  unfolding dd_expand_def
proof (induction tabs arbitrary: fr)
  case (Cons ls tabs)
  let ?fr = "fold (\<lambda>bl. dd_others b vs bl ls) (filter (\<lambda>l. fl_pid l = b) ls) fr"
  show ?case using Cons [of ?fr] set_dd_expand_locks [of b vs ls _ fr] by fastforce
qed simp

function dd_search :: "file_lock list list \<Rightarrow> u64 \<Rightarrow> u64 list \<Rightarrow> u64 list \<Rightarrow> bool" where
  "dd_search tabs requester visited frontier =
     (if frontier = [] then False
      else let blocker = last frontier; frontier2 = butlast frontier
           in if blocker = requester then True
              else if blocker \<in> set visited then dd_search tabs requester visited frontier2
              else dd_search tabs requester (visited @ [blocker])
                     (dd_expand blocker (visited @ [blocker]) tabs frontier2))"
  by pat_completeness auto
termination
proof (relation "measures [\<lambda>(tabs, r, vs, fr). card ((fl_pid ` set (concat tabs) \<union> set fr) - set vs),
    \<lambda>(tabs, r, vs, fr). length fr]", goal_cases)
  case (2 tabs r vs fr b fr2)
  let ?U = "fl_pid ` set (concat tabs)"
  have sub: "(?U \<union> set fr2) - set vs \<subseteq> (?U \<union> set fr) - set vs"
    using 2 by (auto dest: in_set_butlastD)
  have "card ((?U \<union> set fr2) - set vs) \<le> card ((?U \<union> set fr) - set vs)"
    by (rule card_mono [OF _ sub]) simp
  moreover have "length fr2 < length fr" using 2 by simp
  ultimately show ?case by (auto simp: less_le)
next
  case (3 tabs r vs fr b fr2)
  let ?U = "fl_pid ` set (concat tabs)"
  let ?fr = "dd_expand b (vs @ [b]) tabs fr2"
  have "b \<in> set fr" using 3 by simp
  moreover have "set ?fr \<subseteq> set fr2 \<union> ?U" by (rule set_dd_expand)
  moreover have "set fr2 \<subseteq> set fr" using 3 by (auto dest: in_set_butlastD)
  ultimately have "(?U \<union> set ?fr) - set (vs @ [b]) \<subset> (?U \<union> set fr) - set vs" using 3 by auto
  then have "card ((?U \<union> set ?fr) - set (vs @ [b])) < card ((?U \<union> set fr) - set vs)"
    by (intro psubset_card_mono) simp_all
  then show ?case by simp
qed simp

declare dd_search.simps [simp del]

definition detect_deadlock :: "lock_table \<Rightarrow> file_lock \<Rightarrow> bool" where
  "detect_deadlock t request =
     (let tabs = map snd (range_locks t)
      in dd_search tabs (fl_pid request) [] (fold (dd_seed request) tabs []))"

definition fcntl_setlkw :: "u64 \<Rightarrow> file_lock \<Rightarrow> lock_table \<Rightarrow> (unit, kernel_error) result \<times> lock_table" where
  "fcntl_setlkw inode lock t =
     (if fl_lock_type lock = F_UNLCK then fcntl_unlock inode lock t
      else if fl_lock_type lock \<noteq> F_RDLCK \<and> fl_lock_type lock \<noteq> F_WRLCK
      then (Err (KeInvalidArgument ''lock_type'' ''must be F_RDLCK, F_WRLCK, or F_UNLCK''), t)
      else let locks = or_default (bt_get (range_locks t) inode);
               t1 = t\<lparr>range_locks := bt_insert inode locks (range_locks t)\<rparr>
           in if \<not> check_range_conflict locks lock
              then (Ok (), t1\<lparr>range_locks := bt_insert inode (replace_locks locks lock) (range_locks t1)\<rparr>)
              else if detect_deadlock t1 lock
              then (Err (KeInvalidState ''no deadlock'' ''deadlock detected''), t1)
              else (Err KeWouldBlock, t1))"

definition fcntl_getlk :: "u64 \<Rightarrow> file_lock \<Rightarrow> lock_table \<Rightarrow> (file_lock option, kernel_error) result" where
  "fcntl_getlk inode lock t =
     (if fl_lock_type lock \<noteq> F_RDLCK \<and> fl_lock_type lock \<noteq> F_WRLCK
      then Err (KeInvalidArgument ''lock_type'' ''must be F_RDLCK or F_WRLCK for F_GETLK'')
      else case bt_get (range_locks t) inode of
             Some locks \<Rightarrow> Ok (find_conflicting_lock locks lock)
           | None \<Rightarrow> Ok None)"

section \<open>Process exit\<close>

definition retain_owner :: "('v \<Rightarrow> u64) \<Rightarrow> u64 \<Rightarrow> (u64, 'v list) btree_map \<Rightarrow> (u64, 'v list) btree_map" where
  "retain_owner owner pid m =
     (let kept = map (\<lambda>(inode, vs). (inode, filter (\<lambda>v. owner v \<noteq> pid) vs)) m;
          empty_inodes = map fst (filter (\<lambda>(inode, vs). vs = []) kept)
      in fold bt_remove empty_inodes kept)"

definition cleanup_process_locks :: "u64 \<Rightarrow> lock_table \<Rightarrow> lock_table" where
  "cleanup_process_locks pid t =
     t\<lparr>flock_locks := retain_owner fe_pid pid (flock_locks t),
       range_locks := retain_owner fl_pid pid (range_locks t)\<rparr>"


section \<open>Which table a sequence of operations can reach\<close>

inductive lt_reachable :: "lock_table \<Rightarrow> bool" where
  lt_new: "lt_reachable lock_table_new"
| lt_flock: "lt_reachable t \<Longrightarrow> lt_reachable (snd (flock inode pid operation t))"
| lt_setlk: "lt_reachable t \<Longrightarrow> lt_reachable (snd (fcntl_setlk inode lock t))"
| lt_setlkw: "lt_reachable t \<Longrightarrow> lt_reachable (snd (fcntl_setlkw inode lock t))"
| lt_cleanup: "lt_reachable t \<Longrightarrow> lt_reachable (cleanup_process_locks pid t)"

text \<open>
  Two byte-range locks are compatible when they have the same owner, do not overlap or are both read
  locks. Whole-file locks are compatible when they are shared, and a process has at most one of them
  on a file.
\<close>

definition compatible :: "file_lock \<Rightarrow> file_lock \<Rightarrow> bool" where
  "compatible a b = (fl_pid a = fl_pid b \<or> \<not> fl_overlaps a b \<or>
     fl_lock_type a = F_RDLCK \<and> fl_lock_type b = F_RDLCK)"

definition ranges_ok :: "file_lock list \<Rightarrow> bool" where
  "ranges_ok ls = (\<forall>a \<in> set ls. \<forall>b \<in> set ls. compatible a b)"

definition entries_ok :: "flock_entry list \<Rightarrow> bool" where
  "entries_ok es = (distinct (map fe_pid es) \<and>
     (\<forall>a \<in> set es. \<forall>b \<in> set es. fe_pid a \<noteq> fe_pid b \<longrightarrow> fe_lock_type a \<noteq> LOCK_EX))"

definition lt_inv :: "lock_table \<Rightarrow> bool" where
  "lt_inv t = ((\<forall>es \<in> snd ` set (flock_locks t). entries_ok es) \<and>
     (\<forall>ls \<in> snd ` set (range_locks t). ranges_ok ls))"

lemma compatible_sym: "compatible a b \<Longrightarrow> compatible b a"
  by (auto simp: compatible_def fl_overlaps_def)

lemma compatible_self: "fl_pid a = fl_pid b \<Longrightarrow> compatible a b"
  by (simp add: compatible_def)

lemma check_range_conflict_iff:
  "check_range_conflict ls new \<longleftrightarrow> (\<exists>l \<in> set ls. \<not> compatible l new)"
  by (induction ls) (auto simp: compatible_def)

lemma find_conflicting_lock_None:
  "find_conflicting_lock ls q = None \<longleftrightarrow> \<not> check_range_conflict ls q"
  by (induction ls) auto

lemma find_conflicting_lock_Some:
  "find_conflicting_lock ls q = Some l \<Longrightarrow> l \<in> set ls \<and> \<not> compatible l q"
  by (induction ls) (auto simp: compatible_def split: if_splits)

lemma ranges_ok_Nil [simp]: "ranges_ok []"
  by (simp add: ranges_ok_def)

lemma entries_ok_Nil [simp]: "entries_ok []"
  by (simp add: entries_ok_def)

lemma ranges_ok_filter: "ranges_ok ls \<Longrightarrow> ranges_ok (filter P ls)"
  by (auto simp: ranges_ok_def)

lemma entries_ok_filter: "entries_ok es \<Longrightarrow> entries_ok (filter P es)"
  by (auto simp: entries_ok_def distinct_map intro: inj_on_subset)

lemma ranges_ok_replace:
  assumes "ranges_ok ls" and "\<not> check_range_conflict ls new"
  shows "ranges_ok (replace_locks ls new)"
  using assms compatible_sym compatible_self
  unfolding ranges_ok_def replace_locks_def check_range_conflict_iff by fastforce

lemma entries_ok_replace:
  assumes "entries_ok es"
    and "\<not> list_ex (\<lambda>e. fe_pid e \<noteq> pid \<and> (ty = LOCK_EX \<or> fe_lock_type e = LOCK_EX)) es"
  shows "entries_ok (filter (\<lambda>e. fe_pid e \<noteq> pid) es @ [\<lparr>fe_lock_type = ty, fe_pid = pid\<rparr>])"
proof -
  have "distinct (map fe_pid (filter (\<lambda>e. fe_pid e \<noteq> pid) es))"
    using entries_ok_filter [OF assms(1)] by (simp add: entries_ok_def)
  then show ?thesis using assms unfolding entries_ok_def list_ex_iff by auto
qed

lemma lt_inv_flocks:
  assumes "lt_inv t" and "entries_ok es"
  shows "lt_inv (t\<lparr>flock_locks := bt_insert i es (flock_locks t)\<rparr>)"
  using assms set_bt_insert [of i es "flock_locks t"] unfolding lt_inv_def by auto

lemma lt_inv_ranges:
  assumes "lt_inv t" and "ranges_ok ls"
  shows "lt_inv (t\<lparr>range_locks := bt_insert i ls (range_locks t)\<rparr>)"
  using assms set_bt_insert [of i ls "range_locks t"] unfolding lt_inv_def by auto

lemma lt_inv_remove:
  assumes "lt_inv t"
  shows "lt_inv (t\<lparr>flock_locks := bt_remove i (flock_locks t)\<rparr>)"
    and "lt_inv (t\<lparr>range_locks := bt_remove i (range_locks t)\<rparr>)"
  using assms set_bt_remove [of i "flock_locks t"] set_bt_remove [of i "range_locks t"]
  unfolding lt_inv_def by auto

lemma lt_inv_get_flock: "lt_inv t \<Longrightarrow> bt_get (flock_locks t) i = Some es \<Longrightarrow> entries_ok es"
  unfolding lt_inv_def by (auto dest!: bt_get_in)

lemma lt_inv_get_range: "lt_inv t \<Longrightarrow> bt_get (range_locks t) i = Some ls \<Longrightarrow> ranges_ok ls"
  unfolding lt_inv_def by (auto dest!: bt_get_in)

lemma lt_inv_default:
  assumes "lt_inv t"
  shows "entries_ok (or_default (bt_get (flock_locks t) i))"
    and "ranges_ok (or_default (bt_get (range_locks t) i))"
  using lt_inv_get_flock [OF assms] lt_inv_get_range [OF assms]
  by (auto simp: or_default_def split: option.split)

lemma lt_inv_flock_lock: "lt_inv t \<Longrightarrow> lt_inv (snd (flock_lock i p ty nb t))"
  unfolding flock_lock_def Let_def
  by (auto intro!: lt_inv_flocks entries_ok_replace lt_inv_default)

lemma lt_inv_flock_unlock: "lt_inv t \<Longrightarrow> lt_inv (snd (flock_unlock i p t))"
  unfolding flock_unlock_def Let_def
  by (auto intro!: lt_inv_flocks lt_inv_remove entries_ok_filter lt_inv_get_flock split: option.split)

lemma lt_inv_flock: "lt_inv t \<Longrightarrow> lt_inv (snd (flock i p operation t))"
  unfolding flock_def Let_def by (simp add: lt_inv_flock_lock lt_inv_flock_unlock)

lemma lt_inv_fcntl_unlock: "lt_inv t \<Longrightarrow> lt_inv (snd (fcntl_unlock i lock t))"
  unfolding fcntl_unlock_def Let_def
  by (auto intro!: lt_inv_ranges lt_inv_remove ranges_ok_filter lt_inv_get_range split: option.split)

lemma lt_inv_setlk: "lt_inv t \<Longrightarrow> lt_inv (snd (fcntl_setlk i lock t))"
  unfolding fcntl_setlk_def Let_def
  by (auto intro!: lt_inv_ranges ranges_ok_replace lt_inv_default lt_inv_fcntl_unlock)

text \<open>
  The blocking request differs from the non-blocking one only in the error it reports.
\<close>

lemma setlkw_setlk: "snd (fcntl_setlkw i lock t) = snd (fcntl_setlk i lock t)"
  by (simp add: fcntl_setlkw_def fcntl_setlk_def Let_def)

lemma set_retain_owner:
  "set (retain_owner owner pid m) \<subseteq> (\<lambda>(i, vs). (i, filter (\<lambda>v. owner v \<noteq> pid) vs)) ` set m"
  unfolding retain_owner_def Let_def fold_bt_remove by auto

lemma retain_ownerE:
  assumes "vs \<in> snd ` set (retain_owner owner pid m)"
  obtains ws where "ws \<in> snd ` set m" "vs = filter (\<lambda>v. owner v \<noteq> pid) ws"
proof -
  from assms obtain i where "(i, vs) \<in> set (retain_owner owner pid m)" by (metis imageE prod.collapse)
  with set_retain_owner have "(i, vs) \<in> (\<lambda>(i, vs). (i, filter (\<lambda>v. owner v \<noteq> pid) vs)) ` set m" by (rule subsetD)
  then obtain j ws where "(j, ws) \<in> set m" "vs = filter (\<lambda>v. owner v \<noteq> pid) ws" by auto
  then show ?thesis using that [of ws] by force
qed

lemma lt_inv_cleanup:
  assumes "lt_inv t"
  shows "lt_inv (cleanup_process_locks pid t)"
proof -
  have "entries_ok es" if "es \<in> snd ` set (retain_owner fe_pid pid (flock_locks t))" for es
    using that
  proof (rule retain_ownerE)
    fix ws assume "ws \<in> snd ` set (flock_locks t)" "es = filter (\<lambda>v. fe_pid v \<noteq> pid) ws"
    with assms show ?thesis by (auto simp: lt_inv_def intro: entries_ok_filter)
  qed
  moreover have "ranges_ok ls" if "ls \<in> snd ` set (retain_owner fl_pid pid (range_locks t))" for ls
    using that
  proof (rule retain_ownerE)
    fix ws assume "ws \<in> snd ` set (range_locks t)" "ls = filter (\<lambda>v. fl_pid v \<noteq> pid) ws"
    with assms show ?thesis by (auto simp: lt_inv_def intro: ranges_ok_filter)
  qed
  ultimately show ?thesis by (simp add: lt_inv_def cleanup_process_locks_def)
qed

lemma lt_reachable_inv: "lt_reachable t \<Longrightarrow> lt_inv t"
proof (induction rule: lt_reachable.induct)
  case lt_new
  show ?case by (simp add: lt_inv_def lock_table_new_def)
qed (simp_all add: lt_inv_flock lt_inv_setlk setlkw_setlk lt_inv_cleanup)

definition covers_byte :: "file_lock \<Rightarrow> u64 \<Rightarrow> bool" where
  "covers_byte l x = (fl_start l \<le> x \<and> x < fl_end l)"

lemma covers_overlap: "covers_byte a x \<Longrightarrow> covers_byte b x \<Longrightarrow> fl_overlaps a b"
  by (auto simp: covers_byte_def fl_overlaps_def)

lemma exclusive_entry_alone:
  assumes "entries_ok es" and "e \<in> set es" and "fe_lock_type e = LOCK_EX"
  shows "es = [e]"
proof -
  have "\<forall>b \<in> set es. fe_pid b = fe_pid e" using assms unfolding entries_ok_def by metis
  with assms(2) have "set (map fe_pid es) = {fe_pid e}" unfolding set_map by blast
  moreover have "distinct (map fe_pid es)" using assms(1) by (simp add: entries_ok_def)
  ultimately have "length es = 1" using distinct_card [of "map fe_pid es"] by simp
  with assms(2) show ?thesis by (auto simp: length_Suc_conv)
qed

text \<open>
  C17. In every table that a sequence of operations reaches, a byte of a file that two processes have
  locked is locked for reading by both, a process has at most one whole-file lock on a file, and an
  exclusive whole-file lock is the only lock of its file.
\<close>

theorem file_locks_exclude:
  assumes "lt_reachable t"
  shows "(\<forall>ls a b x. bt_get (range_locks t) inode = Some ls \<longrightarrow> a \<in> set ls \<longrightarrow> b \<in> set ls \<longrightarrow>
            fl_pid a \<noteq> fl_pid b \<longrightarrow> covers_byte a x \<longrightarrow> covers_byte b x \<longrightarrow>
            fl_lock_type a = F_RDLCK \<and> fl_lock_type b = F_RDLCK) \<and>
         (\<forall>es. bt_get (flock_locks t) inode = Some es \<longrightarrow>
            distinct (map fe_pid es) \<and> (\<forall>e \<in> set es. fe_lock_type e = LOCK_EX \<longrightarrow> es = [e]))"
proof -
  note inv = lt_reachable_inv [OF assms]
  have "fl_lock_type a = F_RDLCK \<and> fl_lock_type b = F_RDLCK"
    if "bt_get (range_locks t) inode = Some ls" "a \<in> set ls" "b \<in> set ls" "fl_pid a \<noteq> fl_pid b"
      "covers_byte a x" "covers_byte b x" for ls a b x
    using lt_inv_get_range [OF inv that(1)] that covers_overlap [OF that(5,6)]
    unfolding ranges_ok_def compatible_def by blast
  moreover have "distinct (map fe_pid es) \<and> (\<forall>e \<in> set es. fe_lock_type e = LOCK_EX \<longrightarrow> es = [e])"
    if "bt_get (flock_locks t) inode = Some es" for es
    using lt_inv_get_flock [OF inv that] exclusive_entry_alone [of es] by (auto simp: entries_ok_def)
  ultimately show ?thesis by blast
qed

definition demo_locks :: lock_table where
  "demo_locks = snd (fcntl_setlk 7 \<lparr>fl_lock_type = F_RDLCK, fl_start = 50, fl_len = 100, fl_pid = 2\<rparr>
     (snd (fcntl_setlk 7 \<lparr>fl_lock_type = F_RDLCK, fl_start = 0, fl_len = 100, fl_pid = 1\<rparr>
       (snd (flock 7 1 LOCK_EX lock_table_new)))))"

lemma demo_locks_reachable: "lt_reachable demo_locks"
  unfolding demo_locks_def by (intro lt_reachable.intros)

lemma demo_locks_eq:
  "demo_locks = \<lparr>flock_locks = [(7, [\<lparr>fe_lock_type = LOCK_EX, fe_pid = 1\<rparr>])],
     range_locks = [(7, [\<lparr>fl_lock_type = F_RDLCK, fl_start = 0, fl_len = 100, fl_pid = 1\<rparr>,
                         \<lparr>fl_lock_type = F_RDLCK, fl_start = 50, fl_len = 100, fl_pid = 2\<rparr>])]\<rparr>"
  by (simp add: demo_locks_def lock_table_new_def flock_def flock_lock_def fcntl_setlk_def Let_def or_default_def
      bt_get_def replace_locks_def fl_overlaps_def fl_end_def lock_constants)

theorem file_locks_exclude_witness:
  "lt_reachable demo_locks \<and>
   (\<exists>ls. bt_get (range_locks demo_locks) 7 = Some ls \<and> fl_pid (ls ! 0) \<noteq> fl_pid (ls ! 1) \<and>
      covers_byte (ls ! 0) 60 \<and> covers_byte (ls ! 1) 60 \<and>
      fl_lock_type (ls ! 0) = F_RDLCK \<and> fl_lock_type (ls ! 1) = F_RDLCK)"
proof -
  let ?ls = "snd (hd (range_locks demo_locks))"
  have g: "bt_get (range_locks demo_locks) 7 = Some ?ls" "?ls ! 0 \<in> set ?ls" "?ls ! 1 \<in> set ?ls"
    "fl_pid (?ls ! 0) \<noteq> fl_pid (?ls ! 1)" "covers_byte (?ls ! 0) 60" "covers_byte (?ls ! 1) 60"
    by (simp_all add: demo_locks_eq bt_get_def covers_byte_def fl_end_def)
  note file_locks_exclude [OF demo_locks_reachable, THEN conjunct1, rule_format, OF g]
  with g demo_locks_reachable show ?thesis by blast
qed

section \<open>The deadlock detector\<close>

lemma dd_seed_avoids: "r \<notin> set fr \<Longrightarrow> r = fl_pid request \<Longrightarrow> r \<notin> set (dd_seed request ls fr)"
  unfolding dd_seed_def by (induction ls arbitrary: fr) auto

lemma dd_seeds_avoid:
  "fl_pid request \<notin> set fr \<Longrightarrow> fl_pid request \<notin> set (fold (dd_seed request) tabs fr)"
  by (induction tabs arbitrary: fr) (auto simp: dd_seed_avoids)

lemma dd_others_idle:
  assumes "ranges_ok ls" and "bl \<in> set ls" and "fl_pid bl = b" and "set ms \<subseteq> set ls"
  shows "dd_others b vs bl ms fr = fr"
  using assms(4)
proof (induction ms arbitrary: fr)
  case (Cons m ms)
  then have "compatible m bl" using assms(1,2) by (simp add: ranges_ok_def)
  with Cons assms(3) show ?case by (auto simp: dd_others_def compatible_def)
qed (simp add: dd_others_def)

lemma dd_expand_idle:
  assumes "\<forall>ls \<in> set tabs. ranges_ok ls"
  shows "dd_expand b vs tabs fr = fr"
  using assms unfolding dd_expand_def
proof (induction tabs arbitrary: fr)
  case (Cons ls tabs)
  have "fold (\<lambda>bl. dd_others b vs bl ls) bls fr = fr" if "set bls \<subseteq> {l \<in> set ls. fl_pid l = b}" for bls
    using that Cons.prems by (induction bls arbitrary: fr) (auto simp: dd_others_idle)
  then have "fold (\<lambda>bl. dd_others b vs bl ls) (filter (\<lambda>l. fl_pid l = b) ls) fr = fr" by simp
  with Cons show ?case by simp
qed simp

lemma dd_search_idle:
  assumes "\<forall>ls \<in> set tabs. ranges_ok ls" and "r \<notin> set fr"
  shows "\<not> dd_search tabs r vs fr"
  using assms
proof (induction tabs r vs fr rule: dd_search.induct)
  case (1 tabs r vs fr)
  show ?case
  proof (cases "fr = []")
    case False
    have nin: "r \<notin> set (butlast fr)" using 1(4) by (auto dest: in_set_butlastD)
    have "last fr \<noteq> r" using False 1(4) by auto
    then show ?thesis using 1 False nin
      by (subst dd_search.simps) (simp add: Let_def dd_expand_idle)
  qed (simp add: dd_search.simps)
qed

text \<open>
  C40. The detector follows locks that conflict with locks a process already holds. Two such locks cannot
  both be in the table, so it never gets past its first round and never reports a deadlock: the
  blocking request always answers as the non-blocking one does.
\<close>

theorem deadlock_never_detected:
  assumes "lt_reachable t"
  shows "\<not> detect_deadlock t request \<and> fcntl_setlkw inode request t = fcntl_setlk inode request t"
proof -
  have none: "\<not> detect_deadlock u request" if "lt_inv u" for u
    unfolding detect_deadlock_def Let_def
    by (rule dd_search_idle) (use that in \<open>auto simp: lt_inv_def dd_seeds_avoid\<close>)
  note inv = lt_reachable_inv [OF assms]
  have "lt_inv (t\<lparr>range_locks := bt_insert inode (or_default (bt_get (range_locks t) inode)) (range_locks t)\<rparr>)"
    by (intro lt_inv_ranges lt_inv_default inv)
  from none [OF this] none [OF inv] show ?thesis
    by (simp add: fcntl_setlkw_def fcntl_setlk_def Let_def)
qed

theorem deadlock_never_detected_witness:
  "fcntl_setlkw 7 \<lparr>fl_lock_type = F_WRLCK, fl_start = 0, fl_len = 10, fl_pid = 2\<rparr> demo_locks =
     (Err KeWouldBlock, demo_locks)"
  using deadlock_never_detected [OF demo_locks_reachable, of "\<lparr>fl_lock_type = F_WRLCK, fl_start = 0, fl_len = 10, fl_pid = 2\<rparr>" 7]
  by (simp add: demo_locks_eq fcntl_setlk_def Let_def or_default_def bt_get_def replace_locks_def fl_overlaps_def
      fl_end_def lock_constants)

section \<open>What the operations do to the locked bytes\<close>

definition locked :: "lock_table \<Rightarrow> u64 \<Rightarrow> u64 \<Rightarrow> u64 \<Rightarrow> bool" where
  "locked t inode pid x = (\<exists>l \<in> set (or_default (bt_get (range_locks t) inode)).
     fl_pid l = pid \<and> covers_byte l x)"

lemma getlk_predicts_setlk:
  assumes "fl_lock_type lock = F_RDLCK \<or> fl_lock_type lock = F_WRLCK"
  shows "fcntl_getlk inode lock t = Ok None \<longleftrightarrow> fst (fcntl_setlk inode lock t) = Ok ()"
proof -
  have "fl_lock_type lock \<noteq> F_UNLCK" using assms by (auto simp: lock_constants)
  with assms show ?thesis
    by (auto simp: fcntl_getlk_def fcntl_setlk_def Let_def or_default_def find_conflicting_lock_None
        split: option.split)
qed

text \<open>
  A successful request drops every lock of the process that overlaps the new one, whole: bytes of
  such a lock outside the new region are no longer locked.
\<close>

lemma setlk_locked:
  assumes "fl_lock_type lock = F_RDLCK \<or> fl_lock_type lock = F_WRLCK"
    and "fst (fcntl_setlk inode lock t) = Ok ()"
  shows "locked (snd (fcntl_setlk inode lock t)) inode (fl_pid lock) x \<longleftrightarrow>
    covers_byte lock x \<or> (\<exists>l \<in> set (or_default (bt_get (range_locks t) inode)).
      fl_pid l = fl_pid lock \<and> \<not> fl_overlaps l lock \<and> covers_byte l x)"
proof -
  have "fl_lock_type lock \<noteq> F_UNLCK" using assms(1) by (auto simp: lock_constants)
  with assms show ?thesis
    by (auto simp: fcntl_setlk_def Let_def locked_def replace_locks_def bt_get_insert or_default_def
        fl_overlaps_def split: if_splits)
qed

lemma locked_other:
  assumes "pid \<noteq> fl_pid lock \<or> inode' \<noteq> inode"
  shows "locked (snd (fcntl_setlk inode lock t)) inode' pid x \<longleftrightarrow> locked t inode' pid x"
  using assms
  by (cases "bt_get (range_locks t) inode")
    (auto simp: fcntl_setlk_def fcntl_unlock_def Let_def locked_def bt_simps or_default_def
       replace_locks_def filter_empty_conv)

text \<open>
  C19. A request for a read or write lock succeeds exactly when the query for a conflicting lock finds
  none. It leaves the locks of other processes and files alone, and once it has succeeded the process
  has locked exactly the requested bytes and those of its earlier locks that do not overlap the
  request: an overlapping earlier lock is given up whole, beyond the requested bytes too.
\<close>

theorem range_lock_request:
  assumes "fl_lock_type lock = F_RDLCK \<or> fl_lock_type lock = F_WRLCK"
  shows "(fst (fcntl_setlk inode lock t) = Ok () \<longleftrightarrow> fcntl_getlk inode lock t = Ok None) \<and>
    (pid \<noteq> fl_pid lock \<or> inode' \<noteq> inode \<longrightarrow>
       locked (snd (fcntl_setlk inode lock t)) inode' pid x = locked t inode' pid x) \<and>
    (fst (fcntl_setlk inode lock t) = Ok () \<longrightarrow>
       locked (snd (fcntl_setlk inode lock t)) inode (fl_pid lock) x =
         (covers_byte lock x \<or> (\<exists>l \<in> set (or_default (bt_get (range_locks t) inode)).
            fl_pid l = fl_pid lock \<and> \<not> fl_overlaps l lock \<and> covers_byte l x)))"
  using getlk_predicts_setlk [OF assms, of inode t] locked_other [of pid lock inode' inode t x]
    setlk_locked [OF assms, of inode t x] by blast

theorem range_lock_request_witness:
  "let lock = \<lparr>fl_lock_type = F_RDLCK, fl_start = 0, fl_len = 10, fl_pid = 1\<rparr> in
     fst (fcntl_setlk 7 lock demo_locks) = Ok () \<and>
     locked demo_locks 7 1 60 \<and> \<not> locked (snd (fcntl_setlk 7 lock demo_locks)) 7 1 60"
proof -
  let ?lock = "\<lparr>fl_lock_type = F_RDLCK, fl_start = 0, fl_len = 10, fl_pid = 1\<rparr> :: file_lock"
  note spec = range_lock_request [of ?lock 7 demo_locks]
  have "fcntl_getlk 7 ?lock demo_locks = Ok None"
    by (simp add: demo_locks_eq fcntl_getlk_def bt_get_def fl_overlaps_def fl_end_def)
  with spec have ok: "fst (fcntl_setlk 7 ?lock demo_locks) = Ok ()" by simp
  moreover have "locked demo_locks 7 1 60"
    by (simp add: demo_locks_eq locked_def bt_get_def or_default_def covers_byte_def fl_end_def)
  moreover have "\<not> locked (snd (fcntl_setlk 7 ?lock demo_locks)) 7 1 60"
    using spec [of 1 7 60] ok
    by (simp add: demo_locks_eq bt_get_def or_default_def covers_byte_def fl_overlaps_def fl_end_def)
  ultimately show ?thesis by (simp add: Let_def)
qed

text \<open>
  Unlocking removes the locks that lie inside the region; a lock that reaches beyond it stays locked
  as a whole, the bytes inside the region included.
\<close>

lemma unlock_locked:
  assumes "fl_lock_type lock = F_UNLCK"
  shows "locked (snd (fcntl_setlk inode lock t)) inode (fl_pid lock) x \<longleftrightarrow>
    (\<exists>l \<in> set (or_default (bt_get (range_locks t) inode)). fl_pid l = fl_pid lock \<and>
      \<not> (fl_start lock \<le> fl_start l \<and> fl_end l \<le> fl_end lock) \<and> covers_byte l x)"
  using assms
  by (cases "bt_get (range_locks t) inode")
    (auto simp: fcntl_setlk_def fcntl_unlock_def Let_def locked_def bt_simps or_default_def filter_empty_conv)

lemma retain_owner_eq:
  assumes "bt_wf m"
  shows "retain_owner owner pid m =
    filter (\<lambda>b. snd b \<noteq> []) (map (\<lambda>(i, vs). (i, filter (\<lambda>v. owner v \<noteq> pid) vs)) m)"
proof -
  define kept where "kept = map (\<lambda>(i, vs). (i, filter (\<lambda>v. owner v \<noteq> pid) vs)) m"
  have "map fst kept = map fst m" by (auto simp: kept_def)
  then have d: "distinct (map fst kept)" using assms by (simp add: bt_wf_def strict_sorted_iff)
  have "b \<in> set kept \<Longrightarrow> fst b \<in> fst ` set (filter (\<lambda>(i, vs). vs = []) kept) \<longleftrightarrow> snd b = []" for b
    using eq_key_imp_eq_value [OF d, of "fst b" "snd b" "[]"] by force
  then have "filter (\<lambda>b. fst b \<notin> fst ` set (filter (\<lambda>(i, vs). vs = []) kept)) kept = filter (\<lambda>b. snd b \<noteq> []) kept"
    by (intro filter_cong) simp_all
  then show ?thesis
    unfolding retain_owner_def Let_def fold_bt_remove kept_def [symmetric] set_map .
qed

lemma bt_get_retain_owner:
  assumes "bt_wf m"
  shows "or_default (bt_get (retain_owner owner pid m) i) =
    filter (\<lambda>v. owner v \<noteq> pid) (or_default (bt_get m i))"
proof -
  have "bt_get (filter (\<lambda>b. snd b \<noteq> []) (map (\<lambda>(i, vs). (i, f vs)) m)) i =
    (case bt_get m i of None \<Rightarrow> None | Some vs \<Rightarrow> if f vs = [] then None else Some (f vs))"
    for f :: "'a list \<Rightarrow> 'a list"
    using assms
  proof (induction m)
    case (Cons b m)
    obtain j vs where b: "b = (j, vs)" by (cases b)
    have "j \<notin> fst ` set m" and wf: "bt_wf m" using Cons.prems b by (auto simp: bt_wf_def)
    then have "bt_get m j = None" by (simp add: bt_get_def map_of_eq_None_iff)
    with Cons.IH [OF wf] show ?case by (auto simp: b bt_get_Cons)
  qed (simp add: bt_get_def)
  then show ?thesis
    by (simp add: retain_owner_eq [OF assms] or_default_def split: option.split)
qed

lemma bt_wf_retain_owner:
  assumes "bt_wf m"
  shows "bt_wf (retain_owner owner pid m)"
  using assms unfolding retain_owner_eq [OF assms] bt_wf_def
  by (induction m) (auto simp: split_beta)

lemma lt_reachable_wf: "lt_reachable t \<Longrightarrow> bt_wf (flock_locks t) \<and> bt_wf (range_locks t)"
proof (induction rule: lt_reachable.induct)
  case (lt_flock t i p operation)
  then show ?case
    by (auto simp: flock_def flock_lock_def flock_unlock_def Let_def bt_wf_insert bt_wf_remove split: option.split)
next
  case (lt_setlk t i lock)
  then show ?case
    by (auto simp: fcntl_setlk_def fcntl_unlock_def Let_def bt_wf_insert bt_wf_remove split: option.split)
next
  case (lt_setlkw t i lock)
  then show ?case unfolding setlkw_setlk
    by (auto simp: fcntl_setlk_def fcntl_unlock_def Let_def bt_wf_insert bt_wf_remove split: option.split)
next
  case (lt_cleanup t pid)
  then show ?case by (simp add: cleanup_process_locks_def bt_wf_retain_owner)
qed (simp add: lock_table_new_def bt_wf_def)

text \<open>After a process has been cleaned up it has no lock left, and the locks of the others are untouched.\<close>

lemma cleanup_releases:
  assumes "lt_reachable t"
  shows "or_default (bt_get (range_locks (cleanup_process_locks pid t)) i) =
      filter (\<lambda>l. fl_pid l \<noteq> pid) (or_default (bt_get (range_locks t) i))"
    and "or_default (bt_get (flock_locks (cleanup_process_locks pid t)) i) =
      filter (\<lambda>e. fe_pid e \<noteq> pid) (or_default (bt_get (flock_locks t) i))"
  using lt_reachable_wf [OF assms] by (simp_all add: cleanup_process_locks_def bt_get_retain_owner)

end
