(* ===== verification/Fs_Pipe.thy ===== *)
theory Fs_Pipe
  imports Kernel_Error
begin

text \<open>
  Kernel pipes (\<open>src/kernel/src/fs/pipe.rs\<close>). The state of a pipe is shared by its two ends behind a
  lock, and every operation takes that lock once per round, so a round is one step: \<open>read\<close> and
  \<open>write_all\<close> repeat a round until it succeeds, and the operations of other threads may come between
  the rounds. The theory shows that a pipe is a byte stream under any sequence of operations, and that
  a transfer from one writer to one reader completes under any fair schedule.
\<close>

section \<open>Data and operations\<close>

definition PIPE_CAPACITY :: usize where "PIPE_CAPACITY = 64 * 1024"

record pipe_inner =
  pipe_buffer :: "u8 list"
  pipe_capacity :: usize
  write_closed :: bool
  read_closed :: bool

definition pipe_inner_new :: "usize \<Rightarrow> pipe_inner" where
  "pipe_inner_new capacity =
     \<lparr>pipe_buffer = [], pipe_capacity = capacity, write_closed = False, read_closed = False\<rparr>"

text \<open>The handles of the two ends are the pipe itself.\<close>

definition create_pipe_with_capacity :: "usize \<Rightarrow> (pipe_inner, kernel_error) result" where
  "create_pipe_with_capacity capacity = Ok (pipe_inner_new capacity)"

definition create_pipe :: "(pipe_inner, kernel_error) result" where
  "create_pipe = create_pipe_with_capacity PIPE_CAPACITY"

text \<open>The loop that moves bytes into the caller's buffer.\<close>

fun pipe_fill :: "nat \<Rightarrow> u8 list \<Rightarrow> u8 list \<Rightarrow> u8 list \<times> u8 list" where
  "pipe_fill (Suc n) (b # buf) queue =
     (let (byte, queue2) = (case queue of [] \<Rightarrow> (0, []) | x # xs \<Rightarrow> (x, xs));
          (buf2, queue3) = pipe_fill n buf queue2
      in (byte # buf2, queue3))"
| "pipe_fill n buf queue = (buf, queue)"

text \<open>
  One round of \<open>PipeReader::read\<close>. \<open>None\<close> means that the reader spins and tries again.
\<close>

definition read_round ::
  "u8 list \<Rightarrow> pipe_inner \<Rightarrow> ((usize, kernel_error) result \<times> u8 list) option \<times> pipe_inner" where
  "read_round buf p =
     (if pipe_buffer p \<noteq> [] then
        let to_read = min (length buf) (length (pipe_buffer p));
            (buf2, queue) = pipe_fill to_read buf (pipe_buffer p)
        in (Some (Ok (of_nat to_read), buf2), p\<lparr>pipe_buffer := queue\<rparr>)
      else if write_closed p then (Some (Ok 0, buf), p)
      else if read_closed p then (Some (Ok 0, buf), p)
      else (None, p))"

definition try_read ::
  "u8 list \<Rightarrow> pipe_inner \<Rightarrow> (usize, kernel_error) result \<times> u8 list \<times> pipe_inner" where
  "try_read buf p =
     (if pipe_buffer p = [] then
        (if write_closed p then (Ok 0, buf, p) else (Err KeWouldBlock, buf, p))
      else
        let to_read = min (length buf) (length (pipe_buffer p));
            (buf2, queue) = pipe_fill to_read buf (pipe_buffer p)
        in (Ok (of_nat to_read), buf2, p\<lparr>pipe_buffer := queue\<rparr>))"

definition reader_close :: "pipe_inner \<Rightarrow> pipe_inner" where
  "reader_close p = p\<lparr>read_closed := True\<rparr>"

definition has_data :: "pipe_inner \<Rightarrow> bool" where
  "has_data p = (pipe_buffer p \<noteq> [])"

definition pipe_write :: "u8 list \<Rightarrow> pipe_inner \<Rightarrow> (usize, kernel_error) result \<times> pipe_inner" where
  "pipe_write data p =
     (if read_closed p then (Err KeBrokenPipe, p)
      else if write_closed p then (Err KeBrokenPipe, p)
      else let available = unat (pipe_capacity p) - length (pipe_buffer p);
               to_write = min (length data) available
           in (Ok (of_nat to_write), p\<lparr>pipe_buffer := pipe_buffer p @ take to_write data\<rparr>))"

definition writer_close :: "pipe_inner \<Rightarrow> pipe_inner" where
  "writer_close p = p\<lparr>write_closed := True\<rparr>"

text \<open>
  One round of \<open>write_all\<close> at \<open>offset\<close>: the new offset, or the result with which the call returns.
\<close>

definition write_all_round ::
  "u8 list \<Rightarrow> nat \<Rightarrow> pipe_inner \<Rightarrow> (nat, (unit, kernel_error) result) result \<times> pipe_inner" where
  "write_all_round data offset p =
     (if offset < length data then
        (case pipe_write (drop offset data) p of
           (Ok written, p2) \<Rightarrow> (Ok (offset + unat written), p2)
         | (Err e, p2) \<Rightarrow> (Err (Err e), p2))
      else (Err (Ok ()), p))"

text \<open>
  The loops themselves: \<open>env n\<close> is what the other threads do to the pipe between round \<open>n\<close> and the next.
  A call that spins for ever has the value \<open>None\<close>.
\<close>

partial_function (option) pipe_read ::
  "(nat \<Rightarrow> pipe_inner \<Rightarrow> pipe_inner) \<Rightarrow> nat \<Rightarrow> u8 list \<Rightarrow> pipe_inner \<Rightarrow>
     ((usize, kernel_error) result \<times> u8 list \<times> pipe_inner) option" where
  "pipe_read env n buf p =
     (case read_round buf p of
        (Some (r, buf2), p2) \<Rightarrow> Some (r, buf2, p2)
      | (None, p2) \<Rightarrow> pipe_read env (Suc n) buf (env n p2))"

partial_function (option) write_all ::
  "(nat \<Rightarrow> pipe_inner \<Rightarrow> pipe_inner) \<Rightarrow> nat \<Rightarrow> u8 list \<Rightarrow> nat \<Rightarrow> pipe_inner \<Rightarrow>
     ((unit, kernel_error) result \<times> pipe_inner) option" where
  "write_all env n data offset p =
     (case write_all_round data offset p of
        (Ok offset2, p2) \<Rightarrow> write_all env (Suc n) data offset2 (env n p2)
      | (Err r, p2) \<Rightarrow> Some (r, p2))"

lemma pipe_fill_eq:
  "n \<le> length buf \<Longrightarrow> n \<le> length queue \<Longrightarrow>
     pipe_fill n buf queue = (take n queue @ drop n buf, drop n queue)"
  by (induction n buf queue rule: pipe_fill.induct) (auto split: list.split)

lemma read_round_data:
  assumes "pipe_buffer p \<noteq> []"
  shows "read_round buf p =
    (let n = min (length buf) (length (pipe_buffer p))
     in (Some (Ok (of_nat n), take n (pipe_buffer p) @ drop n buf), p\<lparr>pipe_buffer := drop n (pipe_buffer p)\<rparr>))"
  using assms by (simp add: read_round_def pipe_fill_eq Let_def)

lemma try_read_data:
  assumes "pipe_buffer p \<noteq> []"
  shows "try_read buf p =
    (let n = min (length buf) (length (pipe_buffer p))
     in (Ok (of_nat n), take n (pipe_buffer p) @ drop n buf, p\<lparr>pipe_buffer := drop n (pipe_buffer p)\<rparr>))"
  using assms by (simp add: try_read_def pipe_fill_eq Let_def)

lemma of_nat_nonzero: "(of_nat n :: u64) \<noteq> 0 \<Longrightarrow> 0 < n"
  by (cases n) simp_all

text \<open>\<open>drain_pipe\<close> reads through a buffer of 4096 bytes until the pipe is empty.\<close>

function drain_pipe_loop :: "u8 list \<Rightarrow> u8 list \<Rightarrow> pipe_inner \<Rightarrow> u8 list \<times> pipe_inner" where
  "drain_pipe_loop buf acc p =
     (case try_read buf p of
        (Ok n, buf2, p2) \<Rightarrow>
          if n = 0 then (acc, p2) else drain_pipe_loop buf2 (acc @ take (unat n) buf2) p2
      | (Err e, buf2, p2) \<Rightarrow> (acc, p2))"
  by pat_completeness auto
termination
proof (relation "measure (\<lambda>(buf, acc, p). length (pipe_buffer p))", goal_cases)
  case (2 buf acc p)
  then show ?case
    by (cases "pipe_buffer p = []")
      (auto simp: try_read_data Let_def dest!: of_nat_nonzero, auto simp: try_read_def split: if_splits)
qed simp

declare drain_pipe_loop.simps [simp del]

definition drain_pipe :: "pipe_inner \<Rightarrow> u8 list \<times> pipe_inner" where
  "drain_pipe p = drain_pipe_loop (replicate 4096 0) [] p"

section \<open>The ends as file system nodes\<close>

definition read_node_read ::
  "usize \<Rightarrow> u8 list \<Rightarrow> pipe_inner \<Rightarrow> (usize, kernel_error) result \<times> u8 list \<times> pipe_inner" where
  "read_node_read offset buf p = try_read buf p"

definition read_node_write :: "usize \<Rightarrow> u8 list \<Rightarrow> pipe_inner \<Rightarrow> (usize, kernel_error) result \<times> pipe_inner" where
  "read_node_write offset data p = (Err (KePermissionDenied ''write to pipe read end''), p)"

definition POLLIN :: u16 where "POLLIN = 0x0001"
definition POLLOUT :: u16 where "POLLOUT = 0x0004"
definition POLLERR :: u16 where "POLLERR = 0x0008"
definition POLLHUP :: u16 where "POLLHUP = 0x0010"

definition read_node_poll :: "pipe_inner \<Rightarrow> u16" where
  "read_node_poll p =
     (let e1 = (if pipe_buffer p \<noteq> [] then 0 OR POLLIN else 0);
          e2 = (if write_closed p then
                  let e = e1 OR POLLHUP in if pipe_buffer p = [] then e OR POLLIN else e
                else e1)
      in e2)"

definition write_node_read ::
  "usize \<Rightarrow> u8 list \<Rightarrow> pipe_inner \<Rightarrow> (usize, kernel_error) result \<times> u8 list \<times> pipe_inner" where
  "write_node_read offset buf p = (Err (KePermissionDenied ''read from pipe write end''), buf, p)"

definition write_node_write :: "usize \<Rightarrow> u8 list \<Rightarrow> pipe_inner \<Rightarrow> (usize, kernel_error) result \<times> pipe_inner" where
  "write_node_write offset data p = pipe_write data p"

definition write_node_poll :: "pipe_inner \<Rightarrow> u16" where
  "write_node_poll p =
     (if read_closed p then 0 OR POLLERR
      else if length (pipe_buffer p) < unat (pipe_capacity p) then 0 OR POLLOUT else 0)"

section \<open>A pipe is a byte stream\<close>

definition pipe_inv :: "pipe_inner \<Rightarrow> bool" where
  "pipe_inv p = (length (pipe_buffer p) \<le> unat (pipe_capacity p))"

lemma pipe_inv_small: "pipe_inv p \<Longrightarrow> length (pipe_buffer p) < 2 ^ 64"
  using unsigned_less [of "pipe_capacity p", where 'a = nat] unfolding pipe_inv_def by simp

lemma unat_of_nat_small: "n < 2 ^ 64 \<Longrightarrow> unat (of_nat n :: u64) = n"
  by (simp add: unat_of_nat)

datatype pipe_call = Call_write "u8 list" | Call_read nat | Call_try_read nat | Call_drain
  | Close_reader | Close_writer

text \<open>
  One call, or one round of a blocking read with a buffer of the given size; the result is the bytes
  that went into the pipe and the bytes that the caller found at the start of its buffer, as many as
  the returned count says.
\<close>

fun pipe_step :: "pipe_call \<Rightarrow> pipe_inner \<Rightarrow> u8 list \<times> u8 list \<times> pipe_inner" where
  "pipe_step (Call_write data) p =
     (case pipe_write data p of (Ok n, p2) \<Rightarrow> (take (unat n) data, [], p2) | (Err e, p2) \<Rightarrow> ([], [], p2))"
| "pipe_step (Call_read k) p =
     (case read_round (replicate k 0) p of
        (Some (Ok n, buf), p2) \<Rightarrow> ([], take (unat n) buf, p2)
      | (_, p2) \<Rightarrow> ([], [], p2))"
| "pipe_step (Call_try_read k) p =
     (case try_read (replicate k 0) p of
        (Ok n, buf, p2) \<Rightarrow> ([], take (unat n) buf, p2) | (Err e, buf, p2) \<Rightarrow> ([], [], p2))"
| "pipe_step Call_drain p = (let (bytes, p2) = drain_pipe p in ([], bytes, p2))"
| "pipe_step Close_reader p = ([], [], reader_close p)"
| "pipe_step Close_writer p = ([], [], writer_close p)"

fun pipe_run :: "pipe_call list \<Rightarrow> pipe_inner \<Rightarrow> u8 list \<times> u8 list \<times> pipe_inner" where
  "pipe_run [] p = ([], [], p)"
| "pipe_run (c # cs) p =
     (let (w, r, p2) = pipe_step c p; (ws, rs, p3) = pipe_run cs p2 in (w @ ws, r @ rs, p3))"

lemma drain_pipe_loop_eq:
  assumes "pipe_inv p" and "buf \<noteq> []"
  shows "drain_pipe_loop buf acc p = (acc @ pipe_buffer p, p\<lparr>pipe_buffer := []\<rparr>)"
  using assms
proof (induction buf acc p rule: drain_pipe_loop.induct)
  case (1 buf acc p)
  show ?case
  proof (cases "pipe_buffer p = []")
    case True
    then show ?thesis by (subst drain_pipe_loop.simps) (auto simp: try_read_def)
  next
    case False
    let ?n = "min (length buf) (length (pipe_buffer p))"
    have n: "unat (of_nat ?n :: u64) = ?n" using pipe_inv_small [OF 1(2)] by (intro unat_of_nat_small) simp
    have pos: "?n \<noteq> 0" using False 1(3) by simp
    then have n0: "(of_nat ?n :: u64) \<noteq> 0" using n by (metis unat_0)
    let ?p = "p\<lparr>pipe_buffer := drop ?n (pipe_buffer p)\<rparr>"
    let ?b = "take ?n (pipe_buffer p) @ drop ?n buf"
    have r: "try_read buf p = (Ok (of_nat ?n), ?b, ?p)"
      using try_read_data [OF False, of buf] by (simp add: Let_def)
    have "drain_pipe_loop ?b (acc @ take ?n ?b) ?p = (acc @ take ?n ?b @ pipe_buffer ?p, ?p\<lparr>pipe_buffer := []\<rparr>)"
      using 1(1) [OF r [symmetric] refl refl n0] 1(2,3) n pos by (auto simp: pipe_inv_def)
    moreover have "drain_pipe_loop buf acc p = drain_pipe_loop ?b (acc @ take ?n ?b) ?p"
      using n0 n by (subst drain_pipe_loop.simps) (simp add: r)
    ultimately show ?thesis by (simp add: min_def)
  qed
qed

lemma drain_pipe_eq: "pipe_inv p \<Longrightarrow> drain_pipe p = (pipe_buffer p, p\<lparr>pipe_buffer := []\<rparr>)"
  unfolding drain_pipe_def by (subst drain_pipe_loop_eq) simp_all

lemma pipe_write_eq:
  assumes "\<not> read_closed p" and "\<not> write_closed p"
  shows "pipe_write data p =
    (let n = min (length data) (unat (pipe_capacity p) - length (pipe_buffer p))
     in (Ok (of_nat n), p\<lparr>pipe_buffer := pipe_buffer p @ take n data\<rparr>))"
  using assms by (simp add: pipe_write_def)

lemma pipe_write_closed: "read_closed p \<or> write_closed p \<Longrightarrow> pipe_write data p = (Err KeBrokenPipe, p)"
  by (auto simp: pipe_write_def)

lemma unat_written: "unat (of_nat (min n (unat (c :: u64) - m)) :: u64) = min n (unat c - m)"
proof (rule unat_of_nat_small)
  have "unat c < 2 ^ 64" using unsigned_less [of c, where 'a = nat] by simp
  then show "min n (unat c - m) < 2 ^ 64" by simp
qed

lemma unat_read: "pipe_inv p \<Longrightarrow> unat (of_nat (min n (length (pipe_buffer p))) :: u64) = min n (length (pipe_buffer p))"
  using pipe_inv_small [of p] by (intro unat_of_nat_small) simp

lemma pipe_step_stream:
  assumes "pipe_inv p" and "pipe_step c p = (w, r, q)"
  shows "pipe_buffer p @ w = r @ pipe_buffer q \<and> pipe_inv q \<and> pipe_capacity q = pipe_capacity p"
proof (cases c)
  case (Call_write data)
  show ?thesis
  proof (cases "read_closed p \<or> write_closed p")
    case True
    with Call_write assms show ?thesis by (simp add: pipe_write_closed)
  next
    case False
    with Call_write assms show ?thesis
      by (auto simp: pipe_write_eq Let_def unat_written pipe_inv_def)
  qed
next
  case (Call_read k)
  with assms unat_read [OF assms(1), of k] show ?thesis
    by (cases "pipe_buffer p = []")
      (auto simp: read_round_data Let_def, auto simp: read_round_def pipe_inv_def split: if_splits)
next
  case (Call_try_read k)
  with assms unat_read [OF assms(1), of k] show ?thesis
    by (cases "pipe_buffer p = []")
      (auto simp: try_read_data Let_def, auto simp: try_read_def pipe_inv_def split: if_splits)
next
  case Call_drain
  with assms show ?thesis by (auto simp: drain_pipe_eq pipe_inv_def)
next
  case Close_reader
  with assms show ?thesis by (auto simp: reader_close_def pipe_inv_def)
next
  case Close_writer
  with assms show ?thesis by (auto simp: writer_close_def pipe_inv_def)
qed

text \<open>
  C16. Whatever sequence of writes, reads, drains and closings a pipe sees, the bytes that its readers
  have received followed by the bytes in its buffer are the bytes that its writers have written: none
  is lost, doubled or moved. The buffer never exceeds the capacity.
\<close>

theorem pipe_is_stream:
  assumes "pipe_inv p" and "pipe_run cs p = (ws, rs, q)"
  shows "pipe_buffer p @ ws = rs @ pipe_buffer q \<and> length (pipe_buffer q) \<le> unat (pipe_capacity p)"
proof -
  have "pipe_buffer p @ ws = rs @ pipe_buffer q \<and> pipe_inv q \<and> pipe_capacity q = pipe_capacity p"
    using assms
  proof (induction cs arbitrary: p ws rs)
    case (Cons c cs)
    obtain w r p2 where st: "pipe_step c p = (w, r, p2)" by (metis prod_cases3)
    obtain ws' rs' where run: "pipe_run cs p2 = (ws', rs', q)" and e: "ws = w @ ws'" "rs = r @ rs'"
      using Cons.prems(2) st by (auto split: prod.splits)
    note step = pipe_step_stream [OF Cons.prems(1) st]
    then have "pipe_buffer p2 @ ws' = rs' @ pipe_buffer q \<and> pipe_inv q \<and> pipe_capacity q = pipe_capacity p2"
      using Cons.IH run by blast
    with step show ?case by (simp add: e) (metis append.assoc)
  qed simp
  then show ?thesis by (auto simp: pipe_inv_def)
qed

theorem pipe_is_stream_witness:
  "pipe_inv (pipe_inner_new 4) \<and>
   pipe_run [Call_write [1, 2, 3, 4, 5, 6], Call_read 3, Call_write [7], Call_drain] (pipe_inner_new 4) =
     ([1, 2, 3, 4, 7], [1, 2, 3, 4, 7], pipe_inner_new 4)"
proof -
  let ?p = "pipe_inner_new 4"
  let ?cs = "[Call_write [1, 2, 3, 4, 5, 6], Call_read 3, Call_write [7], Call_drain]"
  have inv: "pipe_inv ?p" by (simp add: pipe_inv_def pipe_inner_new_def)
  obtain ws rs q where run: "pipe_run ?cs ?p = (ws, rs, q)" by (metis prod_cases3)
  have w: "ws = [1, 2, 3, 4, 7]" and q: "q = ?p"
    using run by (auto simp: pipe_inner_new_def pipe_write_def read_round_data Let_def drain_pipe_eq pipe_inv_def)
  from pipe_is_stream [OF inv run] have "rs = [1, 2, 3, 4, 7]"
    by (simp add: w q pipe_inner_new_def)
  with inv run w q show ?thesis by simp
qed

section \<open>One writer and one reader\<close>

text \<open>
  A writer that sends \<open>data\<close> with \<open>write_all\<close> and then closes its end, and a reader that reads into a
  buffer of \<open>k\<close> bytes until a read returns 0. The schedule says which of them makes the next round.
\<close>

datatype pipe_thread = Writer | Reader

record transfer =
  tr_pipe :: pipe_inner
  tr_offset :: nat
  tr_received :: "u8 list"
  tr_done :: bool

fun transfer_step :: "u8 list \<Rightarrow> nat \<Rightarrow> pipe_thread \<Rightarrow> transfer \<Rightarrow> transfer" where
  "transfer_step data k Writer s =
     (if write_closed (tr_pipe s) then s
      else case write_all_round data (tr_offset s) (tr_pipe s) of
             (Ok off, p) \<Rightarrow> s\<lparr>tr_pipe := p, tr_offset := off\<rparr>
           | (Err r, p) \<Rightarrow> s\<lparr>tr_pipe := writer_close p\<rparr>)"
| "transfer_step data k Reader s =
     (if tr_done s then s
      else case read_round (replicate k 0) (tr_pipe s) of
             (Some (Ok n, buf), p) \<Rightarrow>
               if n = 0 then s\<lparr>tr_pipe := p, tr_done := True\<rparr>
               else s\<lparr>tr_pipe := p, tr_received := tr_received s @ take (unat n) buf\<rparr>
           | (Some (Err e, buf), p) \<Rightarrow> s\<lparr>tr_pipe := p, tr_done := True\<rparr>
           | (None, p) \<Rightarrow> s\<lparr>tr_pipe := p\<rparr>)"

definition transfer_new :: "usize \<Rightarrow> transfer" where
  "transfer_new capacity =
     \<lparr>tr_pipe = pipe_inner_new capacity, tr_offset = 0, tr_received = [], tr_done = False\<rparr>"

definition transfer_run :: "u8 list \<Rightarrow> nat \<Rightarrow> pipe_thread list \<Rightarrow> transfer \<Rightarrow> transfer" where
  "transfer_run data k ths s = fold (transfer_step data k) ths s"

definition transfer_inv :: "u8 list \<Rightarrow> transfer \<Rightarrow> bool" where
  "transfer_inv data s =
     (pipe_inv (tr_pipe s) \<and> pipe_capacity (tr_pipe s) \<noteq> 0 \<and> \<not> read_closed (tr_pipe s) \<and>
      tr_offset s \<le> length data \<and>
      tr_received s @ pipe_buffer (tr_pipe s) = take (tr_offset s) data \<and>
      (write_closed (tr_pipe s) \<longrightarrow> tr_offset s = length data) \<and>
      (tr_done s \<longrightarrow> write_closed (tr_pipe s) \<and> pipe_buffer (tr_pipe s) = []))"

definition transfer_left :: "u8 list \<Rightarrow> transfer \<Rightarrow> nat" where
  "transfer_left data s =
     2 * (length data - tr_offset s) + length (pipe_buffer (tr_pipe s)) +
     (if write_closed (tr_pipe s) then 0 else 1) + (if tr_done s then 0 else 1)"

text \<open>A round of the writer either moves bytes, closes the pipe or finds the pipe full or closed.\<close>

lemma writer_round:
  assumes "transfer_inv data s"
  shows "transfer_inv data (transfer_step data k Writer s) \<and>
    (transfer_left data (transfer_step data k Writer s) < transfer_left data s \<or>
     transfer_step data k Writer s = s \<and>
       (write_closed (tr_pipe s) \<or> pipe_buffer (tr_pipe s) \<noteq> []))"
proof (cases "write_closed (tr_pipe s)")
  case False
  define p where "p = tr_pipe s"
  have c: "unat (pipe_capacity p) \<noteq> 0" using assms by (simp add: transfer_inv_def p_def unat_eq_zero)
  define n where "n = min (length data - tr_offset s) (unat (pipe_capacity p) - length (pipe_buffer p))"
  have w: "pipe_write (drop (tr_offset s) data) p =
      (Ok (of_nat n), p\<lparr>pipe_buffer := pipe_buffer p @ take n (drop (tr_offset s) data)\<rparr>)"
    using assms False by (simp add: pipe_write_eq transfer_inv_def Let_def n_def p_def)
  have un: "unat (of_nat n :: u64) = n" unfolding n_def by (rule unat_written)
  show ?thesis
  proof (cases "tr_offset s < length data")
    case True
    then have step: "transfer_step data k Writer s = s\<lparr>tr_pipe := p\<lparr>pipe_buffer := pipe_buffer p @ take n (drop (tr_offset s) data)\<rparr>,
        tr_offset := tr_offset s + n\<rparr>"
      using False by (simp add: write_all_round_def w un flip: p_def)
    have tk: "tr_received s @ pipe_buffer p @ take n (drop (tr_offset s) data) = take (tr_offset s + n) data"
      using assms by (simp add: transfer_inv_def take_add p_def flip: append_assoc)
    have nb: "n \<le> length data - tr_offset s" "n \<le> unat (pipe_capacity p) - length (pipe_buffer p)"
      by (simp_all add: n_def)
    have inv: "transfer_inv data (transfer_step data k Writer s)"
      using assms False True nb unfolding step transfer_inv_def
      by (auto simp: pipe_inv_def tk simp flip: p_def)
    show ?thesis
    proof (cases "n = 0")
      case n0: True
      then have "pipe_buffer p \<noteq> []" using c True by (auto simp: n_def)
      moreover have "transfer_step data k Writer s = s" unfolding step by (simp add: n0 p_def)
      ultimately show ?thesis using inv by (simp add: p_def)
    next
      case n1: False
      then have "transfer_left data (transfer_step data k Writer s) < transfer_left data s"
        unfolding step transfer_left_def using True nb by (simp add: p_def)
      with inv show ?thesis by simp
    qed
  next
    case past: False
    then have "transfer_step data k Writer s = s\<lparr>tr_pipe := writer_close p\<rparr>"
      using False by (simp add: write_all_round_def p_def)
    then show ?thesis using assms False past
      by (auto simp: transfer_inv_def transfer_left_def writer_close_def pipe_inv_def p_def)
  qed
qed (use assms in simp)

lemma reader_round:
  assumes "transfer_inv data s" and "0 < k"
  shows "transfer_inv data (transfer_step data k Reader s) \<and>
    (transfer_left data (transfer_step data k Reader s) < transfer_left data s \<or>
     transfer_step data k Reader s = s \<and>
       (tr_done s \<or> \<not> write_closed (tr_pipe s) \<and> pipe_buffer (tr_pipe s) = []))"
proof (cases "tr_done s")
  case False
  define p where "p = tr_pipe s"
  have inv: "pipe_inv p" and rc: "\<not> read_closed p" using assms by (auto simp: transfer_inv_def p_def)
  show ?thesis
  proof (cases "pipe_buffer p = []")
    case True
    show ?thesis
    proof (cases "write_closed p")
      case wc: True
      then have "transfer_step data k Reader s = s\<lparr>tr_pipe := p, tr_done := True\<rparr>"
        using False True by (simp add: read_round_def p_def)
      then show ?thesis using assms False True wc by (auto simp: transfer_inv_def transfer_left_def p_def)
    next
      case wo: False
      then have "transfer_step data k Reader s = s"
        using False True rc by (simp add: read_round_def p_def)
      then show ?thesis using assms True wo by (auto simp: p_def)
    qed
  next
    case data: False
    define n where "n = min k (length (pipe_buffer p))"
    have un: "unat (of_nat n :: u64) = n" unfolding n_def by (rule unat_read [OF inv])
    have n: "0 < n" "n \<le> length (pipe_buffer p)" using data assms(2) by (auto simp: n_def)
    then have n0: "(of_nat n :: u64) \<noteq> 0" using un by (metis unat_0 less_irrefl)
    have step: "transfer_step data k Reader s =
        s\<lparr>tr_pipe := p\<lparr>pipe_buffer := drop n (pipe_buffer p)\<rparr>, tr_received := tr_received s @ take n (pipe_buffer p)\<rparr>"
      using False data n0 n(2) un by (simp add: read_round_data Let_def flip: p_def n_def)
    show ?thesis using assms(1) False n data unfolding step
      by (auto simp: transfer_inv_def transfer_left_def pipe_inv_def simp flip: p_def)
  qed
qed (use assms in simp)

lemma transfer_round:
  assumes "transfer_inv data s" and "0 < k"
  shows "transfer_inv data (transfer_step data k th s) \<and>
    (transfer_left data (transfer_step data k th s) < transfer_left data s \<or> transfer_step data k th s = s)"
  using writer_round [OF assms(1)] reader_round [OF assms] by (cases th) blast+

lemma transfer_run_Cons: "transfer_run data k (th # ths) s = transfer_run data k ths (transfer_step data k th s)"
  by (simp add: transfer_run_def)

lemma transfer_run_monotone:
  assumes "transfer_inv data s" and "0 < k"
  shows "transfer_inv data (transfer_run data k ths s) \<and>
    transfer_left data (transfer_run data k ths s) \<le> transfer_left data s"
  using assms(1)
proof (induction ths arbitrary: s)
  case (Cons th ths)
  show ?case using transfer_round [OF Cons.prems assms(2), of th]
      Cons.IH [of "transfer_step data k th s"] unfolding transfer_run_Cons by fastforce
qed (simp add: transfer_run_def)

text \<open>A stretch of the schedule in which both threads run makes progress or finds the reader done.\<close>

lemma transfer_progress:
  assumes "transfer_inv data s" and "0 < k" and "\<not> tr_done s"
    and "Writer \<in> set ths" and "Reader \<in> set ths"
  shows "transfer_left data (transfer_run data k ths s) < transfer_left data s"
proof (rule ccontr)
  assume no: "\<not> ?thesis"
  have idle: "transfer_step data k th s = s" if "th \<in> set ths" for th
  proof -
    from that obtain xs ys where ths: "ths = xs @ th # ys" and nin: "th \<notin> set xs"
      by (meson split_list_first)
    have stay: "transfer_run data k zs s = s" if "transfer_run data k ths s = transfer_run data k vs (transfer_run data k zs s)" for zs vs
      using that
    proof (induction zs arbitrary: vs rule: rev_induct)
      case (snoc z zs)
      have e: "transfer_run data k (zs @ [z]) s = transfer_step data k z (transfer_run data k zs s)" for s
        by (simp add: transfer_run_def)
      from snoc have zs: "transfer_run data k zs s = s"
        using snoc.IH [of "z # vs"] by (simp add: e transfer_run_Cons)
      have "transfer_left data (transfer_run data k ths s) \<le> transfer_left data (transfer_step data k z s)"
        using snoc.prems transfer_run_monotone transfer_round assms(1,2) by (simp add: e zs)
      with no transfer_round [OF assms(1,2), of z] show ?case by (auto simp: e zs)
    qed (simp add: transfer_run_def)
    have "transfer_run data k xs s = s" by (rule stay [where vs = "th # ys"]) (simp add: ths transfer_run_def)
    moreover have "transfer_run data k (xs @ [th]) s = s"
      by (rule stay [where vs = ys]) (simp add: ths transfer_run_def)
    ultimately show ?thesis by (simp add: transfer_run_def)
  qed
  have "write_closed (tr_pipe s) \<or> pipe_buffer (tr_pipe s) \<noteq> []"
    using writer_round [OF assms(1), of k] idle [OF assms(4)] by auto
  moreover have "\<not> write_closed (tr_pipe s) \<and> pipe_buffer (tr_pipe s) = []"
    using reader_round [OF assms(1,2)] idle [OF assms(5)] assms(3) by auto
  ultimately show False by blast
qed

lemma transfer_done_stays:
  assumes "transfer_inv data s" and "tr_done s"
  shows "transfer_run data k ths s = s"
proof (induction ths)
  case (Cons th ths)
  have "transfer_step data k th s = s"
    using assms by (cases th) (auto simp: transfer_inv_def)
  with Cons show ?case by (simp add: transfer_run_Cons)
qed (simp add: transfer_run_def)

lemma transfer_rounds:
  assumes "transfer_inv data s" and "0 < k" and "transfer_left data s \<le> length rounds"
    and "\<forall>ths \<in> set rounds. Writer \<in> set ths \<and> Reader \<in> set ths"
  shows "tr_done (transfer_run data k (concat rounds) s)"
  using assms(1,3,4)
proof (induction rounds arbitrary: s)
  case Nil
  then show ?case by (simp add: transfer_left_def transfer_run_def split: if_splits)
next
  case (Cons ths rounds)
  show ?case
  proof (cases "tr_done s")
    case True
    with Cons.prems(1) show ?thesis by (simp add: transfer_done_stays)
  next
    case False
    let ?s = "transfer_run data k ths s"
    have "transfer_left data ?s < transfer_left data s"
      by (rule transfer_progress [OF Cons.prems(1) assms(2) False]) (use Cons.prems in auto)
    then have "tr_done (transfer_run data k (concat rounds) ?s)"
      using Cons.prems transfer_run_monotone [OF Cons.prems(1) assms(2)] by (intro Cons.IH) auto
    then show ?thesis by (simp add: transfer_run_def)
  qed
qed

lemma transfer_new_inv: "capacity \<noteq> 0 \<Longrightarrow> transfer_inv data (transfer_new capacity)"
  by (simp add: transfer_inv_def transfer_new_def pipe_inner_new_def pipe_inv_def)

text \<open>
  C18. A writer sends \<open>data\<close> with \<open>write_all\<close> through a pipe of any non-zero capacity and closes it, and a
  reader reads until it is told the end of the data. Under every schedule in which each of them runs
  at least \<open>2 * length data + 2\<close> times, in alternating stretches, the reader finishes; at every moment
  it has received a prefix of the data, and when it has finished it has received all of it.
\<close>

theorem pipe_transfer_completes:
  assumes "capacity \<noteq> 0" and "0 < k"
  shows "(\<exists>n. tr_received (transfer_run data k ths (transfer_new capacity)) = take n data) \<and>
    (tr_done (transfer_run data k ths (transfer_new capacity)) \<longrightarrow>
       tr_received (transfer_run data k ths (transfer_new capacity)) = data) \<and>
    (ths = concat rounds \<longrightarrow> 2 * length data + 2 \<le> length rounds \<longrightarrow>
       (\<forall>r \<in> set rounds. Writer \<in> set r \<and> Reader \<in> set r) \<longrightarrow>
       tr_done (transfer_run data k ths (transfer_new capacity)))"
proof -
  let ?s = "transfer_run data k ths (transfer_new capacity)"
  note new = transfer_new_inv [OF assms(1), of data]
  have inv: "transfer_inv data ?s" using transfer_run_monotone [OF new assms(2)] by blast
  then have "tr_received ?s @ pipe_buffer (tr_pipe ?s) = take (tr_offset ?s) data" by (simp add: transfer_inv_def)
  then have "tr_received ?s = take (length (tr_received ?s)) (take (tr_offset ?s) data)"
    by (metis append_eq_conv_conj)
  then have "\<exists>n. tr_received ?s = take n data" by (metis take_take)
  moreover have "tr_done ?s \<longrightarrow> tr_received ?s = data" using inv by (auto simp: transfer_inv_def)
  moreover have "tr_done ?s" if "ths = concat rounds" "2 * length data + 2 \<le> length rounds"
    "\<forall>r \<in> set rounds. Writer \<in> set r \<and> Reader \<in> set r"
    using transfer_rounds [OF new assms(2), of rounds] that
    by (simp add: transfer_left_def transfer_new_def pipe_inner_new_def)
  ultimately show ?thesis by blast
qed

theorem pipe_transfer_completes_witness:
  "tr_received (transfer_run [1, 2, 3] 2 (concat (replicate 8 [Reader, Writer])) (transfer_new 1)) = [1, 2, 3]"
proof -
  have "tr_done (transfer_run [1, 2, 3] 2 (concat (replicate 8 [Reader, Writer])) (transfer_new 1))"
    by (rule pipe_transfer_completes [THEN conjunct2, THEN conjunct2, rule_format, OF _ _ refl])
      (auto split: if_splits)
  then show ?thesis
    by (rule pipe_transfer_completes [THEN conjunct2, THEN conjunct1, rule_format, rotated 2]) simp_all
qed

section \<open>Blocking calls without another thread\<close>

text \<open>A reader of an empty open pipe spins for ever when no other thread touches the pipe.\<close>

lemma read_round_None: "read_round buf p = (None, p2) \<Longrightarrow> p2 = p"
  by (auto simp: read_round_def Let_def split: if_splits prod.splits)

lemma pipe_read_alone:
  assumes "pipe_read env n buf p = Some r"
  shows "env = (\<lambda>n p. p) \<longrightarrow> fst (read_round buf p) \<noteq> None"
proof (rule pipe_read.raw_induct [where P = "\<lambda>env n buf p r. env = (\<lambda>n p. p) \<longrightarrow> fst (read_round buf p) \<noteq> None",
      OF _ assms], goal_cases)
  case (1 rec env n buf p r)
  show ?case
  proof (cases "read_round buf p")
    case (Pair res p2)
    show ?thesis
    proof (cases res)
      case None
      with Pair have "p2 = p" by (simp add: read_round_None)
      with 1(2) Pair None have "rec env (Suc n) buf (env n p) = Some r" by simp
      from 1(1) [OF this] show ?thesis by auto
    qed (simp add: Pair)
  qed
qed

lemma pipe_read_spins:
  assumes "pipe_buffer p = []" and "\<not> write_closed p" and "\<not> read_closed p"
  shows "pipe_read (\<lambda>n p. p) n buf p = None"
  using pipe_read_alone [of "\<lambda>n p. p" n buf p] assms
  by (cases "pipe_read (\<lambda>n p. p) n buf p") (auto simp: read_round_def)

text \<open>
  A writer alone with the pipe returns when its data fits, and spins for ever when it does not.
\<close>

definition pipe_room :: "pipe_inner \<Rightarrow> nat" where
  "pipe_room p = unat (pipe_capacity p) - length (pipe_buffer p)"

lemma write_all_round_open:
  assumes "\<not> read_closed p" and "\<not> write_closed p" and "off < length data"
  shows "write_all_round data off p =
    (let n = min (length data - off) (pipe_room p)
     in (Ok (off + n), p\<lparr>pipe_buffer := pipe_buffer p @ take n (drop off data)\<rparr>))"
  using assms by (simp add: write_all_round_def pipe_write_eq Let_def unat_written pipe_room_def)

lemma write_all_fits:
  assumes "\<not> read_closed p" and "\<not> write_closed p" and "length data \<le> pipe_room p"
  shows "write_all (\<lambda>n p. p) n data 0 p = Some (Ok (), p\<lparr>pipe_buffer := pipe_buffer p @ data\<rparr>)"
proof (cases "data = []")
  case True
  then show ?thesis by (subst write_all.simps) (simp add: write_all_round_def)
next
  case False
  then have "write_all (\<lambda>n p. p) n data 0 p =
      write_all (\<lambda>n p. p) (Suc n) data (length data) (p\<lparr>pipe_buffer := pipe_buffer p @ data\<rparr>)"
    using assms by (subst write_all.simps) (simp add: write_all_round_open Let_def min_absorb1)
  then show ?thesis by (simp add: write_all.simps [of _ "Suc n"] write_all_round_def)
qed

lemma write_all_blocked:
  assumes "write_all env n data off p = Some r"
  shows "\<not> (env = (\<lambda>n p. p) \<and> \<not> read_closed p \<and> \<not> write_closed p \<and> pipe_room p < length data - off)"
proof (rule write_all.raw_induct [where P = "\<lambda>env n data off p r.
      \<not> (env = (\<lambda>n p. p) \<and> \<not> read_closed p \<and> \<not> write_closed p \<and> pipe_room p < length data - off)",
      OF _ assms], goal_cases)
  case (1 rec env n data off p r)
  show ?case
  proof
    assume a: "env = (\<lambda>n p. p) \<and> \<not> read_closed p \<and> \<not> write_closed p \<and> pipe_room p < length data - off"
    let ?p = "p\<lparr>pipe_buffer := pipe_buffer p @ take (pipe_room p) (drop off data)\<rparr>"
    have "write_all_round data off p = (Ok (off + pipe_room p), ?p)"
      using a by (subst write_all_round_open) (auto simp: Let_def min_absorb2)
    with 1(2) have "rec env (Suc n) data (off + pipe_room p) (env n ?p) = Some r" by simp
    from 1(1) [OF this] a show False by (auto simp: pipe_room_def)
  qed
qed

lemma write_all_spins:
  assumes "\<not> read_closed p" and "\<not> write_closed p" and "pipe_room p < length data"
  shows "write_all (\<lambda>n p. p) n data 0 p = None"
  using write_all_blocked [of "\<lambda>n p. p" n data 0 p] assms
  by (cases "write_all (\<lambda>n p. p) n data 0 p") auto

section \<open>Readiness\<close>

text \<open>
  A read end is reported as readable exactly when a read will not be told to come back later, and a
  write end as writable exactly when a write of at least one byte moves something, as long as the
  write end itself is open.
\<close>

lemma read_node_poll_exact:
  "read_node_poll p AND POLLIN \<noteq> 0 \<longleftrightarrow> fst (read_node_read off buf p) \<noteq> Err KeWouldBlock"
proof (cases "pipe_buffer p = []")
  case True
  then show ?thesis
    by (simp add: read_node_poll_def read_node_read_def try_read_def POLLIN_def POLLHUP_def)
next
  case False
  then show ?thesis
    by (simp add: read_node_poll_def read_node_read_def try_read_data Let_def POLLIN_def POLLHUP_def)
qed

lemma write_node_poll_exact:
  assumes "\<not> write_closed p" and "data \<noteq> []"
  shows "write_node_poll p AND POLLOUT \<noteq> 0 \<longleftrightarrow>
    (\<exists>n. fst (write_node_write off data p) = Ok n \<and> n \<noteq> 0)"
proof (cases "read_closed p")
  case False
  let ?n = "min (length data) (unat (pipe_capacity p) - length (pipe_buffer p))"
  have "(of_nat ?n :: u64) = 0 \<longleftrightarrow> ?n = 0" by (simp only: unat_eq_zero [symmetric] unat_written)
  also have "\<dots> \<longleftrightarrow> \<not> length (pipe_buffer p) < unat (pipe_capacity p)" using assms(2) by (cases data) auto
  finally show ?thesis using assms(1) False
    by (simp add: write_node_poll_def write_node_write_def pipe_write_eq Let_def POLLOUT_def)
qed (simp add: write_node_poll_def write_node_write_def pipe_write_closed POLLOUT_def POLLERR_def)

end
