(* ===== verification/Net_Wire.thy ===== *)
theory Net_Wire
  imports Kernel_Error
begin

text \<open>
  Addresses, headers and checksums of the network stack: \<open>src/kernel/src/net/mod.rs\<close>, the frames of
  \<open>ethernet.rs\<close>, the IPv4 header of \<open>ip.rs\<close>, the UDP header of \<open>udp.rs\<close> and the packets of \<open>arp.rs\<close>.
  Byte arrays of fixed size are constructors with one argument per byte; slices are lists.
\<close>

section \<open>Bytes in network order\<close>

definition be16 :: "u16 \<Rightarrow> u8 list" where
  "be16 x = [ucast (drop_bit 8 x), ucast x]"

definition of_be16 :: "u8 \<Rightarrow> u8 \<Rightarrow> u16" where
  "of_be16 a b = push_bit 8 (ucast a) OR ucast b"

definition be32 :: "u32 \<Rightarrow> u8 list" where
  "be32 x = [ucast (drop_bit 24 x), ucast (drop_bit 16 x), ucast (drop_bit 8 x), ucast x]"

definition of_be32 :: "u8 \<Rightarrow> u8 \<Rightarrow> u8 \<Rightarrow> u8 \<Rightarrow> u32" where
  "of_be32 a b c d =
     push_bit 24 (ucast a) OR push_bit 16 (ucast b) OR push_bit 8 (ucast c) OR ucast d"

lemma of_be16_inverse [simp]: "of_be16 (ucast (drop_bit 8 x)) (ucast x) = x"
  unfolding of_be16_def by (rule bit_word_eqI) (auto simp: bit_simps)

lemma bit_u8: "bit (x :: u8) n \<Longrightarrow> n < 8"
  using bit_imp_le_length [of x n] by simp

lemma be16_inverse: "be16 (of_be16 a b) = [a, b]"
proof -
  have "ucast (drop_bit 8 (of_be16 a b)) = a"
    unfolding of_be16_def by (rule bit_word_eqI) (auto simp: bit_simps dest: bit_u8)
  moreover have "ucast (of_be16 a b) = b"
    unfolding of_be16_def by (rule bit_word_eqI) (auto simp: bit_simps dest: bit_u8)
  ultimately show ?thesis by (simp add: be16_def)
qed

lemma of_be32_inverse [simp]:
  "of_be32 (ucast (drop_bit 24 x)) (ucast (drop_bit 16 x)) (ucast (drop_bit 8 x)) (ucast x) = x"
proof (rule bit_word_eqI)
  fix n assume "n < LENGTH(32)"
  then consider "n < 8" | "8 \<le> n" "n < 16" | "16 \<le> n" "n < 24" | "24 \<le> n" "n < 32" by fastforce
  then show "bit (of_be32 (ucast (drop_bit 24 x)) (ucast (drop_bit 16 x)) (ucast (drop_bit 8 x)) (ucast x)) n = bit x n"
    by cases (auto simp: of_be32_def bit_simps)
qed

lemma length_be [simp]: "length (be16 x) = 2" "length (be32 y) = 4"
  by (simp_all add: be16_def be32_def)

lemma unat_of_be16: "unat (of_be16 a b) = 256 * unat a + unat b"
proof -
  have d: "push_bit 8 (ucast a :: u16) AND ucast b = 0"
    by (rule bit_word_eqI) (auto simp: bit_simps dest: bit_u8)
  have "of_be16 a b = push_bit 8 (ucast a) + ucast b"
    unfolding of_be16_def by (rule disjunctive_add_eq_or [OF d, symmetric])
  moreover have "unat (push_bit 8 (ucast a :: u16)) = 256 * unat a"
    using unsigned_less [of a, where 'a = nat]
    by (simp only: unsigned_push_bit_eq) (simp add: unsigned_ucast_eq push_bit_eq_mult take_bit_eq_mod)
  moreover have "unat (ucast b :: u16) = unat b"
    using unsigned_less [of b, where 'a = nat] by (simp add: unsigned_ucast_eq take_bit_eq_mod)
  ultimately show ?thesis
    using unsigned_less [of a, where 'a = nat] unsigned_less [of b, where 'a = nat]
    by (simp add: unat_word_ariths)
qed

section \<open>Addresses\<close>

datatype mac_address = Mac u8 u8 u8 u8 u8 u8

definition MAC_BROADCAST :: mac_address where "MAC_BROADCAST = Mac 0xFF 0xFF 0xFF 0xFF 0xFF 0xFF"
definition MAC_ZERO :: mac_address where "MAC_ZERO = Mac 0 0 0 0 0 0"

fun mac_bytes :: "mac_address \<Rightarrow> u8 list" where
  "mac_bytes (Mac a b c d e f) = [a, b, c, d, e, f]"

datatype ipv4_address = Ipv4 u8 u8 u8 u8

definition IPV4_BROADCAST :: ipv4_address where "IPV4_BROADCAST = Ipv4 255 255 255 255"
definition IPV4_ANY :: ipv4_address where "IPV4_ANY = Ipv4 0 0 0 0"

fun ipv4_bytes :: "ipv4_address \<Rightarrow> u8 list" where
  "ipv4_bytes (Ipv4 a b c d) = [a, b, c, d]"

definition ipv4_from_u32 :: "u32 \<Rightarrow> ipv4_address" where
  "ipv4_from_u32 addr = Ipv4 (ucast (drop_bit 24 addr)) (ucast (drop_bit 16 addr)) (ucast (drop_bit 8 addr)) (ucast addr)"

fun ipv4_to_u32 :: "ipv4_address \<Rightarrow> u32" where
  "ipv4_to_u32 (Ipv4 a b c d) = of_be32 a b c d"

text \<open>The derived order of IPv4 addresses compares their bytes from the left.\<close>

instantiation ipv4_address :: linorder
begin

definition less_eq_ipv4_address :: "ipv4_address \<Rightarrow> ipv4_address \<Rightarrow> bool" where
  "less_eq_ipv4_address x y = (case (x, y) of (Ipv4 a b c d, Ipv4 a' b' c' d') \<Rightarrow> (a, b, c, d) \<le> (a', b', c', d'))"

definition less_ipv4_address :: "ipv4_address \<Rightarrow> ipv4_address \<Rightarrow> bool" where
  "less_ipv4_address x y = (case (x, y) of (Ipv4 a b c d, Ipv4 a' b' c' d') \<Rightarrow> (a, b, c, d) < (a', b', c', d'))"

instance
  by standard (auto simp: less_eq_ipv4_address_def less_ipv4_address_def split: ipv4_address.splits)

end

datatype ip_address = V4 ipv4_address | V6 "u8 list"

record socket_addr =
  sa_ip :: ip_address
  sa_port :: u16

lemma length_addresses [simp]: "length (mac_bytes m) = 6" "length (ipv4_bytes i) = 4"
  by (cases m, simp) (cases i, simp)

lemma ipv4_u32_inverse [simp]: "ipv4_to_u32 (ipv4_from_u32 w) = w"
  by (simp add: ipv4_from_u32_def)

section \<open>The internet checksum\<close>

text \<open>
  The sum of the 16-bit words of a byte sequence, an odd last byte counting as the high half of a
  word, and the loop that folds its carries back.
\<close>

fun add_words :: "u8 list \<Rightarrow> u32 \<Rightarrow> u32" where
  "add_words (a # b # bs) s = add_words bs (s + ucast (of_be16 a b))"
| "add_words [a] s = s + push_bit 8 (ucast a)"
| "add_words [] s = s"

lemma unat_drop16: "unat (drop_bit 16 (s :: u32)) = unat s div 2 ^ 16"
proof -
  have "take_bit 32 (unat s) = unat s"
    using unsigned_less [of s, where 'a = nat] by (intro take_bit_nat_eq_self) simp
  then show ?thesis by (simp only: unsigned_drop_bit_eq) (simp add: drop_bit_eq_div)
qed

lemma fold_carry:
  "unat ((s AND 0xFFFF) + drop_bit 16 (s :: u32)) = unat s mod 2 ^ 16 + unat s div 2 ^ 16"
proof -
  have "s AND 0xFFFF = take_bit 16 s" by (simp add: take_bit_eq_mask mask_eq_exp_minus_1)
  then have lo: "unat (s AND 0xFFFF) = unat s mod 2 ^ 16"
    by (simp only: unsigned_take_bit_eq) (simp add: take_bit_eq_mod)
  have "unat s < 2 ^ 32" using unsigned_less [of s, where 'a = nat] by simp
  then have "unat s mod 2 ^ 16 + unat s div 2 ^ 16 < 2 ^ 32" by (simp add: less_mult_imp_div_less)
  then show ?thesis by (simp add: unat_word_ariths lo unat_drop16)
qed

lemma no_carry: "drop_bit 16 (s :: u32) = 0 \<longleftrightarrow> unat s < 2 ^ 16"
proof -
  have "drop_bit 16 s = 0 \<longleftrightarrow> unat (drop_bit 16 s) = 0" by (simp add: unat_eq_zero)
  also have "\<dots> \<longleftrightarrow> unat s < 2 ^ 16" by (simp add: unat_drop16 div_eq_0_iff)
  finally show ?thesis .
qed

lemma power_numeral_16: "(2 :: nat) ^ 16 = 65536"
  by simp

function fold_sum :: "u32 \<Rightarrow> u32" where
  "fold_sum s = (if drop_bit 16 s \<noteq> 0 then fold_sum ((s AND 0xFFFF) + drop_bit 16 s) else s)"
  by pat_completeness auto
termination
proof (relation "measure unat", goal_cases)
  case (2 s)
  then have "2 ^ 16 \<le> unat s" by (simp add: no_carry)
  then have "0 < unat s div 2 ^ 16" by (simp add: div_greater_zero_iff)
  then have "unat s mod 2 ^ 16 + unat s div 2 ^ 16 < unat s"
    using div_mult_mod_eq [of "unat s" "2 ^ 16", symmetric] unfolding power_numeral_16 by linarith
  then show ?case by (simp only: in_measure fold_carry)
qed simp

declare fold_sum.simps [simp del]

definition ones_complement :: "u32 \<Rightarrow> u16" where
  "ones_complement s = NOT (ucast (fold_sum s))"

text \<open>Folding computes the remainder modulo 65535, with 65535 itself for the non-zero multiples.\<close>

lemma fold_sum_spec:
  "unat (fold_sum s) < 2 ^ 16 \<and> unat (fold_sum s) mod 65535 = unat s mod 65535 \<and>
   (unat (fold_sum s) = 0 \<longleftrightarrow> unat s = 0)"
proof (induction s rule: fold_sum.induct)
  case (1 s)
  show ?case
  proof (cases "drop_bit 16 s = 0")
    case True
    then show ?thesis by (subst (1 2 3) fold_sum.simps) (simp add: no_carry)
  next
    case False
    let ?t = "(s AND 0xFFFF) + drop_bit 16 s"
    have e: "unat s = 65535 * (unat s div 2 ^ 16) + unat ?t"
      unfolding fold_carry using div_mult_mod_eq [of "unat s" "2 ^ 16"] by simp
    have "unat ?t mod 65535 = unat s mod 65535" by (metis e mod_mult_self4)
    moreover have "unat ?t = 0 \<longleftrightarrow> unat s = 0"
      using False unfolding fold_carry no_carry by (auto simp: div_eq_0_iff)
    moreover have "fold_sum s = fold_sum ?t" using False by (subst fold_sum.simps) simp
    ultimately show ?thesis using 1 [OF False] by simp
  qed
qed

lemma unat_ones_complement: "unat (ones_complement s) = 65535 - unat (fold_sum s)"
proof -
  have "unat (ucast (fold_sum s) :: u16) = unat (fold_sum s)"
    using fold_sum_spec [of s] by (simp add: unsigned_ucast_eq take_bit_eq_mod)
  moreover have "unat (NOT w :: u16) = 65535 - unat w" for w :: u16
  proof -
    have "w + NOT w = - 1" by simp
    then have "(unat w + unat (NOT w)) mod 2 ^ 16 = 65535"
      using unat_word_ariths(1) [of w "NOT w"] by (simp add: unsigned_minus_1_eq_mask mask_eq_exp_minus_1)
    moreover have "unat w < 2 ^ 16" "unat (NOT w) < 2 ^ 16"
      using unsigned_less [of w, where 'a = nat] unsigned_less [of "NOT w", where 'a = nat] by simp_all
    ultimately show ?thesis by (cases "unat w + unat (NOT w) < 2 ^ 16") (simp_all add: mod_if split: if_splits)
  qed
  ultimately show ?thesis by (simp add: ones_complement_def)
qed

text \<open>
  The receiver's test: a sum to which the complement of its folded value is added folds to all ones.
\<close>

lemma checksum_verifies:
  assumes "unat t = unat s + unat (ones_complement s)"
  shows "fold_sum t = 0xFFFF"
proof -
  let ?f = "unat (fold_sum s)"
  have f: "?f \<le> 65535" "?f mod 65535 = unat s mod 65535" "?f = 0 \<longleftrightarrow> unat s = 0"
    using fold_sum_spec [of s] by auto
  have t: "unat t = unat s + (65535 - ?f)" using assms by (simp add: unat_ones_complement)
  have "unat t mod 65535 = (?f + (65535 - ?f)) mod 65535"
    unfolding t using f(2) by (metis mod_add_left_eq)
  then have m: "unat t mod 65535 = 0" using f(1) by simp
  have "unat t \<noteq> 0" using t f by (cases "unat s = 0") auto
  then have "unat (fold_sum t) \<noteq> 0" "unat (fold_sum t) mod 65535 = 0" "unat (fold_sum t) < 65536"
    using fold_sum_spec [of t] m by auto
  then have "unat (fold_sum t) = 65535" by (auto simp: mod_eq_0_iff_dvd dvd_def)
  then show ?thesis by (simp add: word_unat_eq_iff)
qed

text \<open>What the sums compute, as natural numbers.\<close>

fun words_sum :: "u8 list \<Rightarrow> nat" where
  "words_sum (a # b # bs) = unat (of_be16 a b) + words_sum bs"
| "words_sum [a] = 256 * unat a"
| "words_sum [] = 0"

lemma words_sum_bound: "words_sum bs \<le> 65535 * ((length bs + 1) div 2)"
proof (induction bs rule: words_sum.induct)
  case (1 a b bs)
  have "unat (of_be16 a b) \<le> 65535" using unsigned_less [of "of_be16 a b", where 'a = nat] by simp
  with 1 show ?case by simp
next
  case (2 a)
  show ?case using unsigned_less [of a, where 'a = nat] by simp
qed simp

lemma unat_ucast_u32: "unat (ucast (w :: u16) :: u32) = unat w"
  using unsigned_less [of w, where 'a = nat] by (simp add: unsigned_ucast_eq take_bit_eq_mod)

lemma unat_high_byte: "unat (push_bit 8 (ucast (a :: u8)) :: u32) = 256 * unat a"
  using unsigned_less [of a, where 'a = nat]
  by (simp only: unsigned_push_bit_eq) (simp add: unsigned_ucast_eq push_bit_eq_mult take_bit_eq_mod)

lemma unat_add_words:
  assumes "unat s + words_sum bs < 2 ^ 32"
  shows "unat (add_words bs s) = unat s + words_sum bs"
  using assms
proof (induction bs s rule: add_words.induct)
  case (1 a b bs s)
  then have "unat (s + ucast (of_be16 a b)) = unat s + unat (of_be16 a b)"
    by (simp add: unat_word_ariths unat_ucast_u32)
  with 1 show ?case by simp
next
  case (2 a s)
  then show ?case by (simp add: unat_word_ariths unat_high_byte)
qed simp

definition sum_pairs :: "nat \<Rightarrow> u8 list \<Rightarrow> u32 \<Rightarrow> u32" where
  "sum_pairs n bytes s = fold (\<lambda>i s. s + ucast (of_be16 (bytes ! (2 * i)) (bytes ! (2 * i + 1)))) [0..<n] s"

lemma sum_pairs_add_words:
  assumes "length bytes = 2 * n"
  shows "sum_pairs n bytes s = add_words bytes s"
  using assms
proof (induction n arbitrary: bytes s)
  case (Suc n)
  then obtain a b bs where bytes: "bytes = a # b # bs" and len: "length bs = 2 * n"
    by (auto simp: length_Suc_conv)
  have "fold (\<lambda>i s. s + ucast (of_be16 (bytes ! (2 * i)) (bytes ! (2 * i + 1)))) (map Suc [0..<n]) t = sum_pairs n bs t" for t
    unfolding sum_pairs_def fold_map by (rule fold_cong) (simp_all add: bytes)
  then have "sum_pairs (Suc n) bytes s = sum_pairs n bs (s + ucast (of_be16 a b))"
    by (simp add: sum_pairs_def [of "Suc n"] upt_conv_Cons map_Suc_upt [symmetric] bytes del: upt_Suc)
  with Suc.IH [OF len] show ?case by (simp add: bytes)
qed (simp add: sum_pairs_def)

section \<open>Ethernet frames\<close>

definition ETHERNET_HEADER_SIZE :: nat where "ETHERNET_HEADER_SIZE = 14"
definition ETHERTYPE_IPV4 :: u16 where "ETHERTYPE_IPV4 = 0x0800"
definition ETHERTYPE_ARP :: u16 where "ETHERTYPE_ARP = 0x0806"
definition ETHERTYPE_IPV6 :: u16 where "ETHERTYPE_IPV6 = 0x86DD"

record ethernet_frame =
  ef_dst_mac :: mac_address
  ef_src_mac :: mac_address
  ef_ethertype :: u16
  ef_payload :: "u8 list"

definition mac_at :: "u8 list \<Rightarrow> nat \<Rightarrow> mac_address" where
  "mac_at data i = Mac (data ! i) (data ! (i + 1)) (data ! (i + 2)) (data ! (i + 3)) (data ! (i + 4)) (data ! (i + 5))"

definition ipv4_at :: "u8 list \<Rightarrow> nat \<Rightarrow> ipv4_address" where
  "ipv4_at data i = Ipv4 (data ! i) (data ! (i + 1)) (data ! (i + 2)) (data ! (i + 3))"

definition u16_at :: "u8 list \<Rightarrow> nat \<Rightarrow> u16" where
  "u16_at data i = of_be16 (data ! i) (data ! (i + 1))"

definition u32_at :: "u8 list \<Rightarrow> nat \<Rightarrow> u32" where
  "u32_at data i = of_be32 (data ! i) (data ! (i + 1)) (data ! (i + 2)) (data ! (i + 3))"

definition parse_frame :: "u8 list \<Rightarrow> (ethernet_frame, kernel_error) result" where
  "parse_frame data =
     (if length data < ETHERNET_HEADER_SIZE then Err (KeInvalidArgument ''ethernet_frame'' ''too_short'')
      else Ok \<lparr>ef_dst_mac = mac_at data 0, ef_src_mac = mac_at data 6, ef_ethertype = u16_at data 12,
               ef_payload = drop ETHERNET_HEADER_SIZE data\<rparr>)"

definition construct_frame :: "mac_address \<Rightarrow> mac_address \<Rightarrow> u16 \<Rightarrow> u8 list \<Rightarrow> u8 list" where
  "construct_frame dst src ethertype payload = mac_bytes dst @ mac_bytes src @ be16 ethertype @ payload"

definition is_broadcast :: "mac_address \<Rightarrow> bool" where
  "is_broadcast mac = (mac = MAC_BROADCAST)"

fun is_ipv6_multicast :: "mac_address \<Rightarrow> bool" where
  "is_ipv6_multicast (Mac a b c d e f) = (a = 0x33 \<and> b = 0x33)"

definition is_for_us :: "mac_address \<Rightarrow> mac_address \<Rightarrow> bool" where
  "is_for_us frame_dst our_mac =
     (frame_dst = our_mac \<or> is_broadcast frame_dst \<or> is_ipv6_multicast frame_dst)"

lemma parse_construct:
  "parse_frame (construct_frame dst src ty payload) =
     Ok \<lparr>ef_dst_mac = dst, ef_src_mac = src, ef_ethertype = ty, ef_payload = payload\<rparr>"
  by (cases dst; cases src)
    (simp add: parse_frame_def construct_frame_def ETHERNET_HEADER_SIZE_def mac_at_def u16_at_def be16_def)

lemma construct_parse:
  assumes "parse_frame data = Ok f"
  shows "construct_frame (ef_dst_mac f) (ef_src_mac f) (ef_ethertype f) (ef_payload f) = data"
proof -
  have "14 \<le> length data" using assms by (auto simp: parse_frame_def ETHERNET_HEADER_SIZE_def split: if_splits)
  then have "data = take 14 data @ drop 14 data" "length (take 14 data) = 14" by simp_all
  then obtain hd where data: "data = hd @ drop 14 data" and hd: "length hd = 14" by metis
  then obtain a b c d e f' g h i j k l m n where "hd = [a, b, c, d, e, f', g, h, i, j, k, l, m, n]"
    by (auto simp: length_Suc_conv numeral_eq_Suc)
  with data obtain rest where "data = [a, b, c, d, e, f', g, h, i, j, k, l, m, n] @ rest" by blast
  with assms show ?thesis
    by (auto simp: parse_frame_def construct_frame_def ETHERNET_HEADER_SIZE_def mac_at_def u16_at_def be16_inverse split: if_splits)
qed

section \<open>The IPv4 header\<close>

datatype ip_protocol = Icmp | Tcp | Udp

fun protocol_number :: "ip_protocol \<Rightarrow> u8" where
  "protocol_number Icmp = 1"
| "protocol_number Tcp = 6"
| "protocol_number Udp = 17"

record ipv4_header =
  ih_version :: u8
  ih_ihl :: u8
  ih_tos :: u8
  ih_total_length :: u16
  ih_identification :: u16
  ih_flags :: u8
  ih_fragment_offset :: u16
  ih_ttl :: u8
  ih_protocol :: u8
  ih_checksum :: u16
  ih_source :: ipv4_address
  ih_destination :: ipv4_address

definition IPV4_MIN_SIZE :: nat where "IPV4_MIN_SIZE = 20"

definition ipv4_header_new :: "ipv4_address \<Rightarrow> ipv4_address \<Rightarrow> ip_protocol \<Rightarrow> ipv4_header" where
  "ipv4_header_new src dst protocol =
     \<lparr>ih_version = 4, ih_ihl = 5, ih_tos = 0, ih_total_length = 0, ih_identification = 0, ih_flags = 0,
      ih_fragment_offset = 0, ih_ttl = 64, ih_protocol = protocol_number protocol, ih_checksum = 0,
      ih_source = src, ih_destination = dst\<rparr>"

definition ipv4_to_bytes :: "ipv4_header \<Rightarrow> u8 list" where
  "ipv4_to_bytes h =
     [push_bit 4 (ih_version h) OR ih_ihl h, ih_tos h] @ be16 (ih_total_length h) @
     be16 (ih_identification h) @
     [push_bit 5 (ih_flags h) OR ucast (drop_bit 8 (ih_fragment_offset h)),
      ucast (ih_fragment_offset h AND 0xFF), ih_ttl h, ih_protocol h] @
     be16 (ih_checksum h) @ ipv4_bytes (ih_source h) @ ipv4_bytes (ih_destination h)"

definition ipv4_from_bytes :: "u8 list \<Rightarrow> (ipv4_header, kernel_error) result" where
  "ipv4_from_bytes bytes =
     (if length bytes < IPV4_MIN_SIZE then Err (KeInvalidArgument ''ip_header'' ''too_short'')
      else let version = drop_bit 4 (bytes ! 0)
           in if version \<noteq> 4 then Err (KeInvalidArgument ''ip_version'' ''not_ipv4'')
              else Ok \<lparr>ih_version = version, ih_ihl = bytes ! 0 AND 0x0F, ih_tos = bytes ! 1,
                       ih_total_length = u16_at bytes 2, ih_identification = u16_at bytes 4,
                       ih_flags = drop_bit 5 (bytes ! 6),
                       ih_fragment_offset = of_be16 (bytes ! 6 AND 0x1F) (bytes ! 7),
                       ih_ttl = bytes ! 8, ih_protocol = bytes ! 9, ih_checksum = u16_at bytes 10,
                       ih_source = ipv4_at bytes 12, ih_destination = ipv4_at bytes 16\<rparr>)"

definition ipv4_calculate_checksum :: "ipv4_header \<Rightarrow> ipv4_header" where
  "ipv4_calculate_checksum h =
     (let h0 = h\<lparr>ih_checksum := 0\<rparr>; bytes = ipv4_to_bytes h0
      in h0\<lparr>ih_checksum := ones_complement (sum_pairs 10 bytes 0)\<rparr>)"

text \<open>The headers whose fields fit their place on the wire.\<close>

definition ipv4_header_ok :: "ipv4_header \<Rightarrow> bool" where
  "ipv4_header_ok h =
     (ih_version h = 4 \<and> ih_ihl h < 16 \<and> ih_flags h < 8 \<and> ih_fragment_offset h < 0x2000)"

lemma length_ipv4_to_bytes [simp]: "length (ipv4_to_bytes h) = 20"
  by (simp add: ipv4_to_bytes_def)

lemma take_map_nth: "n \<le> length xs \<Longrightarrow> take n xs = map ((!) xs) [0..<n]"
  by (rule nth_equalityI) simp_all

lemma small_bits:
  assumes "(x :: 'a::len word) < 2 ^ k" and "bit x n"
  shows "n < k"
proof (cases "k < LENGTH('a)")
  case True
  have "(2 :: 'a word) ^ k = of_nat (2 ^ k)" by simp
  then have "unat (2 ^ k :: 'a word) = take_bit LENGTH('a) (2 ^ k)" by (simp only: unsigned_of_nat of_nat_id)
  also have "\<dots> = 2 ^ k" using True by (simp add: take_bit_nat_eq_self)
  finally have "unat x < 2 ^ k" using assms(1) by (simp add: word_less_nat_alt)
  then have "take_bit k x = x"
    by (simp only: word_unat_eq_iff unsigned_take_bit_eq take_bit_nat_eq_self)
  then show ?thesis using assms(2) by (metis bit_take_bit_iff)
next
  case False
  then show ?thesis using bit_imp_le_length [OF assms(2)] by simp
qed

lemma nibble: "x AND 0x0F = take_bit 4 x" "x AND 0x1F = take_bit 5 x" for x :: u8
  by (simp_all add: take_bit_eq_mask mask_eq_exp_minus_1)

lemma low_byte: "ucast (x AND 0xFF) = (ucast x :: u8)" for x :: u16
proof -
  have "x AND 0xFF = take_bit 8 x" by (simp add: take_bit_eq_mask mask_eq_exp_minus_1)
  then show ?thesis by (simp only:) (rule bit_word_eqI, auto simp: bit_simps)
qed

lemma first_byte_split:
  assumes "(v :: u8) < 2 ^ 4" and "(i :: u8) < 2 ^ 4"
  shows "drop_bit 4 (push_bit 4 v OR i) = v" and "take_bit 4 (push_bit 4 v OR i) = i"
proof -
  have "\<not> bit i (4 + n)" "bit v n \<Longrightarrow> n < 4" "bit i n \<Longrightarrow> n < 4" for n
    using small_bits [OF assms(1)] small_bits [OF assms(2)] by fastforce+
  then show "drop_bit 4 (push_bit 4 v OR i) = v" "take_bit 4 (push_bit 4 v OR i) = i"
    by (auto intro!: bit_word_eqI simp: bit_simps)
qed

lemma flags_split:
  assumes "(fl :: u8) < 2 ^ 3" and "(off :: u16) < 2 ^ 13"
  shows "drop_bit 5 (push_bit 5 fl OR ucast (drop_bit 8 off)) = fl"
    and "take_bit 5 (push_bit 5 fl OR ucast (drop_bit 8 off)) = ucast (drop_bit 8 off)"
proof -
  have "\<not> bit off (13 + n)" "bit fl n \<Longrightarrow> n < 3" "bit off (8 + n) \<Longrightarrow> n < 5" for n
    using small_bits [OF assms(1)] small_bits [OF assms(2)] by fastforce+
  then show "drop_bit 5 (push_bit 5 fl OR ucast (drop_bit 8 off)) = fl"
    "take_bit 5 (push_bit 5 fl OR ucast (drop_bit 8 off)) = ucast (drop_bit 8 off)"
    by (auto intro!: bit_word_eqI simp: bit_simps)
qed

lemma byte_join: "push_bit k (drop_bit k b) OR take_bit k b = (b :: u8)"
  by (rule bit_word_eqI) (auto simp: bit_simps)

lemma upt_20: "[0..<20] = [0, 1, 2, 3, 4, 5, 6, 7, 8, 9, 10, 11, 12, 13, 14, 15, 16, 17, 18, 19]"
  by (simp add: upt_rec)

lemma be16_at: "be16 (u16_at bs i) = [bs ! i, bs ! (i + 1)]"
  by (simp add: u16_at_def be16_inverse)

lemma be16_split: "[ucast (drop_bit 8 (of_be16 a b)), ucast (of_be16 a b)] = [a, b]"
  using be16_inverse [of a b] by (simp only: be16_def)

lemma ipv4_from_to:
  assumes "ipv4_header_ok h"
  shows "ipv4_from_bytes (ipv4_to_bytes h @ rest) = Ok h"
proof -
  obtain s1 s2 s3 s4 where src: "ih_source h = Ipv4 s1 s2 s3 s4" by (cases "ih_source h")
  obtain d1 d2 d3 d4 where dst: "ih_destination h = Ipv4 d1 d2 d3 d4" by (cases "ih_destination h")
  have v: "ih_version h < 2 ^ 4" "ih_ihl h < 2 ^ 4" "ih_flags h < 2 ^ 3" "ih_fragment_offset h < 2 ^ 13"
    using assms by (simp_all add: ipv4_header_ok_def)
  have "length (ipv4_to_bytes h @ rest) \<ge> 20" by simp
  then show ?thesis
    using assms src dst first_byte_split [OF v(1,2)] flags_split [OF v(3,4)]
    unfolding ipv4_from_bytes_def IPV4_MIN_SIZE_def nibble Let_def
    by (simp add: ipv4_to_bytes_def be16_def u16_at_def ipv4_at_def low_byte ipv4_header_ok_def)
qed

lemma byte_parts_small: "take_bit 4 (b :: u8) < 16" "drop_bit 5 (b :: u8) < 8"
  "of_be16 (take_bit 5 b) c < 0x2000"
proof -
  have t: "unat (take_bit k b) < 2 ^ k" for k by (simp only: unsigned_take_bit_eq take_bit_nat_less_exp)
  show "take_bit 4 b < 16" using t [of 4] by (simp add: word_less_nat_alt)
  have "unat b < 2 ^ 8" using unsigned_less [of b, where 'a = nat] by simp
  then have "unat (drop_bit 5 b) < 8"
    by (simp only: unsigned_drop_bit_eq) (simp add: drop_bit_eq_div take_bit_eq_mod less_mult_imp_div_less)
  then show "drop_bit 5 b < 8" by (simp add: word_less_nat_alt)
  have "unat c < 2 ^ 8" using unsigned_less [of c, where 'a = nat] by simp
  then show "of_be16 (take_bit 5 b) c < 0x2000" using t [of 5] by (simp add: word_less_nat_alt unat_of_be16)
qed

lemma ipv4_to_from:
  assumes "ipv4_from_bytes bytes = Ok h"
  shows "ipv4_header_ok h" and "ipv4_to_bytes h = take 20 bytes"
proof -
  have len: "20 \<le> length bytes" and ver: "drop_bit 4 (bytes ! 0) = 4"
    using assms by (auto simp: ipv4_from_bytes_def IPV4_MIN_SIZE_def Let_def split: if_splits)
  then have h: "h = \<lparr>ih_version = 4, ih_ihl = take_bit 4 (bytes ! 0), ih_tos = bytes ! 1,
       ih_total_length = u16_at bytes 2, ih_identification = u16_at bytes 4,
       ih_flags = drop_bit 5 (bytes ! 6),
       ih_fragment_offset = of_be16 (take_bit 5 (bytes ! 6)) (bytes ! 7),
       ih_ttl = bytes ! 8, ih_protocol = bytes ! 9, ih_checksum = u16_at bytes 10,
       ih_source = ipv4_at bytes 12, ih_destination = ipv4_at bytes 16\<rparr>"
    using assms unfolding ipv4_from_bytes_def IPV4_MIN_SIZE_def nibble Let_def by simp
  show "ipv4_header_ok h" by (simp add: h ipv4_header_ok_def byte_parts_small)
  have "push_bit 4 4 OR take_bit 4 (bytes ! 0) = bytes ! 0"
    using byte_join [of 4 "bytes ! 0"] ver by simp
  then show "ipv4_to_bytes h = take 20 bytes"
    unfolding take_map_nth [OF len] upt_20 ipv4_to_bytes_def h
    using byte_join [of 5 "bytes ! 6"] be16_split [of "take_bit 5 (bytes ! 6)" "bytes ! 7"]
    by (simp add: be16_at ipv4_at_def low_byte del: push_bit_numeral)
qed

text \<open>
  C23. A header whose fields fit their place is read back unchanged from its bytes, whatever follows
  them, and the bytes of a header that was read are the first 20 bytes that it was read from: the
  encoding of IPv4 headers loses nothing in either direction.
\<close>

theorem ipv4_header_roundtrip:
  "(ipv4_header_ok h \<longrightarrow> ipv4_from_bytes (ipv4_to_bytes h @ rest) = Ok h) \<and>
   (ipv4_from_bytes bytes = Ok h \<longrightarrow> ipv4_header_ok h \<and> ipv4_to_bytes h = take 20 bytes)"
  using ipv4_from_to ipv4_to_from by blast

definition demo_header :: ipv4_header where
  "demo_header = ipv4_header_new (Ipv4 10 0 2 15) (Ipv4 10 0 2 2) Udp"

theorem ipv4_header_roundtrip_witness:
  "ipv4_header_ok demo_header \<and> ipv4_from_bytes (ipv4_to_bytes demo_header @ [1, 2]) = Ok demo_header \<and>
   ipv4_to_bytes demo_header = take 20 (ipv4_to_bytes demo_header @ [1, 2])"
proof -
  have ok: "ipv4_header_ok demo_header" by (simp add: demo_header_def ipv4_header_new_def ipv4_header_ok_def)
  note rt = ipv4_header_roundtrip [of demo_header "[1, 2]" "ipv4_to_bytes demo_header @ [1, 2]"]
  from rt ok have "ipv4_from_bytes (ipv4_to_bytes demo_header @ [1, 2]) = Ok demo_header" by blast
  with rt ok show ?thesis by blast
qed

lemma words_sum_append: "even (length xs) \<Longrightarrow> words_sum (xs @ ys) = words_sum xs + words_sum ys"
  by (induction xs rule: words_sum.induct) auto

lemma words_sum_be16 [simp]: "words_sum (be16 x) = unat x"
  by (simp add: be16_def)

lemma ipv4_words_sum:
  "words_sum (ipv4_to_bytes (h\<lparr>ih_checksum := c\<rparr>)) = words_sum (ipv4_to_bytes (h\<lparr>ih_checksum := 0\<rparr>)) + unat c"
  by (simp add: ipv4_to_bytes_def words_sum_append)

lemma ipv4_checksum_verifies:
  "fold_sum (sum_pairs 10 (ipv4_to_bytes (ipv4_calculate_checksum h)) 0) = 0xFFFF"
proof -
  let ?h = "h\<lparr>ih_checksum := 0\<rparr>" and ?c = "ih_checksum (ipv4_calculate_checksum h)"
  have u: "unat (sum_pairs 10 (ipv4_to_bytes g) 0) = words_sum (ipv4_to_bytes g)" for g
    using words_sum_bound [of "ipv4_to_bytes g"] unat_add_words [of 0 "ipv4_to_bytes g"]
    by (simp add: sum_pairs_add_words)
  have c: "?c = ones_complement (sum_pairs 10 (ipv4_to_bytes ?h) 0)"
    and h: "ipv4_calculate_checksum h = h\<lparr>ih_checksum := ?c\<rparr>"
    by (simp_all add: ipv4_calculate_checksum_def Let_def)
  have "words_sum (ipv4_to_bytes (h\<lparr>ih_checksum := ?c\<rparr>)) = words_sum (ipv4_to_bytes ?h) + unat ?c"
    by (rule ipv4_words_sum)
  then show ?thesis by (intro checksum_verifies [where s = "sum_pairs 10 (ipv4_to_bytes ?h) 0"]) (simp only: u flip: h c)
qed

section \<open>The UDP header\<close>

record udp_header =
  uh_source_port :: u16
  uh_dest_port :: u16
  uh_length :: u16
  uh_checksum :: u16

definition UDP_SIZE :: nat where "UDP_SIZE = 8"

definition udp_header_new :: "u16 \<Rightarrow> u16 \<Rightarrow> nat \<Rightarrow> udp_header" where
  "udp_header_new src_port dst_port data_len =
     \<lparr>uh_source_port = src_port, uh_dest_port = dst_port, uh_length = of_nat (UDP_SIZE + data_len),
      uh_checksum = 0\<rparr>"

definition udp_to_bytes :: "udp_header \<Rightarrow> u8 list" where
  "udp_to_bytes h = be16 (uh_source_port h) @ be16 (uh_dest_port h) @ be16 (uh_length h) @ be16 (uh_checksum h)"

definition udp_from_bytes :: "u8 list \<Rightarrow> (udp_header, kernel_error) result" where
  "udp_from_bytes bytes =
     (if length bytes < UDP_SIZE then Err (KeInvalidArgument ''udp_header'' ''too_short'')
      else Ok \<lparr>uh_source_port = u16_at bytes 0, uh_dest_port = u16_at bytes 2,
               uh_length = u16_at bytes 4, uh_checksum = u16_at bytes 6\<rparr>)"

definition udp_pseudo :: "ip_address \<Rightarrow> ip_address \<Rightarrow> udp_header \<Rightarrow> u32" where
  "udp_pseudo src dst h =
     (case (src, dst) of
        (V4 (Ipv4 a b c d), V4 (Ipv4 a' b' c' d')) \<Rightarrow>
          0 + ucast (of_be16 a b) + ucast (of_be16 c d) + ucast (of_be16 a' b') + ucast (of_be16 c' d')
            + 17 + ucast (uh_length h)
      | _ \<Rightarrow> 0)"

definition udp_sum :: "ip_address \<Rightarrow> ip_address \<Rightarrow> u8 list \<Rightarrow> udp_header \<Rightarrow> u32" where
  "udp_sum src dst data h = add_words data (sum_pairs 4 (udp_to_bytes h) (udp_pseudo src dst h))"

definition udp_calculate_checksum :: "ip_address \<Rightarrow> ip_address \<Rightarrow> u8 list \<Rightarrow> udp_header \<Rightarrow> udp_header" where
  "udp_calculate_checksum src dst data h =
     (let h0 = h\<lparr>uh_checksum := 0\<rparr> in h0\<lparr>uh_checksum := ones_complement (udp_sum src dst data h0)\<rparr>)"

lemma length_udp_to_bytes [simp]: "length (udp_to_bytes h) = 8"
  by (simp add: udp_to_bytes_def)

lemma udp_from_to: "udp_from_bytes (udp_to_bytes h @ rest) = Ok h"
  by (simp add: udp_from_bytes_def UDP_SIZE_def) (simp add: udp_to_bytes_def be16_def u16_at_def)

lemma udp_words_sum: "words_sum (udp_to_bytes (h\<lparr>uh_checksum := c\<rparr>)) = words_sum (udp_to_bytes (h\<lparr>uh_checksum := 0\<rparr>)) + unat c"
  by (simp add: udp_to_bytes_def words_sum_append)

lemma unat_add_le: "unat (a + b) \<le> unat a + unat (b :: u32)"
  by (simp add: unat_word_ariths)

lemma udp_pseudo_bound: "unat (udp_pseudo src dst h) < 2 ^ 20"
proof -
  have w: "unat (ucast (x :: u16) :: u32) \<le> 65535" for x
    using unsigned_less [of x, where 'a = nat] by (simp add: unat_ucast_u32)
  have "unat (ucast x1 + ucast x2 + ucast x3 + ucast x4 + 17 + (ucast x5 :: u32)) \<le> 5 * 65535 + 17"
    for x1 x2 x3 x4 x5 :: u16
    using unat_add_le [of "ucast x1 + ucast x2 + ucast x3 + ucast x4 + 17" "ucast x5"]
      unat_add_le [of "ucast x1 + ucast x2 + ucast x3 + ucast x4" 17]
      unat_add_le [of "ucast x1 + ucast x2 + ucast x3" "ucast x4"]
      unat_add_le [of "ucast x1 + ucast x2" "ucast x3"] unat_add_le [of "ucast x1" "ucast x2"]
      w [of x1] w [of x2] w [of x3] w [of x4] w [of x5] by simp
  then have "unat (ucast x1 + ucast x2 + ucast x3 + ucast x4 + 17 + (ucast x5 :: u32)) < 2 ^ 20"
    for x1 x2 x3 x4 x5 :: u16
    by (rule le_less_trans) simp
  then show ?thesis
    by (auto simp: udp_pseudo_def split: ip_address.split ipv4_address.split)
qed

lemma unat_udp_sum:
  assumes "length data \<le> 65535"
  shows "unat (udp_sum src dst data h) =
    unat (udp_pseudo src dst h) + words_sum (udp_to_bytes h) + words_sum data"
proof -
  have "words_sum data \<le> 65535 * 32768" using words_sum_bound [of data] assms by simp
  moreover have "words_sum (udp_to_bytes h) \<le> 65535 * 4" using words_sum_bound [of "udp_to_bytes h"] by simp
  moreover have "unat (udp_pseudo src dst h) < 2 ^ 20" by (rule udp_pseudo_bound)
  ultimately have "unat (udp_pseudo src dst h) + words_sum (udp_to_bytes h) + words_sum data < 2 ^ 32" by simp
  then show ?thesis by (simp add: udp_sum_def sum_pairs_add_words unat_add_words)
qed

lemma udp_checksum_verifies:
  assumes "length data \<le> 65535"
  shows "fold_sum (udp_sum src dst data (udp_calculate_checksum src dst data h)) = 0xFFFF"
proof -
  let ?h = "h\<lparr>uh_checksum := 0\<rparr>"
  have h: "udp_calculate_checksum src dst data h = h\<lparr>uh_checksum := ones_complement (udp_sum src dst data ?h)\<rparr>"
    by (simp add: udp_calculate_checksum_def Let_def)
  have p: "udp_pseudo src dst (h\<lparr>uh_checksum := c\<rparr>) = udp_pseudo src dst ?h" for c
    by (simp add: udp_pseudo_def split: ip_address.split ipv4_address.split)
  have "unat (udp_sum src dst data (h\<lparr>uh_checksum := c\<rparr>)) = unat (udp_sum src dst data ?h) + unat c" for c
    unfolding unat_udp_sum [OF assms] p [of c] by (subst udp_words_sum) simp
  then show ?thesis unfolding h by (rule checksum_verifies)
qed



end
