(* ===== verification/Net_Stack.thy ===== *)
theory Net_Stack
  imports Net_Wire
begin

text \<open>
  The state of the network stack and its lower layers: statistics (\<open>src/kernel/src/net/mod.rs\<close>), the
  ARP cache and packets (\<open>arp.rs\<close>) and the IPv4 layer (\<open>ip.rs\<close>). The global variables of all network
  modules are the fields of one record. The network device is a driver behind a trait: the model keeps
  the hardware address of the device \<open>eth0\<close>, if one is registered, and the frames handed to it. The
  IPv6 layer is an argument of the operations that call it.
\<close>

section \<open>State\<close>

record arp_entry =
  ae_mac :: mac_address
  ae_timestamp :: u64

record interface_config =
  ic_ip_addr :: ipv4_address
  ic_subnet_mask :: ipv4_address
  ic_gateway :: "ipv4_address option"

record route_entry =
  re_destination :: ipv4_address
  re_netmask :: ipv4_address
  re_gateway :: "ipv4_address option"
  re_interface :: usize

record network_stats =
  ns_packets_sent :: u64
  ns_packets_received :: u64
  ns_bytes_sent :: u64
  ns_bytes_received :: u64
  ns_errors :: u64

record received_datagram =
  rd_data :: "u8 list"
  rd_from :: socket_addr

record udp_socket_buffer =
  ub_local_addr :: socket_addr
  ub_recv_queue :: "received_datagram list"
  ub_max_queue_size :: nat

datatype tcp_state =
    Closed | Listen | SynSent | SynReceived | Established | FinWait1 | FinWait2 | CloseWait
  | Closing | LastAck | TimeWait

record tcp_connection =
  tc_local :: socket_addr
  tc_remote :: socket_addr
  tc_state :: tcp_state
  tc_seq_num :: u32
  tc_ack_num :: u32
  tc_window_size :: u16

record tcp_socket_state =
  ts_connection :: tcp_connection
  ts_send_buffer :: "u8 list"
  ts_recv_buffer :: "u8 list"
  ts_send_seq :: u32
  ts_recv_seq :: u32

record pending_connection =
  pc_remote_addr :: socket_addr
  pc_seq_num :: u32

record listening_socket_entry =
  le_socket_id :: usize
  le_addr :: socket_addr
  le_backlog :: usize
  le_pending :: "pending_connection list"

record net =
  net_arp_cache :: "(ipv4_address, arp_entry) btree_map"
  net_arp_tick :: u64
  net_interface :: interface_config
  net_routes :: "route_entry list"
  net_ip_id :: u16
  net_eth0 :: "mac_address option"
  net_tx :: "u8 list list"
  net_stats :: network_stats
  net_udp :: "(usize, udp_socket_buffer) btree_map"
  net_next_udp_id :: usize
  net_tcp :: "(usize, tcp_socket_state) btree_map"
  net_tcp_isn :: u32
  net_listening :: "listening_socket_entry list"
  net_bound :: "socket_addr list"

text \<open>The state after \<open>init\<close>, with the device that the drivers have registered.\<close>

definition net_init :: "mac_address option \<Rightarrow> net" where
  "net_init eth0 =
     \<lparr>net_arp_cache = [], net_arp_tick = 0,
      net_interface = \<lparr>ic_ip_addr = IPV4_ANY, ic_subnet_mask = IPV4_ANY, ic_gateway = None\<rparr>,
      net_routes = [\<lparr>re_destination = Ipv4 127 0 0 0, re_netmask = Ipv4 255 0 0 0, re_gateway = None, re_interface = 0\<rparr>],
      net_ip_id = 1, net_eth0 = eth0, net_tx = [],
      net_stats = \<lparr>ns_packets_sent = 0, ns_packets_received = 0, ns_bytes_sent = 0, ns_bytes_received = 0, ns_errors = 0\<rparr>,
      net_udp = [], net_next_udp_id = 1, net_tcp = [], net_tcp_isn = 1000000, net_listening = [], net_bound = []\<rparr>"

definition transmit :: "u8 list \<Rightarrow> net \<Rightarrow> net" where
  "transmit frame n = (if net_eth0 n = None then n else n\<lparr>net_tx := net_tx n @ [frame]\<rparr>)"

definition update_stats_tx :: "usize \<Rightarrow> net \<Rightarrow> net" where
  "update_stats_tx bytes n =
     n\<lparr>net_stats := (net_stats n)\<lparr>ns_packets_sent := ns_packets_sent (net_stats n) + 1,
                                  ns_bytes_sent := ns_bytes_sent (net_stats n) + bytes\<rparr>\<rparr>"

definition update_stats_rx :: "usize \<Rightarrow> net \<Rightarrow> net" where
  "update_stats_rx bytes n =
     n\<lparr>net_stats := (net_stats n)\<lparr>ns_packets_received := ns_packets_received (net_stats n) + 1,
                                  ns_bytes_received := ns_bytes_received (net_stats n) + bytes\<rparr>\<rparr>"

section \<open>Address resolution\<close>

definition ARP_CACHE_MAX :: nat where "ARP_CACHE_MAX = 128"
definition ARP_ENTRY_MAX_AGE :: u64 where "ARP_ENTRY_MAX_AGE = 300"
definition ARP_HTYPE_ETHERNET :: u16 where "ARP_HTYPE_ETHERNET = 1"
definition ARP_PTYPE_IPV4 :: u16 where "ARP_PTYPE_IPV4 = 0x0800"
definition ARP_OP_REQUEST :: u16 where "ARP_OP_REQUEST = 1"
definition ARP_OP_REPLY :: u16 where "ARP_OP_REPLY = 2"
definition ARP_PACKET_SIZE :: nat where "ARP_PACKET_SIZE = 28"

definition arp_do_tick :: "net \<Rightarrow> net" where
  "arp_do_tick n = n\<lparr>net_arp_tick := net_arp_tick n + 1\<rparr>"

definition arp_resolve :: "ipv4_address \<Rightarrow> net \<Rightarrow> mac_address option" where
  "arp_resolve ip n =
     (case bt_get (net_arp_cache n) ip of
        Some e \<Rightarrow> if net_arp_tick n - ae_timestamp e < ARP_ENTRY_MAX_AGE then Some (ae_mac e) else None
      | None \<Rightarrow> None)"

text \<open>The first entry with the smallest timestamp, as \<open>min_by_key\<close> returns it.\<close>

fun arp_oldest :: "(ipv4_address, arp_entry) btree_map \<Rightarrow> (ipv4_address \<times> arp_entry) option" where
  "arp_oldest [] = None"
| "arp_oldest (b # m) =
     (case arp_oldest m of
        None \<Rightarrow> Some b
      | Some b' \<Rightarrow> if ae_timestamp (snd b) \<le> ae_timestamp (snd b') then Some b else Some b')"

definition arp_update_cache :: "ipv4_address \<Rightarrow> mac_address \<Rightarrow> net \<Rightarrow> net" where
  "arp_update_cache ip mac n =
     (let cache = net_arp_cache n;
          cache2 = (if ARP_CACHE_MAX \<le> length cache \<and> bt_get cache ip = None
                    then case map_option fst (arp_oldest cache) of
                           Some key \<Rightarrow> bt_remove key cache | None \<Rightarrow> cache
                    else cache)
      in n\<lparr>net_arp_cache := bt_insert ip \<lparr>ae_mac = mac, ae_timestamp = net_arp_tick n\<rparr> cache2\<rparr>)"

definition build_arp_request :: "mac_address \<Rightarrow> ipv4_address \<Rightarrow> ipv4_address \<Rightarrow> u8 list" where
  "build_arp_request sender_mac sender_ip target_ip =
     be16 ARP_HTYPE_ETHERNET @ be16 ARP_PTYPE_IPV4 @ [6, 4] @ be16 ARP_OP_REQUEST @
     mac_bytes sender_mac @ ipv4_bytes sender_ip @ replicate 6 0 @ ipv4_bytes target_ip"

definition build_arp_reply :: "mac_address \<Rightarrow> ipv4_address \<Rightarrow> mac_address \<Rightarrow> ipv4_address \<Rightarrow> u8 list" where
  "build_arp_reply sender_mac sender_ip target_mac target_ip =
     be16 ARP_HTYPE_ETHERNET @ be16 ARP_PTYPE_IPV4 @ [6, 4] @ be16 ARP_OP_REPLY @
     mac_bytes sender_mac @ ipv4_bytes sender_ip @ mac_bytes target_mac @ ipv4_bytes target_ip"

definition send_arp_frame :: "u8 list \<Rightarrow> mac_address \<Rightarrow> mac_address \<Rightarrow> net \<Rightarrow> net" where
  "send_arp_frame arp_data src_mac dst_mac n =
     transmit (construct_frame dst_mac src_mac ETHERTYPE_ARP arp_data) n"

definition get_interface_ip :: "net \<Rightarrow> ipv4_address" where
  "get_interface_ip n = ic_ip_addr (net_interface n)"

definition get_interface_mac :: "net \<Rightarrow> mac_address" where
  "get_interface_mac n = (case net_eth0 n of Some mac \<Rightarrow> mac | None \<Rightarrow> MAC_ZERO)"

definition send_arp_request :: "ipv4_address \<Rightarrow> net \<Rightarrow> net" where
  "send_arp_request target_ip n =
     (let our_mac = get_interface_mac n;
          our_ip = get_interface_ip n
      in send_arp_frame (build_arp_request our_mac our_ip target_ip) our_mac MAC_BROADCAST n)"

definition process_arp_packet :: "u8 list \<Rightarrow> mac_address \<Rightarrow> net \<Rightarrow> (unit, kernel_error) result \<times> net" where
  "process_arp_packet data our_mac n =
     (if length data < ARP_PACKET_SIZE then (Err (KeInvalidArgument ''arp_packet'' ''too_short''), n)
      else let htype = u16_at data 0; ptype = u16_at data 2; hlen = data ! 4; plen = data ! 5;
               operation = u16_at data 6
           in if htype \<noteq> ARP_HTYPE_ETHERNET \<or> ptype \<noteq> ARP_PTYPE_IPV4 \<or> hlen \<noteq> 6 \<or> plen \<noteq> 4
              then (Err (KeInvalidArgument ''arp_format'' ''unsupported''), n)
              else let sender_mac = mac_at data 8; sender_ip = ipv4_at data 14;
                       target_ip = ipv4_at data 24;
                       n1 = arp_update_cache sender_ip sender_mac n
                   in if operation = ARP_OP_REQUEST then
                        let our_ip = get_interface_ip n1
                        in if target_ip = our_ip
                           then (Ok (), send_arp_frame (build_arp_reply our_mac our_ip sender_mac sender_ip)
                                          our_mac sender_mac n1)
                           else (Ok (), n1)
                      else (Ok (), n1))"

definition get_cache_entries :: "net \<Rightarrow> (ipv4_address \<times> mac_address) list" where
  "get_cache_entries n =
     map (\<lambda>(ip, e). (ip, ae_mac e))
       (filter (\<lambda>(ip, e). net_arp_tick n - ae_timestamp e < ARP_ENTRY_MAX_AGE) (net_arp_cache n))"

definition flush_cache :: "net \<Rightarrow> net" where
  "flush_cache n = n\<lparr>net_arp_cache := []\<rparr>"

section \<open>The IPv4 layer\<close>

definition set_interface_config :: "ipv4_address \<Rightarrow> ipv4_address \<Rightarrow> ipv4_address option \<Rightarrow> net \<Rightarrow> net" where
  "set_interface_config ip mask_addr gw n =
     n\<lparr>net_interface := \<lparr>ic_ip_addr = ip, ic_subnet_mask = mask_addr, ic_gateway = gw\<rparr>\<rparr>"

definition add_route :: "route_entry \<Rightarrow> net \<Rightarrow> net" where
  "add_route entry n = n\<lparr>net_routes := net_routes n @ [entry]\<rparr>"

definition route_matches :: "ipv4_address \<Rightarrow> route_entry \<Rightarrow> bool" where
  "route_matches dest r =
     (ipv4_to_u32 dest AND ipv4_to_u32 (re_netmask r) =
      ipv4_to_u32 (re_destination r) AND ipv4_to_u32 (re_netmask r))"

definition lookup_route :: "ipv4_address \<Rightarrow> net \<Rightarrow> route_entry option" where
  "lookup_route dest n = find (route_matches dest) (net_routes n)"

text \<open>What \<open>ip.rs\<close> and \<open>ethernet.rs\<close> call in the IPv6 layer.\<close>

record 'n ipv6_layer =
  v6_send :: "u8 list \<Rightarrow> ip_protocol \<Rightarrow> u8 list \<Rightarrow> 'n \<Rightarrow> (unit, kernel_error) result \<times> 'n"
  v6_process :: "u8 list \<Rightarrow> 'n \<Rightarrow> ((unit, kernel_error) result \<times> 'n) outcome"

definition ip_send_header :: "ipv4_address \<Rightarrow> ip_protocol \<Rightarrow> u8 list \<Rightarrow> net \<Rightarrow> ipv4_header" where
  "ip_send_header dest protocol data n =
     ipv4_calculate_checksum
       ((ipv4_header_new (get_interface_ip n) dest protocol)
          \<lparr>ih_total_length := of_nat (IPV4_MIN_SIZE + length data),
           ih_identification := net_ip_id n, ih_flags := 0x02\<rparr>)"

definition ip_send ::
  "net ipv6_layer \<Rightarrow> ip_address \<Rightarrow> ip_protocol \<Rightarrow> u8 list \<Rightarrow> net \<Rightarrow> (unit, kernel_error) result \<times> net" where
  "ip_send v6 dest protocol data n =
     (case dest of
        V4 dest_v4 \<Rightarrow>
          let header = ip_send_header dest_v4 protocol data n;
              n1 = n\<lparr>net_ip_id := net_ip_id n + 1\<rparr>;
              ip_packet = ipv4_to_bytes header @ data;
              (dst_mac, n2) = (if dest_v4 = IPV4_BROADCAST then (MAC_BROADCAST, n1)
                               else case arp_resolve dest_v4 n1 of
                                      Some mac \<Rightarrow> (mac, n1)
                                    | None \<Rightarrow> (MAC_BROADCAST, send_arp_request dest_v4 n1));
              src_mac = get_interface_mac n2;
              frame = construct_frame dst_mac src_mac ETHERTYPE_IPV4 ip_packet
          in (Ok (), update_stats_tx (ucast (ih_total_length header)) (transmit frame n2))
      | V6 dest_v6 \<Rightarrow> v6_send v6 dest_v6 protocol data n)"

section \<open>The ARP cache\<close>

definition arp_inv :: "net \<Rightarrow> bool" where
  "arp_inv n = (bt_wf (net_arp_cache n) \<and> length (net_arp_cache n) \<le> ARP_CACHE_MAX)"

lemma arp_oldest_in: "arp_oldest m = Some b \<Longrightarrow> b \<in> set m"
  by (induction m arbitrary: b) (auto split: option.splits if_splits)

lemma arp_oldest_None: "arp_oldest m = None \<longleftrightarrow> m = []"
  by (cases m) (auto split: option.split)

lemma arp_oldest_least: "arp_oldest m = Some b \<Longrightarrow> c \<in> set m \<Longrightarrow> ae_timestamp (snd b) \<le> ae_timestamp (snd c)"
proof (induction m arbitrary: b)
  case (Cons a m)
  then show ?case
    by (cases "arp_oldest m") (auto simp: arp_oldest_None split: if_splits intro: order.trans linear)
qed simp

lemma arp_update_inv:
  assumes "arp_inv n"
  shows "arp_inv (arp_update_cache ip mac n)"
proof (cases "ARP_CACHE_MAX \<le> length (net_arp_cache n) \<and> bt_get (net_arp_cache n) ip = None")
  case True
  have wf: "bt_wf (net_arp_cache n)" and len: "length (net_arp_cache n) = ARP_CACHE_MAX"
    using assms True by (auto simp: arp_inv_def)
  obtain b where b: "arp_oldest (net_arp_cache n) = Some b"
    using len by (cases "arp_oldest (net_arp_cache n)") (auto simp: arp_oldest_None ARP_CACHE_MAX_def)
  have "Suc (length (bt_remove (fst b) (net_arp_cache n))) = ARP_CACHE_MAX"
    using length_bt_remove [OF wf arp_oldest_in [OF b]] len by simp
  then show ?thesis using wf True b
    by (simp add: arp_update_cache_def arp_inv_def Let_def bt_wf_insert bt_wf_remove length_bt_insert)
next
  case False
  then show ?thesis using assms
    by (auto simp: arp_update_cache_def arp_inv_def Let_def bt_wf_insert length_bt_insert)
qed

lemma arp_resolve_update: "arp_resolve ip (arp_update_cache ip mac n) = Some mac"
  by (simp add: arp_resolve_def arp_update_cache_def Let_def bt_get_insert ARP_ENTRY_MAX_AGE_def)

lemma transmit_simps [simp]:
  "net_arp_cache (transmit f n) = net_arp_cache n" "net_arp_tick (transmit f n) = net_arp_tick n"
  "net_interface (transmit f n) = net_interface n" "net_eth0 (transmit f n) = net_eth0 n"
  "net_udp (transmit f n) = net_udp n" "net_tcp (transmit f n) = net_tcp n"
  "net_ip_id (transmit f n) = net_ip_id n" "net_listening (transmit f n) = net_listening n"
  "net_bound (transmit f n) = net_bound n"
  by (simp_all add: transmit_def)

lemma arp_parse_request:
  "process_arp_packet (build_arp_request smac sip tip) our_mac n =
     (let n1 = arp_update_cache sip smac n
      in (Ok (), if tip = get_interface_ip n1
                 then send_arp_frame (build_arp_reply our_mac tip smac sip) our_mac smac n1 else n1))"
  by (cases smac; cases sip; cases tip)
    (simp add: process_arp_packet_def build_arp_request_def ARP_PACKET_SIZE_def be16_def u16_at_def mac_at_def ipv4_at_def Let_def nth_append)

lemma arp_ops_differ: "ARP_OP_REPLY \<noteq> ARP_OP_REQUEST"
  by (simp add: ARP_OP_REPLY_def ARP_OP_REQUEST_def)

lemma arp_parse_reply:
  "process_arp_packet (build_arp_reply smac sip tmac tip) our_mac n = (Ok (), arp_update_cache sip smac n)"
  by (cases smac; cases sip; cases tmac; cases tip)
    (simp add: process_arp_packet_def build_arp_reply_def ARP_PACKET_SIZE_def be16_def u16_at_def mac_at_def ipv4_at_def Let_def arp_ops_differ)

end
