(* ===== verification/Net_Transport.thy ===== *)
theory Net_Transport
  imports Net_Stack
begin

text \<open>
  UDP (\<open>src/kernel/src/net/udp.rs\<close>), TCP (\<open>tcp.rs\<close>) and the dispatch of received frames
  (\<open>ethernet.rs\<close>). A received packet may make the kernel panic, so the receiving operations return an
  \<open>outcome\<close>. The pending connections of listening sockets (\<open>socket.rs\<close>) are here because TCP fills them.
\<close>

section \<open>UDP\<close>

definition udp_register_socket :: "usize \<Rightarrow> socket_addr \<Rightarrow> net \<Rightarrow> net" where
  "udp_register_socket socket_id local_addr n =
     n\<lparr>net_udp := bt_insert socket_id
         \<lparr>ub_local_addr = local_addr, ub_recv_queue = [], ub_max_queue_size = 64\<rparr> (net_udp n)\<rparr>"

definition udp_unregister_socket :: "usize \<Rightarrow> net \<Rightarrow> net" where
  "udp_unregister_socket socket_id n = n\<lparr>net_udp := bt_remove socket_id (net_udp n)\<rparr>"

text \<open>The queue is a \<open>Vec\<close>: \<open>push\<close> and \<open>pop\<close> both work at its end.\<close>

definition udp_receive_from ::
  "usize \<Rightarrow> u8 list \<Rightarrow> net \<Rightarrow> (nat \<times> socket_addr, kernel_error) result \<times> u8 list \<times> net" where
  "udp_receive_from socket_id buffer n =
     (case bt_get (net_udp n) socket_id of
        Some sb \<Rightarrow>
          if ub_recv_queue sb = [] then (Err KeWouldBlock, buffer, n)
          else let datagram = last (ub_recv_queue sb);
                   sb2 = sb\<lparr>ub_recv_queue := butlast (ub_recv_queue sb)\<rparr>;
                   copy_len = min (length buffer) (length (rd_data datagram))
               in (Ok (copy_len, rd_from datagram),
                   take copy_len (rd_data datagram) @ drop copy_len buffer,
                   n\<lparr>net_udp := bt_insert socket_id sb2 (net_udp n)\<rparr>)
      | None \<Rightarrow> (Err (KeInvalidArgument ''socket_id'' ''not_found''), buffer, n))"

text \<open>The search for the first socket that takes the datagram, in the order of the socket numbers.\<close>

fun udp_deliver ::
  "u16 \<Rightarrow> received_datagram \<Rightarrow> (usize, udp_socket_buffer) btree_map \<Rightarrow>
     (unit, kernel_error) result \<times> (usize, udp_socket_buffer) btree_map" where
  "udp_deliver port d [] = (Ok (), [])"
| "udp_deliver port d ((socket_id, sb) # socks) =
     (if sa_port (ub_local_addr sb) = port \<or> sa_port (ub_local_addr sb) = 0 then
        if length (ub_recv_queue sb) < ub_max_queue_size sb
        then (Ok (), (socket_id, sb\<lparr>ub_recv_queue := ub_recv_queue sb @ [d]\<rparr>) # socks)
        else (Err (KeResourceExhausted ''udp_queue''), (socket_id, sb) # socks)
      else let (r, socks2) = udp_deliver port d socks in (r, (socket_id, sb) # socks2))"

definition udp_process_packet ::
  "ip_address \<Rightarrow> ip_address \<Rightarrow> u8 list \<Rightarrow> net \<Rightarrow> ((unit, kernel_error) result \<times> net) outcome" where
  "udp_process_packet src_addr dst_addr data n =
     (if length data < UDP_SIZE then Done (Err (KeInvalidArgument ''udp_packet'' ''too_short''), n)
      else case udp_from_bytes data of
             Err e \<Rightarrow> Done (Err e, n)
           | Ok header \<Rightarrow>
               if length data < unat (uh_length header)
               then Done (Err (KeInvalidArgument ''udp_length'' ''mismatch''), n)
               else if unat (uh_length header) < UDP_SIZE then Panic
               else let payload = drop UDP_SIZE (take (unat (uh_length header)) data);
                        src = \<lparr>sa_ip = src_addr, sa_port = uh_source_port header\<rparr>;
                        (r, socks) = udp_deliver (uh_dest_port header)
                                       \<lparr>rd_data = payload, rd_from = src\<rparr> (net_udp n)
                    in Done (r, n\<lparr>net_udp := socks\<rparr>))"

definition udp_send_packet ::
  "net ipv6_layer \<Rightarrow> socket_addr \<Rightarrow> socket_addr \<Rightarrow> u8 list \<Rightarrow> net \<Rightarrow> (nat, kernel_error) result \<times> net" where
  "udp_send_packet v6 src dst data n =
     (let header = udp_calculate_checksum (sa_ip src) (sa_ip dst) data
                     (udp_header_new (sa_port src) (sa_port dst) (length data));
          packet = udp_to_bytes header @ data
      in case ip_send v6 (sa_ip dst) Udp packet n of
           (Ok u, n1) \<Rightarrow> (Ok (length data), n1)
         | (Err e, n1) \<Rightarrow> (Err e, n1))"

record udp_socket =
  us_local :: socket_addr
  us_remote :: "socket_addr option"
  us_bound :: bool
  us_socket_id :: usize

definition udp_socket_new :: "net \<Rightarrow> udp_socket \<times> net" where
  "udp_socket_new n =
     (\<lparr>us_local = \<lparr>sa_ip = V4 IPV4_ANY, sa_port = 0\<rparr>, us_remote = None, us_bound = False,
       us_socket_id = net_next_udp_id n\<rparr>, n\<lparr>net_next_udp_id := net_next_udp_id n + 1\<rparr>)"

definition udp_socket_drop :: "udp_socket \<Rightarrow> net \<Rightarrow> net" where
  "udp_socket_drop s n = (if us_bound s then udp_unregister_socket (us_socket_id s) n else n)"

definition udp_bind :: "socket_addr \<Rightarrow> udp_socket \<Rightarrow> net \<Rightarrow> (unit, kernel_error) result \<times> udp_socket \<times> net" where
  "udp_bind addr s n =
     (if us_bound s then (Err (KeInvalidState ''unbound'' ''bound''), s, n)
      else (Ok (), s\<lparr>us_local := addr, us_bound := True\<rparr>, udp_register_socket (us_socket_id s) addr n))"

definition udp_connect :: "socket_addr \<Rightarrow> udp_socket \<Rightarrow> (unit, kernel_error) result \<times> udp_socket" where
  "udp_connect addr s =
     (if \<not> us_bound s then (Err (KeInvalidState ''bound'' ''unbound''), s)
      else (Ok (), s\<lparr>us_remote := Some addr\<rparr>))"

text \<open>\<open>send_to\<close> computes a header and then hands the bare data to the IP layer.\<close>

definition udp_send_to ::
  "net ipv6_layer \<Rightarrow> u8 list \<Rightarrow> socket_addr \<Rightarrow> udp_socket \<Rightarrow> net \<Rightarrow> (nat, kernel_error) result \<times> net" where
  "udp_send_to v6 data dest s n =
     (if \<not> us_bound s then (Err (KeInvalidState ''bound'' ''unbound''), n)
      else let header = udp_calculate_checksum (sa_ip (us_local s)) (sa_ip dest) data
                          (udp_header_new (sa_port (us_local s)) (sa_port dest) (length data))
           in case ip_send v6 (sa_ip dest) Udp data n of
                (Ok u, n1) \<Rightarrow> (Ok (length data), n1)
              | (Err e, n1) \<Rightarrow> (Err e, n1))"

definition udp_send ::
  "net ipv6_layer \<Rightarrow> u8 list \<Rightarrow> udp_socket \<Rightarrow> net \<Rightarrow> (nat, kernel_error) result \<times> net" where
  "udp_send v6 data s n =
     (case us_remote s of
        Some remote \<Rightarrow> udp_send_to v6 data remote s n
      | None \<Rightarrow> (Err (KeInvalidState ''connected'' ''not_connected''), n))"

definition udp_recv_from ::
  "u8 list \<Rightarrow> udp_socket \<Rightarrow> net \<Rightarrow> (nat \<times> socket_addr, kernel_error) result \<times> u8 list \<times> net" where
  "udp_recv_from buffer s n =
     (if \<not> us_bound s then (Err (KeInvalidState ''bound'' ''unbound''), buffer, n)
      else udp_receive_from (us_socket_id s) buffer n)"

definition udp_recv ::
  "u8 list \<Rightarrow> udp_socket \<Rightarrow> net \<Rightarrow> (nat, kernel_error) result \<times> u8 list \<times> net" where
  "udp_recv buffer s n =
     (case udp_recv_from buffer s n of
        (Ok (len, from), buffer2, n2) \<Rightarrow> (Ok len, buffer2, n2)
      | (Err e, buffer2, n2) \<Rightarrow> (Err e, buffer2, n2))"

section \<open>Connections that wait to be accepted\<close>

fun queue_pending ::
  "socket_addr \<Rightarrow> pending_connection \<Rightarrow> listening_socket_entry list \<Rightarrow>
     (unit, kernel_error) result \<times> listening_socket_entry list" where
  "queue_pending addr pc [] = (Err (KeInvalidArgument ''listen_addr'' ''not_listening''), [])"
| "queue_pending addr pc (entry # es) =
     (if le_addr entry = addr then
        if length (le_pending entry) < unat (le_backlog entry)
        then (Ok (), entry\<lparr>le_pending := le_pending entry @ [pc]\<rparr> # es)
        else (Err (KeResourceExhausted ''listen_backlog''), entry # es)
      else let (r, es2) = queue_pending addr pc es in (r, entry # es2))"

definition queue_pending_connection ::
  "socket_addr \<Rightarrow> socket_addr \<Rightarrow> u32 \<Rightarrow> net \<Rightarrow> (unit, kernel_error) result \<times> net" where
  "queue_pending_connection addr remote seq_num n =
     (let (r, es) = queue_pending addr \<lparr>pc_remote_addr = remote, pc_seq_num = seq_num\<rparr> (net_listening n)
      in (r, n\<lparr>net_listening := es\<rparr>))"

section \<open>TCP\<close>

definition TCP_MSS :: nat where "TCP_MSS = 1460"
definition TCP_HEADER_SIZE :: nat where "TCP_HEADER_SIZE = 20"
definition TCP_FIN :: u8 where "TCP_FIN = 0x01"
definition TCP_SYN :: u8 where "TCP_SYN = 0x02"
definition TCP_RST :: u8 where "TCP_RST = 0x04"
definition TCP_PSH :: u8 where "TCP_PSH = 0x08"
definition TCP_ACK :: u8 where "TCP_ACK = 0x10"

definition tcp_has :: "u8 \<Rightarrow> u8 \<Rightarrow> bool" where
  "tcp_has flags flag = (flags AND flag \<noteq> 0)"

definition tcp_connection_new :: "socket_addr \<Rightarrow> socket_addr \<Rightarrow> tcp_connection" where
  "tcp_connection_new loc remote =
     \<lparr>tc_local = loc, tc_remote = remote, tc_state = Closed, tc_seq_num = 0, tc_ack_num = 0,
      tc_window_size = 65535\<rparr>"

definition build_tcp_segment :: "u16 \<Rightarrow> u16 \<Rightarrow> u32 \<Rightarrow> u32 \<Rightarrow> u8 \<Rightarrow> u16 \<Rightarrow> u8 list \<Rightarrow> u8 list" where
  "build_tcp_segment src_port dst_port seq_num ack_num flags window payload =
     be16 src_port @ be16 dst_port @ be32 seq_num @ be32 ack_num @ [push_bit 4 5, flags] @
     be16 window @ be16 0 @ be16 0 @ payload"

definition send_tcp_via_ip ::
  "net ipv6_layer \<Rightarrow> ip_address \<Rightarrow> u8 list \<Rightarrow> net \<Rightarrow> (unit, kernel_error) result \<times> net" where
  "send_tcp_via_ip v6 dest segment n = ip_send v6 dest Tcp segment n"

definition generate_initial_seq :: "net \<Rightarrow> u32 \<times> net" where
  "generate_initial_seq n = (net_tcp_isn n, n\<lparr>net_tcp_isn := net_tcp_isn n + 1\<rparr>)"

definition conn_segment :: "tcp_connection \<Rightarrow> u8 \<Rightarrow> u8 list \<Rightarrow> u8 list" where
  "conn_segment c flags payload =
     build_tcp_segment (sa_port (tc_local c)) (sa_port (tc_remote c)) (tc_seq_num c) (tc_ack_num c)
       flags (tc_window_size c) payload"

definition tcp_connect ::
  "net ipv6_layer \<Rightarrow> tcp_connection \<Rightarrow> net \<Rightarrow> (unit, kernel_error) result \<times> tcp_connection \<times> net" where
  "tcp_connect v6 c n =
     (if tc_state c \<noteq> Closed then (Err (KeInvalidState ''Closed'' ''Other''), c, n)
      else let (isn, n1) = generate_initial_seq n;
               c1 = c\<lparr>tc_seq_num := isn\<rparr>;
               syn = build_tcp_segment (sa_port (tc_local c1)) (sa_port (tc_remote c1)) (tc_seq_num c1) 0
                       TCP_SYN (tc_window_size c1) []
           in case send_tcp_via_ip v6 (sa_ip (tc_remote c1)) syn n1 of
                (Ok u, n2) \<Rightarrow> (Ok (), c1\<lparr>tc_seq_num := tc_seq_num c1 + 1, tc_state := SynSent\<rparr>, n2)
              | (Err e, n2) \<Rightarrow> (Err e, c1, n2))"

definition tcp_listen :: "tcp_connection \<Rightarrow> (unit, kernel_error) result \<times> tcp_connection" where
  "tcp_listen c =
     (if tc_state c \<noteq> Closed then (Err (KeInvalidState ''Closed'' ''Other''), c)
      else (Ok (), c\<lparr>tc_state := Listen\<rparr>))"

function tcp_send_loop ::
  "net ipv6_layer \<Rightarrow> u8 list \<Rightarrow> tcp_connection \<Rightarrow> net \<Rightarrow> tcp_connection \<times> net" where
  "tcp_send_loop v6 data c n =
     (if data = [] then (c, n)
      else let chunk = take TCP_MSS data;
               flags = TCP_ACK OR (if length data \<le> TCP_MSS then TCP_PSH else 0);
               seg = conn_segment c flags chunk;
               (r, n1) = send_tcp_via_ip v6 (sa_ip (tc_remote c)) seg n
           in tcp_send_loop v6 (drop TCP_MSS data)
                (c\<lparr>tc_seq_num := tc_seq_num c + of_nat (length chunk)\<rparr>) n1)"
  by pat_completeness auto
termination
  by (relation "measure (\<lambda>(v6, data, c, n). length data)") (auto simp: TCP_MSS_def)

declare tcp_send_loop.simps [simp del]

definition tcp_send ::
  "net ipv6_layer \<Rightarrow> u8 list \<Rightarrow> tcp_connection \<Rightarrow> net \<Rightarrow> (nat, kernel_error) result \<times> tcp_connection \<times> net" where
  "tcp_send v6 data c n =
     (if tc_state c \<noteq> Established then (Err (KeInvalidState ''Established'' ''Other''), c, n)
      else let (c1, n1) = tcp_send_loop v6 data c n in (Ok (length data), c1, n1))"

definition tcp_recv :: "tcp_connection \<Rightarrow> (nat, kernel_error) result" where
  "tcp_recv c = (if tc_state c \<noteq> Established then Err (KeInvalidState ''Established'' ''Other'') else Ok 0)"

definition tcp_close ::
  "net ipv6_layer \<Rightarrow> tcp_connection \<Rightarrow> net \<Rightarrow> (unit, kernel_error) result \<times> tcp_connection \<times> net" where
  "tcp_close v6 c n =
     (case tc_state c of
        Established \<Rightarrow>
          let (r, n1) = send_tcp_via_ip v6 (sa_ip (tc_remote c)) (conn_segment c (TCP_FIN OR TCP_ACK) []) n
          in (Ok (), c\<lparr>tc_seq_num := tc_seq_num c + 1, tc_state := FinWait1\<rparr>, n1)
      | CloseWait \<Rightarrow>
          let (r, n1) = send_tcp_via_ip v6 (sa_ip (tc_remote c)) (conn_segment c (TCP_FIN OR TCP_ACK) []) n
          in (Ok (), c\<lparr>tc_seq_num := tc_seq_num c + 1, tc_state := LastAck\<rparr>, n1)
      | _ \<Rightarrow> (Err (KeInvalidState ''Established or CloseWait'' ''Other''), c, n))"

text \<open>The acknowledgement that the state machine sends in several of its branches.\<close>

definition send_ack :: "net ipv6_layer \<Rightarrow> tcp_connection \<Rightarrow> net \<Rightarrow> net" where
  "send_ack v6 c n = snd (send_tcp_via_ip v6 (sa_ip (tc_remote c)) (conn_segment c TCP_ACK []) n)"

definition process_tcp_state_transition ::
  "net ipv6_layer \<Rightarrow> u8 \<Rightarrow> u32 \<Rightarrow> u8 list \<Rightarrow> tcp_socket_state \<Rightarrow> net \<Rightarrow> tcp_socket_state \<times> net" where
  "process_tcp_state_transition v6 flags seq_num payload st n =
     (let c = ts_connection st in
      case tc_state c of
        SynSent \<Rightarrow>
          if tcp_has flags TCP_SYN \<and> tcp_has flags TCP_ACK then
            let c1 = c\<lparr>tc_ack_num := seq_num + 1, tc_state := Established\<rparr>
            in (st\<lparr>ts_recv_seq := seq_num + 1, ts_connection := c1\<rparr>, send_ack v6 c1 n)
          else (st, n)
      | SynReceived \<Rightarrow>
          if tcp_has flags TCP_ACK then (st\<lparr>ts_connection := c\<lparr>tc_state := Established\<rparr>\<rparr>, n) else (st, n)
      | Established \<Rightarrow>
          let (st1, n1) =
                (if payload \<noteq> [] then
                   let rs = seq_num + of_nat (length payload); c1 = c\<lparr>tc_ack_num := rs\<rparr>
                   in (st\<lparr>ts_recv_buffer := ts_recv_buffer st @ payload, ts_recv_seq := rs, ts_connection := c1\<rparr>,
                       send_ack v6 c1 n)
                 else (st, n))
          in if tcp_has flags TCP_FIN then
               let rs = ts_recv_seq st1 + 1;
                   c2 = (ts_connection st1)\<lparr>tc_ack_num := rs, tc_state := CloseWait\<rparr>
               in (st1\<lparr>ts_recv_seq := rs, ts_connection := c2\<rparr>, send_ack v6 c2 n1)
             else (st1, n1)
      | FinWait1 \<Rightarrow>
          if tcp_has flags TCP_FIN \<and> tcp_has flags TCP_ACK then
            let c1 = c\<lparr>tc_ack_num := seq_num + 1, tc_state := TimeWait\<rparr>
            in (st\<lparr>ts_connection := c1\<rparr>, send_ack v6 c1 n)
          else if tcp_has flags TCP_ACK then (st\<lparr>ts_connection := c\<lparr>tc_state := FinWait2\<rparr>\<rparr>, n)
          else (st, n)
      | FinWait2 \<Rightarrow>
          if tcp_has flags TCP_FIN then
            let c1 = c\<lparr>tc_ack_num := seq_num + 1, tc_state := TimeWait\<rparr>
            in (st\<lparr>ts_connection := c1\<rparr>, send_ack v6 c1 n)
          else (st, n)
      | LastAck \<Rightarrow>
          if tcp_has flags TCP_ACK then (st\<lparr>ts_connection := c\<lparr>tc_state := Closed\<rparr>\<rparr>, n) else (st, n)
      | TimeWait \<Rightarrow> if tcp_has flags TCP_FIN then (st, send_ack v6 c n) else (st, n)
      | _ \<Rightarrow> (st, n))"

definition transmit_data :: "usize \<Rightarrow> u8 list \<Rightarrow> socket_addr \<Rightarrow> net \<Rightarrow> net" where
  "transmit_data socket_id data remote n =
     (let (st, n1) =
            (case bt_get (net_tcp n) socket_id of
               Some st \<Rightarrow> (st, n)
             | None \<Rightarrow>
                 let (isn, n1) = generate_initial_seq n
                 in (\<lparr>ts_connection = tcp_connection_new \<lparr>sa_ip = V4 IPV4_ANY, sa_port = 0\<rparr> remote,
                      ts_send_buffer = [], ts_recv_buffer = [], ts_send_seq = isn, ts_recv_seq = 0\<rparr>, n1));
          c1 = (ts_connection st)\<lparr>tc_remote := remote\<rparr>;
          c2 = (if tc_state c1 = Closed then c1\<lparr>tc_state := Established\<rparr> else c1);
          st2 = st\<lparr>ts_connection := c2, ts_send_seq := ts_send_seq st + of_nat (length data), ts_send_buffer := []\<rparr>
      in n1\<lparr>net_tcp := bt_insert socket_id st2 (net_tcp n1)\<rparr>)"

definition receive_data :: "usize \<Rightarrow> u8 list \<Rightarrow> net \<Rightarrow> nat \<times> u8 list \<times> net" where
  "receive_data socket_id buffer n =
     (case bt_get (net_tcp n) socket_id of
        Some st \<Rightarrow>
          if tc_state (ts_connection st) \<noteq> Established then (0, buffer, n)
          else let avail = length (ts_recv_buffer st)
               in if 0 < avail then
                    (avail, buffer @ ts_recv_buffer st,
                     n\<lparr>net_tcp := bt_insert socket_id
                         (st\<lparr>ts_recv_buffer := [], ts_recv_seq := ts_recv_seq st + of_nat avail\<rparr>) (net_tcp n)\<rparr>)
                  else (0, buffer, n)
      | None \<Rightarrow> (0, buffer, n))"

definition close_connection :: "usize \<Rightarrow> net \<Rightarrow> net" where
  "close_connection socket_id n = n\<lparr>net_tcp := bt_remove socket_id (net_tcp n)\<rparr>"

text \<open>The connection that an incoming segment belongs to, with its number.\<close>

definition tcp_find ::
  "socket_addr \<Rightarrow> u16 \<Rightarrow> (usize, tcp_socket_state) btree_map \<Rightarrow> (usize \<times> tcp_socket_state) option" where
  "tcp_find remote dst_port = find (\<lambda>(socket_id, st).
     tc_remote (ts_connection st) = remote \<or>
     tc_state (ts_connection st) = Listen \<and> sa_port (tc_local (ts_connection st)) = dst_port)"

definition tcp_process_packet ::
  "net ipv6_layer \<Rightarrow> ip_address \<Rightarrow> ip_address \<Rightarrow> u8 list \<Rightarrow> net \<Rightarrow> (unit, kernel_error) result \<times> net" where
  "tcp_process_packet v6 src_addr dst_addr data n =
     (if length data < TCP_HEADER_SIZE then (Err (KeInvalidArgument ''tcp_packet'' ''too_short''), n)
      else let src_port = u16_at data 0; dst_port = u16_at data 2;
               seq_num = u32_at data 4; ack_num = u32_at data 8;
               data_offset = unat (drop_bit 4 (data ! 12) * 4);
               flags = data ! 13;
               payload = (if data_offset < length data then drop data_offset data else []);
               remote = \<lparr>sa_ip = src_addr, sa_port = src_port\<rparr>
           in case tcp_find remote dst_port (net_tcp n) of
                Some (socket_id, st) \<Rightarrow>
                  if tcp_has flags TCP_SYN \<and> \<not> tcp_has flags TCP_ACK \<and> tc_state (ts_connection st) = Listen
                  then (Ok (), snd (queue_pending_connection (tc_local (ts_connection st)) remote seq_num n))
                  else let (st2, n2) = process_tcp_state_transition v6 flags seq_num payload st n
                       in (Ok (), n2\<lparr>net_tcp := bt_insert socket_id st2 (net_tcp n2)\<rparr>)
              | None \<Rightarrow>
                  if tcp_has flags TCP_RST then (Ok (), n)
                  else (Ok (), snd (send_tcp_via_ip v6 src_addr
                          (build_tcp_segment dst_port src_port ack_num (seq_num + of_nat (length payload))
                             (TCP_RST OR TCP_ACK) 0 []) n)))"

section \<open>Dispatch of received frames\<close>

definition dispatch_ipv4 ::
  "net ipv6_layer \<Rightarrow> u8 list \<Rightarrow> net \<Rightarrow> ((unit, kernel_error) result \<times> net) outcome" where
  "dispatch_ipv4 v6 payload n =
     (if length payload < IPV4_MIN_SIZE then Done (Ok (), n)
      else case ipv4_from_bytes payload of
             Err e \<Rightarrow> Done (Err e, n)
           | Ok ip_header \<Rightarrow>
               let header_len = unat (ih_ihl ip_header) * 4
               in if length payload < header_len then Done (Ok (), n)
                  else let ip_payload = drop header_len payload;
                           src = V4 (ih_source ip_header); dst = V4 (ih_destination ip_header)
                       in if ih_protocol ip_header = 6
                          then Done (Ok (), snd (tcp_process_packet v6 src dst ip_payload n))
                          else if ih_protocol ip_header = 17
                          then (case udp_process_packet src dst ip_payload n of
                                  Panic \<Rightarrow> Panic | Done (r, n1) \<Rightarrow> Done (Ok (), n1))
                          else Done (Ok (), n))"

definition dispatch_frame ::
  "net ipv6_layer \<Rightarrow> u8 list \<Rightarrow> mac_address \<Rightarrow> net \<Rightarrow> ((unit, kernel_error) result \<times> net) outcome" where
  "dispatch_frame v6 data our_mac n =
     (case parse_frame data of
        Err e \<Rightarrow> Done (Err e, n)
      | Ok frame \<Rightarrow>
          if \<not> is_for_us (ef_dst_mac frame) our_mac then Done (Ok (), n)
          else if ef_ethertype frame = ETHERTYPE_ARP then Done (process_arp_packet (ef_payload frame) our_mac n)
          else if ef_ethertype frame = ETHERTYPE_IPV4 then dispatch_ipv4 v6 (ef_payload frame) n
          else if ef_ethertype frame = ETHERTYPE_IPV6 then v6_process v6 (ef_payload frame) n
          else Done (Ok (), n))"

section \<open>From one host to the other\<close>

lemma ip_send_header_ok: "ipv4_header_ok (ip_send_header d pr p n)"
  by (simp add: ip_send_header_def ipv4_header_ok_def ipv4_calculate_checksum_def ipv4_header_new_def Let_def)

lemma ip_send_header_fields [simp]:
  "ih_ihl (ip_send_header d pr p n) = 5" "ih_protocol (ip_send_header d pr p n) = protocol_number pr"
  "ih_source (ip_send_header d pr p n) = get_interface_ip n" "ih_destination (ip_send_header d pr p n) = d"
  by (simp_all add: ip_send_header_def ipv4_calculate_checksum_def ipv4_header_new_def Let_def)

text \<open>The hardware address that a packet for \<open>d\<close> is sent to.\<close>

definition ip_dst_mac :: "ipv4_address \<Rightarrow> net \<Rightarrow> mac_address" where
  "ip_dst_mac d n =
     (if d = IPV4_BROADCAST then MAC_BROADCAST
      else case arp_resolve d n of Some mac \<Rightarrow> mac | None \<Rightarrow> MAC_BROADCAST)"

lemma arp_resolve_ip_id [simp]: "arp_resolve d (n\<lparr>net_ip_id := i\<rparr>) = arp_resolve d n"
  by (simp add: arp_resolve_def split: option.split)

lemma send_arp_request_simps [simp]:
  "net_eth0 (send_arp_request d n) = net_eth0 n" "net_tcp (send_arp_request d n) = net_tcp n"
  "net_udp (send_arp_request d n) = net_udp n" "net_interface (send_arp_request d n) = net_interface n"
  "net_arp_cache (send_arp_request d n) = net_arp_cache n" "net_arp_tick (send_arp_request d n) = net_arp_tick n"
  "net_listening (send_arp_request d n) = net_listening n" "net_bound (send_arp_request d n) = net_bound n"
  by (simp_all add: send_arp_request_def send_arp_frame_def Let_def)

lemma update_stats_tx_simps [simp]:
  "net_eth0 (update_stats_tx k n) = net_eth0 n" "net_tcp (update_stats_tx k n) = net_tcp n"
  "net_udp (update_stats_tx k n) = net_udp n" "net_interface (update_stats_tx k n) = net_interface n"
  "net_arp_cache (update_stats_tx k n) = net_arp_cache n" "net_arp_tick (update_stats_tx k n) = net_arp_tick n"
  "net_tx (update_stats_tx k n) = net_tx n" "net_listening (update_stats_tx k n) = net_listening n"
  "net_bound (update_stats_tx k n) = net_bound n"
  by (simp_all add: update_stats_tx_def)

lemma ip_send_frame:
  assumes "net_eth0 n = Some mac"
  shows "fst (ip_send v6 (V4 d) pr p n) = Ok ()"
    and "last (net_tx (snd (ip_send v6 (V4 d) pr p n))) =
      construct_frame (ip_dst_mac d n) mac ETHERTYPE_IPV4 (ipv4_to_bytes (ip_send_header d pr p n) @ p)"
    and "net_tx (snd (ip_send v6 (V4 d) pr p n)) \<noteq> []"
    and "arp_resolve d n = Some m \<Longrightarrow> net_tx (snd (ip_send v6 (V4 d) pr p n)) = net_tx n @
      [construct_frame (ip_dst_mac d n) mac ETHERTYPE_IPV4 (ipv4_to_bytes (ip_send_header d pr p n) @ p)]"
  using assms
  by (auto simp: ip_send_def Let_def ip_dst_mac_def transmit_def get_interface_mac_def split: option.split)

lemma ip_send_keeps [simp]:
  "net_eth0 (snd (ip_send v6 (V4 d) pr p n)) = net_eth0 n"
  "net_tcp (snd (ip_send v6 (V4 d) pr p n)) = net_tcp n"
  "net_udp (snd (ip_send v6 (V4 d) pr p n)) = net_udp n"
  "net_interface (snd (ip_send v6 (V4 d) pr p n)) = net_interface n"
  "arp_resolve x (snd (ip_send v6 (V4 d) pr p n)) = arp_resolve x n"
  by (auto simp: ip_send_def Let_def arp_resolve_def split: option.split)

text \<open>What the receiver of the frame does: it hands the payload to the protocol of the sender.\<close>

lemma ipv4_frame_dispatch:
  assumes "is_for_us m mac_b"
  shows "dispatch_frame v6 (construct_frame m mac ETHERTYPE_IPV4 (ipv4_to_bytes (ip_send_header d pr p n) @ p)) mac_b b =
    (case pr of
       Tcp \<Rightarrow> Done (Ok (), snd (tcp_process_packet v6 (V4 (get_interface_ip n)) (V4 d) p b))
     | Udp \<Rightarrow> (case udp_process_packet (V4 (get_interface_ip n)) (V4 d) p b of
                 Panic \<Rightarrow> Panic | Done (r, b1) \<Rightarrow> Done (Ok (), b1))
     | Icmp \<Rightarrow> Done (Ok (), b))"
  using assms
  by (cases pr) (simp_all add: dispatch_frame_def parse_construct dispatch_ipv4_def IPV4_MIN_SIZE_def
      ipv4_from_to ip_send_header_ok Let_def ETHERTYPE_ARP_def ETHERTYPE_IPV4_def)

section \<open>UDP datagrams\<close>

lemma udp_deliver_first:
  assumes "\<forall>(k, s) \<in> set pre. sa_port (ub_local_addr s) \<noteq> port \<and> sa_port (ub_local_addr s) \<noteq> 0"
    and "sa_port (ub_local_addr sb) = port \<or> sa_port (ub_local_addr sb) = 0"
  shows "udp_deliver port d (pre @ (k, sb) # post) =
    (if length (ub_recv_queue sb) < ub_max_queue_size sb
     then (Ok (), pre @ (k, sb\<lparr>ub_recv_queue := ub_recv_queue sb @ [d]\<rparr>) # post)
     else (Err (KeResourceExhausted ''udp_queue''), pre @ (k, sb) # post))"
  using assms by (induction pre) (auto simp: Let_def split: prod.split if_splits)

lemma udp_process_built:
  assumes "length data \<le> 65527"
  shows "udp_process_packet src dst
      (udp_to_bytes (udp_calculate_checksum s' d' data (udp_header_new sp dp (length data))) @ data) b =
    (let (r, socks) = udp_deliver dp \<lparr>rd_data = data, rd_from = \<lparr>sa_ip = src, sa_port = sp\<rparr>\<rparr> (net_udp b)
     in Done (r, b\<lparr>net_udp := socks\<rparr>))"
proof -
  let ?h = "udp_calculate_checksum s' d' data (udp_header_new sp dp (length data))"
  have f: "uh_source_port ?h = sp" "uh_dest_port ?h = dp" "uh_length ?h = of_nat (8 + length data)"
    by (simp_all add: udp_calculate_checksum_def udp_header_new_def Let_def UDP_SIZE_def)
  have "unat (of_nat (8 + length data) :: u16) = 8 + length data"
    using assms by (simp add: unat_of_nat del: of_nat_add)
  then show ?thesis using f
    by (simp add: udp_process_packet_def UDP_SIZE_def udp_from_to Let_def)
qed


text \<open>A received frame whose UDP header has a length field below 8 makes the kernel panic.\<close>

lemma udp_short_length_panics:
  assumes "8 \<le> length data" and "unat (u16_at data 4) < 8"
  shows "udp_process_packet src dst data b = Panic"
  using assms by (simp add: udp_process_packet_def UDP_SIZE_def udp_from_bytes_def)

text \<open>
  C36. \<open>send_to\<close> of a bound UDP socket sends the data without the header that it has computed, so the
  receiver takes the first bytes of the data for one: when the data has at least 8 bytes and the fifth
  and sixth of them are a number below 8, the receiving kernel panics. Any host that can send a packet
  can thus stop the kernel.
\<close>

theorem udp_send_to_panics_receiver:
  assumes "net_eth0 a = Some mac_a" and "is_for_us (ip_dst_mac ip_b a) mac_b"
    and "us_bound s" and "8 \<le> length data" and "unat (u16_at data 4) < 8"
  shows "fst (udp_send_to v6 data \<lparr>sa_ip = V4 ip_b, sa_port = dp\<rparr> s a) = Ok (length data) \<and>
    dispatch_frame v6 (last (net_tx (snd (udp_send_to v6 data \<lparr>sa_ip = V4 ip_b, sa_port = dp\<rparr> s a)))) mac_b b =
      Panic"
proof -
  have send: "udp_send_to v6 data \<lparr>sa_ip = V4 ip_b, sa_port = dp\<rparr> s a =
      (Ok (length data), snd (ip_send v6 (V4 ip_b) Udp data a))"
    using ip_send_frame(1) [OF assms(1), of v6 ip_b Udp data] assms(3)
    by (cases "ip_send v6 (V4 ip_b) Udp data a") (simp add: udp_send_to_def)
  show ?thesis
    unfolding send fst_conv snd_conv ip_send_frame(2) [OF assms(1)]
    using ipv4_frame_dispatch [OF assms(2), of v6 mac_a ip_b Udp data a b]
    by (simp add: udp_short_length_panics [OF assms(4,5)])
qed

section \<open>Address resolution\<close>

lemma is_for_us_self: "is_for_us m m" "is_for_us MAC_BROADCAST m"
  by (simp_all add: is_for_us_def is_broadcast_def)

lemma dispatch_arp:
  "is_for_us dst mac \<Longrightarrow>
     dispatch_frame v6 (construct_frame dst src ETHERTYPE_ARP p) mac n = Done (process_arp_packet p mac n)"
  by (simp add: dispatch_frame_def parse_construct)

lemma arp_inv_transmit [simp]: "arp_inv (transmit f n) = arp_inv n"
  by (simp add: arp_inv_def)

lemma arp_resolve_transmit [simp]: "arp_resolve ip (transmit f n) = arp_resolve ip n"
  by (simp add: arp_resolve_def split: option.split)

lemma arp_update_keeps [simp]:
  "net_eth0 (arp_update_cache ip m n) = net_eth0 n" "net_interface (arp_update_cache ip m n) = net_interface n"
  "net_tx (arp_update_cache ip m n) = net_tx n"
  by (simp_all add: arp_update_cache_def Let_def)

text \<open>
  C22. Address resolution between two hosts on one network. Host A asks for the address of host B; B,
  which has that address, answers the frame; A receives the answer. Then A resolves the address of B to
  B's hardware address and B resolves that of A, and both caches stay within their limit.
\<close>

theorem arp_exchange_resolves:
  assumes a: "net_eth0 a = Some mac_a" "arp_inv a" and b: "net_eth0 b = Some mac_b" "arp_inv b"
  shows "\<exists>b1 a1.
    dispatch_frame v6 (last (net_tx (send_arp_request (get_interface_ip b) a))) mac_b b = Done (Ok (), b1) \<and>
    dispatch_frame v6 (last (net_tx b1)) mac_a (send_arp_request (get_interface_ip b) a) = Done (Ok (), a1) \<and>
    arp_resolve (get_interface_ip b) a1 = Some mac_b \<and> arp_resolve (get_interface_ip a) b1 = Some mac_a \<and>
    arp_inv a1 \<and> arp_inv b1"
proof -
  let ?ipb = "get_interface_ip b" and ?ipa = "get_interface_ip a"
  let ?a = "send_arp_request ?ipb a"
  let ?req = "construct_frame MAC_BROADCAST mac_a ETHERTYPE_ARP (build_arp_request mac_a ?ipa ?ipb)"
  let ?rep = "construct_frame mac_a mac_b ETHERTYPE_ARP (build_arp_reply mac_b ?ipb mac_a ?ipa)"
  let ?b1 = "transmit ?rep (arp_update_cache ?ipa mac_a b)"
  let ?a1 = "arp_update_cache ?ipb mac_b ?a"
  have ta: "net_tx ?a = net_tx a @ [?req]"
    using a(1) by (simp add: send_arp_request_def send_arp_frame_def transmit_def get_interface_mac_def Let_def)
  have tb: "net_tx ?b1 = net_tx b @ [?rep]" using b(1) by (simp add: transmit_def)
  have "get_interface_ip (arp_update_cache ?ipa mac_a b) = ?ipb" by (simp add: get_interface_ip_def)
  then have "dispatch_frame v6 (last (net_tx ?a)) mac_b b = Done (Ok (), ?b1)"
    using dispatch_arp [OF is_for_us_self(2)]
    by (simp add: ta arp_parse_request send_arp_frame_def Let_def)
  moreover have "dispatch_frame v6 (last (net_tx ?b1)) mac_a ?a = Done (Ok (), ?a1)"
    using dispatch_arp [OF is_for_us_self(1)] by (simp add: tb arp_parse_reply)
  moreover have "arp_resolve ?ipb ?a1 = Some mac_b" by (rule arp_resolve_update)
  moreover have "arp_resolve ?ipa ?b1 = Some mac_a" by (simp add: arp_resolve_update)
  moreover have "arp_inv ?a" using a(2) by (simp add: arp_inv_def)
  then have "arp_inv ?a1" by (rule arp_update_inv)
  moreover have "arp_inv ?b1" using b(2) by (simp add: arp_update_inv)
  ultimately show ?thesis by blast
qed

section \<open>TCP streams\<close>

lemma bt_insert_mid:
  assumes "bt_wf (pre @ (k, v) # post)"
  shows "bt_insert k v' (pre @ (k, v) # post) = pre @ (k, v') # post"
  using assms by (induction pre) (auto simp: bt_wf_def)

lemma tcp_find_mid:
  assumes "\<forall>(j, s) \<in> set pre. tc_remote (ts_connection s) \<noteq> r \<and> tc_state (ts_connection s) \<noteq> Listen"
    and "tc_remote (ts_connection st) = r"
  shows "tcp_find r port (pre @ (k, st) # post) = Some (k, st)"
  using assms unfolding tcp_find_def by (induction pre) auto

lemma segment_fields:
  assumes "seg = build_tcp_segment sp dp sq ak fl w payload"
  shows "length seg = 20 + length payload" "u16_at seg 0 = sp" "u16_at seg 2 = dp" "u32_at seg 4 = sq"
    "u32_at seg 8 = ak" "unat (drop_bit 4 (seg ! 12) * 4) = 20" "seg ! 13 = fl" "drop 20 seg = payload"
  unfolding assms
  by (simp_all add: build_tcp_segment_def u16_at_def u32_at_def be16_def be32_def)

fun dispatch_frames :: "net ipv6_layer \<Rightarrow> u8 list list \<Rightarrow> mac_address \<Rightarrow> net \<Rightarrow> net outcome" where
  "dispatch_frames v6 [] mac n = Done n"
| "dispatch_frames v6 (f # fs) mac n =
     (case dispatch_frame v6 f mac n of Panic \<Rightarrow> Panic | Done (r, n1) \<Rightarrow> dispatch_frames v6 fs mac n1)"

text \<open>Host \<open>n\<close> has an established connection, number \<open>k\<close>, with the given remote end.\<close>

definition tcp_open :: "usize \<Rightarrow> socket_addr \<Rightarrow> u8 list \<Rightarrow> net \<Rightarrow> bool" where
  "tcp_open k r received n =
     (bt_wf (net_tcp n) \<and> (\<exists>pre st post. net_tcp n = pre @ (k, st) # post \<and>
        (\<forall>(j, s) \<in> set pre. tc_remote (ts_connection s) \<noteq> r \<and> tc_state (ts_connection s) \<noteq> Listen) \<and>
        tc_remote (ts_connection st) = r \<and> tc_state (ts_connection st) = Established \<and>
        ts_recv_buffer st = received))"

lemma send_ack_keeps [simp]:
  "sa_ip (tc_remote c) = V4 ip \<Longrightarrow> net_tcp (send_ack v6 c n) = net_tcp n"
  by (simp add: send_ack_def send_tcp_via_ip_def)

text \<open>A data segment from the remote end is appended to the received data.\<close>

lemma tcp_data_segment:
  assumes "tcp_open k \<lparr>sa_ip = V4 ip_a, sa_port = sp\<rparr> received n"
    and "\<not> tcp_has fl TCP_FIN" and "payload \<noteq> []"
  shows "tcp_open k \<lparr>sa_ip = V4 ip_a, sa_port = sp\<rparr> (received @ payload)
    (snd (tcp_process_packet v6 (V4 ip_a) dst (build_tcp_segment sp dp sq ak fl w payload) n))"
proof -
  let ?r = "\<lparr>sa_ip = V4 ip_a, sa_port = sp\<rparr>"
  obtain pre st post where wf: "bt_wf (net_tcp n)" and tab: "net_tcp n = pre @ (k, st) # post"
    and pre: "\<forall>(j, s) \<in> set pre. tc_remote (ts_connection s) \<noteq> ?r \<and> tc_state (ts_connection s) \<noteq> Listen"
    and st: "tc_remote (ts_connection st) = ?r" "tc_state (ts_connection st) = Established" "ts_recv_buffer st = received"
    using assms(1) unfolding tcp_open_def by blast
  let ?seg = "build_tcp_segment sp dp sq ak fl w payload"
  note seg = segment_fields [OF refl, of sp dp sq ak fl w payload]
  let ?c = "(ts_connection st)\<lparr>tc_ack_num := sq + of_nat (length payload)\<rparr>"
  let ?st = "st\<lparr>ts_recv_buffer := received @ payload, ts_recv_seq := sq + of_nat (length payload), ts_connection := ?c\<rparr>"
  have "snd (tcp_process_packet v6 (V4 ip_a) dst ?seg n) =
      (send_ack v6 ?c n)\<lparr>net_tcp := bt_insert k ?st (net_tcp (send_ack v6 ?c n))\<rparr>"
    using assms(2,3) st seg tcp_find_mid [OF pre st(1), of dp k post]
    by (simp add: tcp_process_packet_def TCP_HEADER_SIZE_def process_tcp_state_transition_def tab Let_def)
  moreover have "bt_insert k ?st (net_tcp (send_ack v6 ?c n)) = pre @ (k, ?st) # post"
    using bt_insert_mid [of pre k st post ?st] wf by (simp add: tab st)
  ultimately have "net_tcp (snd (tcp_process_packet v6 (V4 ip_a) dst ?seg n)) = pre @ (k, ?st) # post" by simp
  moreover have "bt_wf (pre @ (k, ?st) # post)" using wf by (simp add: tab bt_wf_def)
  ultimately show ?thesis unfolding tcp_open_def using pre st
    by (intro conjI exI [of _ pre] exI [of _ ?st] exI [of _ post]) simp_all
qed

lemma flags_no_fin: "\<not> tcp_has (TCP_ACK OR TCP_PSH) TCP_FIN" "\<not> tcp_has (TCP_ACK OR 0) TCP_FIN"
  by (simp_all add: tcp_has_def TCP_ACK_def TCP_PSH_def TCP_FIN_def)

lemma tcp_send_loop_delivers:
  assumes "net_eth0 a = Some mac_a" and "arp_resolve ip_b a = Some mac_b" and "ip_b \<noteq> IPV4_BROADCAST"
    and "sa_ip (tc_remote c) = V4 ip_b"
    and "tcp_open k \<lparr>sa_ip = V4 (get_interface_ip a), sa_port = sa_port (tc_local c)\<rparr> received b"
  shows "\<exists>frames b1. net_tx (snd (tcp_send_loop v6 data c a)) = net_tx a @ frames \<and>
    dispatch_frames v6 frames mac_b b = Done b1 \<and>
    tcp_open k \<lparr>sa_ip = V4 (get_interface_ip a), sa_port = sa_port (tc_local c)\<rparr> (received @ data) b1"
  using assms
proof (induction v6 data c a arbitrary: received b rule: tcp_send_loop.induct)
  case (1 v6 data c a)
  show ?case
  proof (cases "data = []")
    case True
    then show ?thesis using 1(6) by (simp add: tcp_send_loop.simps)
  next
    case False
    let ?r = "\<lparr>sa_ip = V4 (get_interface_ip a), sa_port = sa_port (tc_local c)\<rparr>"
    let ?chunk = "take TCP_MSS data"
    let ?fl = "TCP_ACK OR (if length data \<le> TCP_MSS then TCP_PSH else 0)"
    let ?seg = "conn_segment c ?fl ?chunk"
    let ?a = "snd (ip_send v6 (V4 ip_b) Tcp ?seg a)"
    let ?c = "c\<lparr>tc_seq_num := tc_seq_num c + of_nat (length ?chunk)\<rparr>"
    let ?f = "construct_frame mac_b mac_a ETHERTYPE_IPV4 (ipv4_to_bytes (ip_send_header ip_b Tcp ?seg a) @ ?seg)"
    let ?b = "snd (tcp_process_packet v6 (V4 (get_interface_ip a)) (V4 ip_b) ?seg b)"
    have mac: "ip_dst_mac ip_b a = mac_b" using 1(3,4) by (simp add: ip_dst_mac_def)
    have tx: "net_tx ?a = net_tx a @ [?f]"
      using ip_send_frame(4) [OF 1(2,3)] mac by simp
    have ch: "?chunk \<noteq> []" using False by (simp add: TCP_MSS_def)
    have fin: "\<not> tcp_has ?fl TCP_FIN" using flags_no_fin by simp
    have op: "tcp_open k ?r (received @ ?chunk) ?b"
      unfolding conn_segment_def by (rule tcp_data_segment [OF 1(6) fin ch])
    have disp: "dispatch_frame v6 ?f mac_b b = Done (Ok (), ?b)"
      using ipv4_frame_dispatch [OF is_for_us_self(1), of v6 mac_b mac_a ip_b Tcp ?seg a b] by simp
    have a': "snd (send_tcp_via_ip v6 (sa_ip (tc_remote c)) ?seg a) = ?a"
      by (simp add: 1(5) send_tcp_via_ip_def)
    have loop: "tcp_send_loop v6 data c a = tcp_send_loop v6 (drop TCP_MSS data) ?c ?a"
      using False 1(5) by (subst tcp_send_loop.simps) (simp add: send_tcp_via_ip_def Let_def split_beta)
    have "\<exists>frames b1. net_tx (snd (tcp_send_loop v6 (drop TCP_MSS data) ?c ?a)) = net_tx ?a @ frames \<and>
        dispatch_frames v6 frames mac_b ?b = Done b1 \<and>
        tcp_open k \<lparr>sa_ip = V4 (get_interface_ip ?a), sa_port = sa_port (tc_local ?c)\<rparr>
          ((received @ ?chunk) @ drop TCP_MSS data) b1"
      using 1(2-5) op
      by (intro 1(1) [OF False refl refl refl prod.collapse, unfolded a'])
        (simp_all add: get_interface_ip_def)
    then obtain frames b1 where rest: "net_tx (snd (tcp_send_loop v6 (drop TCP_MSS data) ?c ?a)) = net_tx ?a @ frames"
      "dispatch_frames v6 frames mac_b ?b = Done b1"
      "tcp_open k ?r (received @ data) b1" by (auto simp: get_interface_ip_def)
    have "net_tx (snd (tcp_send_loop v6 data c a)) = net_tx a @ ?f # frames"
      unfolding loop rest(1) tx append_assoc append_Cons append_Nil ..
    moreover have "dispatch_frames v6 (?f # frames) mac_b b = Done b1" by (simp add: disp rest(2))
    ultimately show ?thesis using rest(3) by blast
  qed
qed

text \<open>
  C20. A TCP transfer from host A to host B. A is connected to B, knows B's hardware address and sends
  \<open>data\<close>; B has an established connection with A's end. When B receives the frames that A has
  transmitted, in order, then B's socket layer reads exactly what it had already received followed by
  the data, however many segments it took.
\<close>

theorem tcp_stream_delivered:
  assumes "net_eth0 a = Some mac_a" and "arp_resolve ip_b a = Some mac_b" and "ip_b \<noteq> IPV4_BROADCAST"
    and "sa_ip (tc_remote c) = V4 ip_b" and "tc_state c = Established"
    and "tcp_open k \<lparr>sa_ip = V4 (get_interface_ip a), sa_port = sa_port (tc_local c)\<rparr> received b"
    and "received @ data \<noteq> []"
  shows "\<exists>frames b1. fst (tcp_send v6 data c a) = Ok (length data) \<and>
    net_tx (snd (snd (tcp_send v6 data c a))) = net_tx a @ frames \<and>
    dispatch_frames v6 frames mac_b b = Done b1 \<and>
    fst (receive_data k [] b1) = length (received @ data) \<and> fst (snd (receive_data k [] b1)) = received @ data"
proof -
  let ?r = "\<lparr>sa_ip = V4 (get_interface_ip a), sa_port = sa_port (tc_local c)\<rparr>"
  obtain frames b1 where fr: "net_tx (snd (tcp_send_loop v6 data c a)) = net_tx a @ frames"
    "dispatch_frames v6 frames mac_b b = Done b1" and op: "tcp_open k ?r (received @ data) b1"
    using tcp_send_loop_delivers [OF assms(1-4,6), of v6 data] by blast
  obtain pre st post where wf: "bt_wf (net_tcp b1)" and tab: "net_tcp b1 = pre @ (k, st) # post"
    and st: "tc_state (ts_connection st) = Established" "ts_recv_buffer st = received @ data"
    using op unfolding tcp_open_def by blast
  have "bt_get (net_tcp b1) k = Some st" using wf by (simp add: bt_get_iff tab)
  then have "fst (receive_data k [] b1) = length (received @ data) \<and> fst (snd (receive_data k [] b1)) = received @ data"
    using st assms(7) by (simp add: receive_data_def Let_def)
  moreover have "tcp_send v6 data c a = (Ok (length data), tcp_send_loop v6 data c a)"
    using assms(5) by (simp add: tcp_send_def split_beta)
  ultimately show ?thesis using fr by auto
qed

text \<open>
  There is no check of sequence numbers: a segment that arrives twice is delivered twice.
\<close>

lemma tcp_replay_duplicates:
  assumes "tcp_open k \<lparr>sa_ip = V4 ip_a, sa_port = sp\<rparr> received n"
    and "\<not> tcp_has fl TCP_FIN" and "payload \<noteq> []"
    and "seg = build_tcp_segment sp dp sq ak fl w payload"
  shows "tcp_open k \<lparr>sa_ip = V4 ip_a, sa_port = sp\<rparr> (received @ payload @ payload)
    (snd (tcp_process_packet v6 (V4 ip_a) dst seg (snd (tcp_process_packet v6 (V4 ip_a) dst seg n))))"
  using tcp_data_segment [OF tcp_data_segment [OF assms(1-3)] assms(2,3)] by (simp add: assms(4))

text \<open>
  The length field of the IPv4 header is not used: the bytes that pad a short frame to the minimum size of
  Ethernet are delivered as data of the connection, also for a segment without data.
\<close>

lemma tcp_padding_delivered:
  assumes "tcp_open k \<lparr>sa_ip = V4 ip_a, sa_port = sp\<rparr> received n"
    and "\<not> tcp_has fl TCP_FIN" and "pad \<noteq> []"
  shows "tcp_open k \<lparr>sa_ip = V4 ip_a, sa_port = sp\<rparr> (received @ pad)
    (snd (tcp_process_packet v6 (V4 ip_a) dst (build_tcp_segment sp dp sq ak fl w [] @ pad) n))"
proof -
  have "build_tcp_segment sp dp sq ak fl w [] @ pad = build_tcp_segment sp dp sq ak fl w pad"
    by (simp add: build_tcp_segment_def)
  then show ?thesis using tcp_data_segment [OF assms] by simp
qed

section \<open>Two concrete hosts\<close>

definition demo_mac_a :: mac_address where "demo_mac_a = Mac 0x52 0x54 0 0 0 1"
definition demo_mac_b :: mac_address where "demo_mac_b = Mac 0x52 0x54 0 0 0 2"
definition demo_ip_a :: ipv4_address where "demo_ip_a = Ipv4 10 0 0 1"
definition demo_ip_b :: ipv4_address where "demo_ip_b = Ipv4 10 0 0 2"

definition demo_v6 :: "net ipv6_layer" where
  "demo_v6 = \<lparr>v6_send = (\<lambda>dst pr data n. (Err (KeNotImplemented ''ipv6''), n)), v6_process = (\<lambda>p n. Done (Ok (), n))\<rparr>"

definition demo_host_a :: net where
  "demo_host_a = arp_update_cache demo_ip_b demo_mac_b
     (set_interface_config demo_ip_a (Ipv4 255 255 255 0) None (net_init (Some demo_mac_a)))"

definition demo_udp_addr :: socket_addr where
  "demo_udp_addr = \<lparr>sa_ip = V4 demo_ip_b, sa_port = 53\<rparr>"

definition demo_buffer :: udp_socket_buffer where
  "demo_buffer = \<lparr>ub_local_addr = demo_udp_addr, ub_recv_queue = [], ub_max_queue_size = 64\<rparr>"

definition demo_conn :: tcp_connection where
  "demo_conn = (tcp_connection_new \<lparr>sa_ip = V4 demo_ip_a, sa_port = 80\<rparr> \<lparr>sa_ip = V4 demo_ip_b, sa_port = 4000\<rparr>)
     \<lparr>tc_state := Established\<rparr>"

definition demo_host_b :: net where
  "demo_host_b = transmit_data 7 [] \<lparr>sa_ip = V4 demo_ip_a, sa_port = 80\<rparr>
     (udp_register_socket 1 demo_udp_addr
       (set_interface_config demo_ip_b (Ipv4 255 255 255 0) None (net_init (Some demo_mac_b))))"

lemma demo_hosts:
  "net_eth0 demo_host_a = Some demo_mac_a" "net_eth0 demo_host_b = Some demo_mac_b"
  "get_interface_ip demo_host_a = demo_ip_a" "get_interface_ip demo_host_b = demo_ip_b"
  "arp_resolve demo_ip_b demo_host_a = Some demo_mac_b" "arp_inv demo_host_a" "arp_inv demo_host_b"
  "demo_ip_b \<noteq> IPV4_BROADCAST" "net_udp demo_host_b = [(1, demo_buffer)]"
proof -
  have init: "arp_inv (set_interface_config ip m g (net_init e))" for ip m g e
    by (simp add: set_interface_config_def net_init_def arp_inv_def bt_wf_def)
  show "net_eth0 demo_host_a = Some demo_mac_a" "get_interface_ip demo_host_a = demo_ip_a"
    by (simp_all add: demo_host_a_def set_interface_config_def net_init_def get_interface_ip_def)
  show "net_eth0 demo_host_b = Some demo_mac_b" "get_interface_ip demo_host_b = demo_ip_b"
    "net_udp demo_host_b = [(1, demo_buffer)]"
    by (simp_all add: demo_host_b_def transmit_data_def udp_register_socket_def set_interface_config_def
        net_init_def get_interface_ip_def bt_get_def generate_initial_seq_def demo_buffer_def Let_def)
  show "arp_resolve demo_ip_b demo_host_a = Some demo_mac_b" unfolding demo_host_a_def by (rule arp_resolve_update)
  show "arp_inv demo_host_a" unfolding demo_host_a_def by (rule arp_update_inv [OF init])
  show "arp_inv demo_host_b"
    by (simp add: demo_host_b_def transmit_data_def udp_register_socket_def set_interface_config_def
        net_init_def bt_get_def generate_initial_seq_def Let_def arp_inv_def bt_wf_def)
  show "demo_ip_b \<noteq> IPV4_BROADCAST" by (simp add: demo_ip_b_def IPV4_BROADCAST_def)
qed

lemma demo_hosts_linked: "is_for_us (ip_dst_mac demo_ip_b demo_host_a) demo_mac_b"
  by (simp add: ip_dst_mac_def demo_hosts is_for_us_self)

lemma demo_tcp_open: "tcp_open 7 \<lparr>sa_ip = V4 demo_ip_a, sa_port = 80\<rparr> [] demo_host_b"
  unfolding tcp_open_def
  by (rule conjI, simp add: demo_host_b_def transmit_data_def udp_register_socket_def set_interface_config_def
      net_init_def bt_get_def generate_initial_seq_def Let_def bt_wf_def,
      rule exI [of _ "[]"], rule exI [of _ "snd (hd (net_tcp demo_host_b))"], rule exI [of _ "[]"])
    (simp add: demo_host_b_def transmit_data_def udp_register_socket_def set_interface_config_def
      net_init_def bt_get_def generate_initial_seq_def tcp_connection_new_def Let_def)


theorem udp_send_to_panics_receiver_witness:
  "let s = \<lparr>us_local = \<lparr>sa_ip = V4 demo_ip_a, sa_port = 1234\<rparr>, us_remote = None, us_bound = True, us_socket_id = 1\<rparr> in
   dispatch_frame demo_v6 (last (net_tx (snd (udp_send_to demo_v6 (replicate 8 0) demo_udp_addr s demo_host_a))))
     demo_mac_b demo_host_b = Panic"
  using udp_send_to_panics_receiver [OF demo_hosts(1) demo_hosts_linked,
      of "\<lparr>us_local = \<lparr>sa_ip = V4 demo_ip_a, sa_port = 1234\<rparr>, us_remote = None, us_bound = True, us_socket_id = 1\<rparr>"
        "replicate 8 0" demo_v6 53 demo_host_b]
  by (simp add: demo_udp_addr_def u16_at_def of_be16_def)

theorem arp_exchange_resolves_witness:
  "\<exists>b1 a1. dispatch_frame demo_v6 (last (net_tx (send_arp_request demo_ip_b demo_host_a))) demo_mac_b demo_host_b =
      Done (Ok (), b1) \<and>
    dispatch_frame demo_v6 (last (net_tx b1)) demo_mac_a (send_arp_request demo_ip_b demo_host_a) = Done (Ok (), a1) \<and>
    arp_resolve demo_ip_b a1 = Some demo_mac_b \<and> arp_resolve demo_ip_a b1 = Some demo_mac_a"
  using arp_exchange_resolves [OF demo_hosts(1,6,2,7), of demo_v6] unfolding demo_hosts by blast

theorem tcp_stream_delivered_witness:
  "\<exists>frames b1. net_tx (snd (snd (tcp_send demo_v6 [1, 2, 3] demo_conn demo_host_a))) = net_tx demo_host_a @ frames \<and>
    dispatch_frames demo_v6 frames demo_mac_b demo_host_b = Done b1 \<and>
    fst (snd (receive_data 7 [] b1)) = [1, 2, 3]"
proof -
  have c: "sa_ip (tc_remote demo_conn) = V4 demo_ip_b" "tc_state demo_conn = Established" "sa_port (tc_local demo_conn) = 80"
    by (simp_all add: demo_conn_def tcp_connection_new_def)
  have op: "tcp_open 7 \<lparr>sa_ip = V4 (get_interface_ip demo_host_a), sa_port = sa_port (tc_local demo_conn)\<rparr> [] demo_host_b"
    using demo_tcp_open by (simp add: demo_hosts c)
  show ?thesis
    using tcp_stream_delivered [OF demo_hosts(1,5,8) c(1,2) op, of "[1, 2, 3]" demo_v6] by auto
qed

end
