(* ===== verification/Net_Socket.thy ===== *)
theory Net_Socket
  imports Net_Transport
begin

text \<open>
  The socket layer (\<open>src/kernel/src/net/socket.rs\<close>) on top of UDP and TCP: sockets, the table of sockets,
  the registry of listening sockets, and the operations that the system calls use.
\<close>

section \<open>Sockets\<close>

datatype socket_domain = Inet | Inet6 | Unix
datatype socket_type = Stream | Dgram | Raw
datatype socket_protocol = Proto_Default | Proto_Tcp | Proto_Udp | Proto_Icmp
datatype socket_state = Sock_Unbound | Sock_Bound | Sock_Listening | Sock_Connected | Sock_Closed

record socket_options =
  so_reuse_addr :: bool
  so_reuse_port :: bool
  so_broadcast :: bool
  so_keepalive :: bool
  so_recv_buffer_size :: usize
  so_send_buffer_size :: usize
  so_recv_timeout_ms :: "u64 option"
  so_send_timeout_ms :: "u64 option"

definition socket_options_default :: socket_options where
  "socket_options_default =
     \<lparr>so_reuse_addr = False, so_reuse_port = False, so_broadcast = False, so_keepalive = False,
      so_recv_buffer_size = 65536, so_send_buffer_size = 65536, so_recv_timeout_ms = None, so_send_timeout_ms = None\<rparr>"

record socket =
  sk_id :: usize
  sk_domain :: socket_domain
  sk_type :: socket_type
  sk_protocol :: socket_protocol
  sk_state :: socket_state
  sk_local_addr :: "socket_addr option"
  sk_remote_addr :: "socket_addr option"
  sk_options :: socket_options
  sk_recv_buffer :: "u8 list"
  sk_send_buffer :: "u8 list"
  sk_backlog :: usize

definition socket_supported :: "socket_domain \<Rightarrow> socket_type \<Rightarrow> socket_protocol \<Rightarrow> bool" where
  "socket_supported domain ty protocol =
     (case (domain, ty, protocol) of
        (Inet, Stream, Proto_Tcp) \<Rightarrow> True | (Inet, Stream, Proto_Default) \<Rightarrow> True
      | (Inet, Dgram, Proto_Udp) \<Rightarrow> True | (Inet, Dgram, Proto_Default) \<Rightarrow> True
      | (Inet, Raw, _) \<Rightarrow> True
      | (Inet6, Stream, Proto_Tcp) \<Rightarrow> True | (Inet6, Stream, Proto_Default) \<Rightarrow> True
      | (Inet6, Dgram, Proto_Udp) \<Rightarrow> True | (Inet6, Dgram, Proto_Default) \<Rightarrow> True
      | (Inet6, Raw, _) \<Rightarrow> True
      | _ \<Rightarrow> False)"

definition socket_new ::
  "socket_domain \<Rightarrow> socket_type \<Rightarrow> socket_protocol \<Rightarrow> (socket, kernel_error) result" where
  "socket_new domain ty protocol =
     (if \<not> socket_supported domain ty protocol
      then Err (KeInvalidArgument ''socket_combination'' ''unsupported'')
      else Ok \<lparr>sk_id = 0, sk_domain = domain, sk_type = ty, sk_protocol = protocol, sk_state = Sock_Unbound,
               sk_local_addr = None, sk_remote_addr = None, sk_options = socket_options_default,
               sk_recv_buffer = [], sk_send_buffer = [], sk_backlog = 0\<rparr>)"

definition is_address_in_use :: "socket_addr \<Rightarrow> net \<Rightarrow> bool" where
  "is_address_in_use addr n = (addr \<in> set (net_bound n))"

definition socket_bind :: "socket_addr \<Rightarrow> socket \<Rightarrow> net \<Rightarrow> (unit, kernel_error) result \<times> socket" where
  "socket_bind addr s n =
     (if sk_state s \<noteq> Sock_Unbound then (Err (KeInvalidState ''unbound'' ''already_bound''), s)
      else if \<not> so_reuse_addr (sk_options s) \<and> is_address_in_use addr n
      then (Err (KeResourceExhausted ''socket_address''), s)
      else (Ok (), s\<lparr>sk_local_addr := Some addr, sk_state := Sock_Bound\<rparr>))"

definition register_listening_socket :: "usize \<Rightarrow> socket_addr \<Rightarrow> usize \<Rightarrow> net \<Rightarrow> net" where
  "register_listening_socket socket_id addr backlog n =
     n\<lparr>net_bound := (if addr \<in> set (net_bound n) then net_bound n else net_bound n @ [addr]),
       net_listening := net_listening n @
         [\<lparr>le_socket_id = socket_id, le_addr = addr, le_backlog = backlog, le_pending = []\<rparr>]\<rparr>"

definition unregister_listening_socket :: "usize \<Rightarrow> net \<Rightarrow> net" where
  "unregister_listening_socket socket_id n =
     (case find (\<lambda>e. le_socket_id e = socket_id) (net_listening n) of
        Some entry \<Rightarrow> n\<lparr>net_listening := remove1 entry (net_listening n),
                        net_bound := remove1 (le_addr entry) (net_bound n)\<rparr>
      | None \<Rightarrow> n)"

definition socket_listen :: "usize \<Rightarrow> socket \<Rightarrow> net \<Rightarrow> (unit, kernel_error) result \<times> socket \<times> net" where
  "socket_listen backlog s n =
     (if sk_type s \<noteq> Stream then (Err (KeInvalidArgument ''socket_type'' ''not_stream''), s, n)
      else if sk_state s \<noteq> Sock_Bound then (Err (KeInvalidState ''bound'' ''not_bound''), s, n)
      else let b = min (max backlog 1) 128;
               n1 = (case sk_local_addr s of
                       Some addr \<Rightarrow> register_listening_socket (sk_id s) addr b n | None \<Rightarrow> n)
           in (Ok (), s\<lparr>sk_backlog := b, sk_state := Sock_Listening\<rparr>, n1))"

definition socket_connect :: "socket_addr \<Rightarrow> socket \<Rightarrow> net \<Rightarrow> (unit, kernel_error) result \<times> socket" where
  "socket_connect addr s n =
     (if sk_state s \<noteq> Sock_Unbound \<and> sk_state s \<noteq> Sock_Bound
      then (Err (KeInvalidState ''unbound_or_bound'' ''other''), s)
      else let (r, s1) =
                 (if sk_state s = Sock_Unbound then
                    socket_bind (case sa_ip addr of
                        V4 _ \<Rightarrow> \<lparr>sa_ip = V4 IPV4_ANY, sa_port = 0\<rparr>
                      | V6 _ \<Rightarrow> \<lparr>sa_ip = V6 (replicate 16 0), sa_port = 0\<rparr>) s n
                  else (Ok (), s))
           in case r of
                Err e \<Rightarrow> (Err e, s1)
              | Ok u \<Rightarrow> (Ok (), s1\<lparr>sk_remote_addr := Some addr, sk_state := Sock_Connected\<rparr>))"

text \<open>The oldest pending connection of the first entry of the socket.\<close>

fun dequeue_pending :: "usize \<Rightarrow> listening_socket_entry list \<Rightarrow> pending_connection option \<times> listening_socket_entry list" where
  "dequeue_pending socket_id [] = (None, [])"
| "dequeue_pending socket_id (e # es) =
     (if le_socket_id e = socket_id then
        (case le_pending e of
           [] \<Rightarrow> (None, e # es)
         | p # ps \<Rightarrow> (Some p, e\<lparr>le_pending := ps\<rparr> # es))
      else let (r, es2) = dequeue_pending socket_id es in (r, e # es2))"

definition dequeue_pending_connection :: "usize \<Rightarrow> net \<Rightarrow> pending_connection option \<times> net" where
  "dequeue_pending_connection socket_id n =
     (let (r, es) = dequeue_pending socket_id (net_listening n) in (r, n\<lparr>net_listening := es\<rparr>))"

definition socket_accept :: "socket \<Rightarrow> net \<Rightarrow> (socket \<times> socket_addr, kernel_error) result \<times> net" where
  "socket_accept s n =
     (if sk_type s \<noteq> Stream then (Err (KeInvalidArgument ''socket_type'' ''not_stream''), n)
      else if sk_state s \<noteq> Sock_Listening then (Err (KeInvalidState ''listening'' ''not_listening''), n)
      else case dequeue_pending_connection (sk_id s) n of
             (Some pending, n1) \<Rightarrow>
               (case socket_new (sk_domain s) (sk_type s) (sk_protocol s) of
                  Err e \<Rightarrow> (Err e, n1)
                | Ok new \<Rightarrow>
                    (Ok (new\<lparr>sk_local_addr := sk_local_addr s, sk_remote_addr := Some (pc_remote_addr pending),
                             sk_state := Sock_Connected, sk_options := sk_options s\<rparr>, pc_remote_addr pending), n1))
           | (None, n1) \<Rightarrow> (Err KeWouldBlock, n1))"

text \<open>A datagram is sent through a fresh \<open>UdpSocket\<close>, which is dropped after the call.\<close>

definition udp_send_fresh ::
  "net ipv6_layer \<Rightarrow> u8 list \<Rightarrow> socket_addr \<Rightarrow> net \<Rightarrow> (nat, kernel_error) result \<times> net" where
  "udp_send_fresh v6 data dest n =
     (let (us, n1) = udp_socket_new n; (r, n2) = udp_send_to v6 data dest us n1
      in (r, udp_socket_drop us n2))"

definition socket_send ::
  "net ipv6_layer \<Rightarrow> u8 list \<Rightarrow> socket \<Rightarrow> net \<Rightarrow> (nat, kernel_error) result \<times> socket \<times> net" where
  "socket_send v6 data s n =
     (if sk_state s \<noteq> Sock_Connected then (Err (KeInvalidState ''connected'' ''not_connected''), s, n)
      else case sk_remote_addr s of
             None \<Rightarrow> (Err (KeInvalidState ''remote_addr_set'' ''no_remote_addr''), s, n)
           | Some remote \<Rightarrow>
               (case sk_type s of
                  Stream \<Rightarrow>
                    let room = unat (so_send_buffer_size (sk_options s) - of_nat (length (sk_send_buffer s)));
                        send_len = min (length data) room
                    in if send_len = 0 \<and> data \<noteq> [] then (Err KeWouldBlock, s, n)
                       else let buf = sk_send_buffer s @ take send_len data
                            in (Ok (length buf), s\<lparr>sk_send_buffer := []\<rparr>, transmit_data (sk_id s) buf remote n)
                | Dgram \<Rightarrow> let (r, n1) = udp_send_fresh v6 data remote n in (r, s, n1)
                | Raw \<Rightarrow> (Err (KeNotImplemented ''raw_socket_send''), s, n)))"

definition socket_send_to ::
  "net ipv6_layer \<Rightarrow> u8 list \<Rightarrow> socket_addr \<Rightarrow> socket \<Rightarrow> net \<Rightarrow> (nat, kernel_error) result \<times> net" where
  "socket_send_to v6 data dest s n =
     (if sk_type s \<noteq> Dgram then (Err (KeInvalidArgument ''socket_type'' ''not_dgram''), n)
      else udp_send_fresh v6 data dest n)"

definition socket_recv ::
  "u8 list \<Rightarrow> socket \<Rightarrow> net \<Rightarrow> (nat, kernel_error) result \<times> u8 list \<times> socket \<times> net" where
  "socket_recv buffer s n =
     (if sk_state s \<noteq> Sock_Connected then (Err (KeInvalidState ''connected'' ''not_connected''), buffer, s, n)
      else let (received, rb, n1) =
                 (if sk_recv_buffer s = [] then receive_data (sk_id s) [] n else (1, sk_recv_buffer s, n))
           in if received = 0 then (Err KeWouldBlock, buffer, s\<lparr>sk_recv_buffer := rb\<rparr>, n1)
              else let copy_len = min (length buffer) (length rb)
                   in (Ok copy_len, take copy_len rb @ drop copy_len buffer,
                       s\<lparr>sk_recv_buffer := drop copy_len rb\<rparr>, n1))"

definition socket_recv_from ::
  "u8 list \<Rightarrow> socket \<Rightarrow> net \<Rightarrow> (nat \<times> socket_addr, kernel_error) result \<times> u8 list \<times> socket \<times> net" where
  "socket_recv_from buffer s n =
     (if sk_state s = Sock_Unbound then (Err (KeInvalidState ''bound'' ''unbound''), buffer, s, n)
      else case sk_remote_addr s of
             Some remote \<Rightarrow>
               (case socket_recv buffer s n of
                  (Ok len, buffer2, s2, n2) \<Rightarrow> (Ok (len, remote), buffer2, s2, n2)
                | (Err e, buffer2, s2, n2) \<Rightarrow> (Err e, buffer2, s2, n2))
           | None \<Rightarrow>
               if sk_type s = Dgram then
                 (case udp_receive_from (sk_id s) buffer n of
                    (r, buffer2, n2) \<Rightarrow> (r, buffer2, s, n2))
               else (Err KeWouldBlock, buffer, s, n))"

definition socket_close :: "socket \<Rightarrow> net \<Rightarrow> (unit, kernel_error) result \<times> socket \<times> net" where
  "socket_close s n =
     (let n1 = (case sk_state s of
                  Sock_Connected \<Rightarrow> if sk_type s = Stream then close_connection (sk_id s) n else n
                | Sock_Listening \<Rightarrow> unregister_listening_socket (sk_id s) n
                | _ \<Rightarrow> n)
      in (Ok (), s\<lparr>sk_recv_buffer := [], sk_send_buffer := [], sk_state := Sock_Closed\<rparr>, n1))"

datatype socket_option =
    ReuseAddr bool | ReusePort bool | Broadcast bool | KeepAlive bool | RecvBufferSize usize
  | SendBufferSize usize | RecvTimeout "u64 option" | SendTimeout "u64 option"

fun apply_option :: "socket_option \<Rightarrow> socket_options \<Rightarrow> socket_options" where
  "apply_option (ReuseAddr v) o' = o'\<lparr>so_reuse_addr := v\<rparr>"
| "apply_option (ReusePort v) o' = o'\<lparr>so_reuse_port := v\<rparr>"
| "apply_option (Broadcast v) o' = o'\<lparr>so_broadcast := v\<rparr>"
| "apply_option (KeepAlive v) o' = o'\<lparr>so_keepalive := v\<rparr>"
| "apply_option (RecvBufferSize v) o' = o'\<lparr>so_recv_buffer_size := v\<rparr>"
| "apply_option (SendBufferSize v) o' = o'\<lparr>so_send_buffer_size := v\<rparr>"
| "apply_option (RecvTimeout v) o' = o'\<lparr>so_recv_timeout_ms := v\<rparr>"
| "apply_option (SendTimeout v) o' = o'\<lparr>so_send_timeout_ms := v\<rparr>"

definition socket_set_option :: "socket_option \<Rightarrow> socket \<Rightarrow> (unit, kernel_error) result \<times> socket" where
  "socket_set_option opt s = (Ok (), s\<lparr>sk_options := apply_option opt (sk_options s)\<rparr>)"

section \<open>The table of sockets\<close>

record socket_system =
  sys_net :: net
  sys_table :: "socket list option"
  sys_next_id :: usize

definition socket_init :: "socket_system \<Rightarrow> socket_system" where
  "socket_init y = y\<lparr>sys_table := Some []\<rparr>"

definition create_socket ::
  "socket_domain \<Rightarrow> socket_type \<Rightarrow> socket_protocol \<Rightarrow> socket_system \<Rightarrow> (usize, kernel_error) result \<times> socket_system" where
  "create_socket domain ty protocol y =
     (case socket_new domain ty protocol of
        Err e \<Rightarrow> (Err e, y)
      | Ok s \<Rightarrow>
          let new_id = sys_next_id y; y1 = y\<lparr>sys_next_id := new_id + 1\<rparr>; s1 = s\<lparr>sk_id := new_id\<rparr>
          in case sys_table y1 of
               Some sockets \<Rightarrow> (Ok new_id, y1\<lparr>sys_table := Some (sockets @ [s1])\<rparr>)
             | None \<Rightarrow> (Err (KeInvalidState ''initialized'' ''not_initialized''), y1))"

text \<open>
  Running a function on the first socket with the given number; the function returns its result, the
  new socket and the new state of the network.
\<close>

fun update_socket :: "usize \<Rightarrow> (socket \<Rightarrow> net \<Rightarrow> 'r \<times> socket \<times> net) \<Rightarrow> socket list \<Rightarrow> net \<Rightarrow> 'r option \<times> socket list \<times> net" where
  "update_socket i f [] n = (None, [], n)"
| "update_socket i f (s # ss) n =
     (if sk_id s = i then let (r, s2, n2) = f s n in (Some r, s2 # ss, n2)
      else let (r, ss2, n2) = update_socket i f ss n in (r, s # ss2, n2))"

definition with_socket_mut ::
  "usize \<Rightarrow> (socket \<Rightarrow> net \<Rightarrow> ('a, kernel_error) result \<times> socket \<times> net) \<Rightarrow> socket_system \<Rightarrow>
     ('a, kernel_error) result \<times> socket_system" where
  "with_socket_mut i f y =
     (case sys_table y of
        Some sockets \<Rightarrow>
          (case update_socket i f sockets (sys_net y) of
             (Some r, sockets2, n2) \<Rightarrow> (r, y\<lparr>sys_table := Some sockets2, sys_net := n2\<rparr>)
           | (None, sockets2, n2) \<Rightarrow> (Err (KeInvalidArgument ''socket_id'' ''not_found''), y))
      | None \<Rightarrow> (Err (KeInvalidState ''initialized'' ''not_initialized''), y))"

definition inet_bind :: "usize \<Rightarrow> socket_addr \<Rightarrow> socket_system \<Rightarrow> (unit, kernel_error) result \<times> socket_system" where
  "inet_bind i addr = with_socket_mut i (\<lambda>s n. let (r, s2) = socket_bind addr s n in (r, s2, n))"

definition inet_listen :: "usize \<Rightarrow> usize \<Rightarrow> socket_system \<Rightarrow> (unit, kernel_error) result \<times> socket_system" where
  "inet_listen i backlog = with_socket_mut i (socket_listen backlog)"

definition inet_connect :: "usize \<Rightarrow> socket_addr \<Rightarrow> socket_system \<Rightarrow> (unit, kernel_error) result \<times> socket_system" where
  "inet_connect i addr = with_socket_mut i (\<lambda>s n. let (r, s2) = socket_connect addr s n in (r, s2, n))"

definition inet_accept :: "usize \<Rightarrow> socket_system \<Rightarrow> (socket \<times> socket_addr, kernel_error) result \<times> socket_system" where
  "inet_accept i = with_socket_mut i (\<lambda>s n. let (r, n2) = socket_accept s n in (r, s, n2))"

definition inet_send ::
  "net ipv6_layer \<Rightarrow> usize \<Rightarrow> u8 list \<Rightarrow> socket_system \<Rightarrow> (nat, kernel_error) result \<times> socket_system" where
  "inet_send v6 i data = with_socket_mut i (socket_send v6 data)"

definition inet_recv ::
  "usize \<Rightarrow> u8 list \<Rightarrow> socket_system \<Rightarrow> (nat \<times> u8 list, kernel_error) result \<times> socket_system" where
  "inet_recv i buf =
     with_socket_mut i (\<lambda>s n. case socket_recv buf s n of
        (Ok len, buf2, s2, n2) \<Rightarrow> (Ok (len, buf2), s2, n2)
      | (Err e, buf2, s2, n2) \<Rightarrow> (Err e, s2, n2))"

definition sendto ::
  "net ipv6_layer \<Rightarrow> usize \<Rightarrow> u8 list \<Rightarrow> socket_addr option \<Rightarrow> socket_system \<Rightarrow> (nat, kernel_error) result \<times> socket_system" where
  "sendto v6 i data dest =
     with_socket_mut i (\<lambda>s n. case dest of
        Some addr \<Rightarrow> let (r, n2) = socket_send_to v6 data addr s n in (r, s, n2)
      | None \<Rightarrow> socket_send v6 data s n)"

text \<open>The bytes that a receiving call leaves in the caller's buffer are part of its result.\<close>

definition recvfrom ::
  "usize \<Rightarrow> u8 list \<Rightarrow> socket_system \<Rightarrow> (nat \<times> socket_addr option \<times> u8 list, kernel_error) result \<times> socket_system" where
  "recvfrom i buf =
     with_socket_mut i (\<lambda>s n. case socket_recv_from buf s n of
        (Ok (len, from), buf2, s2, n2) \<Rightarrow> (Ok (len, Some from, buf2), s2, n2)
      | (Err e, buf2, s2, n2) \<Rightarrow> (Err e, s2, n2))"

definition inet_set_option :: "usize \<Rightarrow> socket_option \<Rightarrow> socket_system \<Rightarrow> (unit, kernel_error) result \<times> socket_system" where
  "inet_set_option i opt = with_socket_mut i (\<lambda>s n. let (r, s2) = socket_set_option opt s in (r, s2, n))"

definition close_socket :: "usize \<Rightarrow> socket_system \<Rightarrow> (unit, kernel_error) result \<times> socket_system" where
  "close_socket i = with_socket_mut i socket_close"

definition find_socket :: "usize \<Rightarrow> socket_system \<Rightarrow> (socket, kernel_error) result" where
  "find_socket i y =
     (case sys_table y of
        Some sockets \<Rightarrow> (case find (\<lambda>s. sk_id s = i) sockets of
                           Some s \<Rightarrow> Ok s | None \<Rightarrow> Err (KeInvalidArgument ''socket_id'' ''not_found''))
      | None \<Rightarrow> Err (KeInvalidState ''initialized'' ''not_initialized''))"

definition getsockname :: "usize \<Rightarrow> socket_system \<Rightarrow> (socket_addr, kernel_error) result" where
  "getsockname i y =
     (case find_socket i y of
        Err e \<Rightarrow> Err e
      | Ok s \<Rightarrow> (case sk_local_addr s of
                   Some a \<Rightarrow> Ok a | None \<Rightarrow> Err (KeInvalidState ''bound socket'' ''unbound'')))"

definition getpeername :: "usize \<Rightarrow> socket_system \<Rightarrow> (socket_addr, kernel_error) result" where
  "getpeername i y =
     (case find_socket i y of
        Err e \<Rightarrow> Err e
      | Ok s \<Rightarrow> (case sk_remote_addr s of
                   Some a \<Rightarrow> Ok a | None \<Rightarrow> Err (KeInvalidState ''connected socket'' ''not connected'')))"

section \<open>What the socket layer can reach\<close>

inductive sock_reachable :: "net ipv6_layer \<Rightarrow> socket_system \<Rightarrow> bool" for v6 :: "net ipv6_layer" where
  sr_init: "sock_reachable v6 \<lparr>sys_net = net_init eth0, sys_table = Some [], sys_next_id = 1\<rparr>"
| sr_config: "sock_reachable v6 y \<Longrightarrow> sock_reachable v6 (y\<lparr>sys_net := set_interface_config ip netmask gw (sys_net y)\<rparr>)"
| sr_create: "sock_reachable v6 y \<Longrightarrow> sock_reachable v6 (snd (create_socket d t p y))"
| sr_bind: "sock_reachable v6 y \<Longrightarrow> sock_reachable v6 (snd (inet_bind i addr y))"
| sr_listen: "sock_reachable v6 y \<Longrightarrow> sock_reachable v6 (snd (inet_listen i backlog y))"
| sr_connect: "sock_reachable v6 y \<Longrightarrow> sock_reachable v6 (snd (inet_connect i addr y))"
| sr_accept: "sock_reachable v6 y \<Longrightarrow> sock_reachable v6 (snd (inet_accept i y))"
| sr_send: "sock_reachable v6 y \<Longrightarrow> sock_reachable v6 (snd (inet_send v6 i data y))"
| sr_sendto: "sock_reachable v6 y \<Longrightarrow> sock_reachable v6 (snd (sendto v6 i data dest y))"
| sr_recv: "sock_reachable v6 y \<Longrightarrow> sock_reachable v6 (snd (inet_recv i buf y))"
| sr_recvfrom: "sock_reachable v6 y \<Longrightarrow> sock_reachable v6 (snd (recvfrom i buf y))"
| sr_option: "sock_reachable v6 y \<Longrightarrow> sock_reachable v6 (snd (inet_set_option i opt y))"
| sr_close: "sock_reachable v6 y \<Longrightarrow> sock_reachable v6 (snd (close_socket i y))"
| sr_frame: "sock_reachable v6 y \<Longrightarrow> parse_frame f = Ok ef \<Longrightarrow> ef_ethertype ef \<noteq> ETHERTYPE_IPV6 \<Longrightarrow>
    dispatch_frame v6 f mac (sys_net y) = Done (r, n) \<Longrightarrow> sock_reachable v6 (y\<lparr>sys_net := n\<rparr>)"

text \<open>Sending an IPv6 packet does not touch the tables of the transport protocols.\<close>

definition v6_send_quiet :: "net ipv6_layer \<Rightarrow> bool" where
  "v6_send_quiet v6 = (\<forall>d pr p n. net_udp (snd (v6_send v6 d pr p n)) = net_udp n \<and>
     net_tcp (snd (v6_send v6 d pr p n)) = net_tcp n \<and> net_listening (snd (v6_send v6 d pr p n)) = net_listening n)"

definition quiet :: "net \<Rightarrow> bool" where
  "quiet n = (net_udp n = [] \<and> (\<forall>b \<in> set (net_tcp n). tc_state (ts_connection (snd b)) \<noteq> Listen) \<and>
     (\<forall>e \<in> set (net_listening n). le_pending e = []))"

lemma quietI:
  assumes "quiet n" and "net_udp m = net_udp n" and "net_tcp m = net_tcp n" and "net_listening m = net_listening n"
  shows "quiet m"
  using assms by (simp add: quiet_def)

lemma ip_send_tables:
  assumes "v6_send_quiet v6"
  shows "net_udp (snd (ip_send v6 d pr p n)) = net_udp n" "net_tcp (snd (ip_send v6 d pr p n)) = net_tcp n"
    "net_listening (snd (ip_send v6 d pr p n)) = net_listening n"
proof -
  have v4: "net_listening (snd (ip_send v6 (V4 x) pr p n)) = net_listening n" for x
    by (auto simp: ip_send_def Let_def split: option.split)
  show "net_udp (snd (ip_send v6 d pr p n)) = net_udp n" "net_tcp (snd (ip_send v6 d pr p n)) = net_tcp n"
    "net_listening (snd (ip_send v6 d pr p n)) = net_listening n"
    using assms v4 by (cases d; simp add: v6_send_quiet_def; simp add: ip_send_def)+
qed

lemma send_ack_tables:
  assumes "v6_send_quiet v6"
  shows "net_udp (send_ack v6 c n) = net_udp n" "net_tcp (send_ack v6 c n) = net_tcp n"
    "net_listening (send_ack v6 c n) = net_listening n"
  by (simp_all add: send_ack_def send_tcp_via_ip_def ip_send_tables [OF assms])

lemma tcp_transition_tables:
  assumes "v6_send_quiet v6" and "process_tcp_state_transition v6 fl sq pl st n = (st2, n2)"
  shows "net_udp n2 = net_udp n \<and> net_tcp n2 = net_tcp n \<and> net_listening n2 = net_listening n \<and>
    (tc_state (ts_connection st) \<noteq> Listen \<longrightarrow> tc_state (ts_connection st2) \<noteq> Listen)"
  using assms(2) send_ack_tables [OF assms(1)]
  by (cases "tc_state (ts_connection st)")
    (auto simp: process_tcp_state_transition_def Let_def split: if_splits)

lemma tcp_process_quiet:
  assumes "v6_send_quiet v6" and "quiet n"
  shows "quiet (snd (tcp_process_packet v6 src dst data n))"
proof (cases "tcp_find \<lparr>sa_ip = src, sa_port = u16_at data 0\<rparr> (u16_at data 2) (net_tcp n)")
  case None
  have "quiet (snd (ip_send v6 d pr p n))" for d pr p
    by (rule quietI [OF assms(2) ip_send_tables [OF assms(1)]])
  then show ?thesis using assms(2) None
    by (simp add: tcp_process_packet_def Let_def send_tcp_via_ip_def)
next
  case (Some b)
  obtain k st where b: "b = (k, st)" by fastforce
  obtain j where "j < length (net_tcp n)" "b = net_tcp n ! j"
    using Some unfolding tcp_find_def find_Some_iff by blast
  then have "(k, st) \<in> set (net_tcp n)" using b nth_mem by metis
  then have nl: "tc_state (ts_connection st) \<noteq> Listen" using assms(2) by (auto simp: quiet_def)
  have "quiet (n2\<lparr>net_tcp := bt_insert k st2 (net_tcp n2)\<rparr>)"
    if "process_tcp_state_transition v6 fl sq pl st n = (st2, n2)" for fl sq pl st2 n2
    using tcp_transition_tables [OF assms(1) that] nl assms(2) set_bt_insert [of k st2 "net_tcp n"]
    by (auto simp: quiet_def)
  then show ?thesis using assms(2) Some b nl
    by (auto simp: tcp_process_packet_def Let_def split: prod.split)
qed

lemma udp_process_quiet:
  assumes "quiet n" and "udp_process_packet src dst data n = Done (r, m)"
  shows "quiet m"
  using assms
  by (auto simp: udp_process_packet_def quiet_def Let_def split: if_splits result.splits prod.splits)

lemma arp_process_quiet: "quiet n \<Longrightarrow> quiet (snd (process_arp_packet data mac n))"
  by (auto simp: process_arp_packet_def Let_def quiet_def arp_update_cache_def send_arp_frame_def)

lemma dispatch_quiet:
  assumes "v6_send_quiet v6" and "quiet n" and "parse_frame f = Ok ef" and "ef_ethertype ef \<noteq> ETHERTYPE_IPV6"
    and "dispatch_frame v6 f mac n = Done (r, m)"
  shows "quiet m"
proof -
  have "quiet m" if "dispatch_ipv4 v6 p n = Done (r, m)" for p
    using that assms(1,2) tcp_process_quiet [OF assms(1,2)] udp_process_quiet [OF assms(2)]
    by (auto simp: dispatch_ipv4_def Let_def split: if_splits result.splits outcome.splits)
  moreover have "quiet m" if "process_arp_packet p mac n = (r, m)" for p
    using arp_process_quiet [OF assms(2), of p mac] that by simp
  ultimately show ?thesis using assms
    by (auto simp: dispatch_frame_def split: if_splits)
qed

text \<open>What every operation of a socket keeps, every call on the table of sockets keeps.\<close>

lemma update_socket_quiet:
  assumes "\<And>s n. quiet n \<Longrightarrow> quiet (snd (snd (f s n)))" and "quiet n"
  shows "quiet (snd (snd (update_socket i f ss n)))"
  using assms(2)
proof (induction ss)
  case (Cons s ss)
  then show ?case using assms(1) [of n s] by (auto simp: Let_def split_beta)
qed simp

lemma with_socket_quiet:
  assumes "\<And>s n. quiet n \<Longrightarrow> quiet (snd (snd (f s n)))" and "quiet (sys_net y)"
  shows "quiet (sys_net (snd (with_socket_mut i f y)))"
proof (cases "sys_table y")
  case (Some ss)
  have "quiet (snd (snd (update_socket i f ss (sys_net y))))"
    by (rule update_socket_quiet [OF assms])
  then show ?thesis using assms(2) Some
    by (auto simp: with_socket_mut_def split: prod.split option.split)
qed (simp add: with_socket_mut_def assms(2))

text \<open>An entry put into the TCP table of a quiet state that is not in state \<open>Listen\<close> keeps it quiet.\<close>

lemma quiet_insert:
  assumes "quiet n" and "tc_state (ts_connection st) \<noteq> Listen"
  shows "quiet (n\<lparr>net_tcp := bt_insert k st (net_tcp n)\<rparr>)"
  using assms set_bt_insert [of k st "net_tcp n"] by (auto simp: quiet_def)

lemma quiet_get: "quiet n \<Longrightarrow> bt_get (net_tcp n) k = Some st \<Longrightarrow> tc_state (ts_connection st) \<noteq> Listen"
  by (auto simp: quiet_def bt_get_def dest!: map_of_SomeD)

lemma transmit_data_quiet:
  assumes "quiet n"
  shows "quiet (transmit_data k data remote n)"
proof (cases "bt_get (net_tcp n) k")
  case None
  have "quiet (snd (generate_initial_seq n))"
    by (rule quietI [OF assms]) (simp_all add: generate_initial_seq_def Let_def)
  then show ?thesis using None
    by (auto simp: transmit_data_def Let_def split_beta tcp_connection_new_def intro!: quiet_insert)
next
  case (Some st)
  then show ?thesis using assms quiet_get [OF assms Some]
    by (auto simp: transmit_data_def Let_def intro!: quiet_insert)
qed

lemma receive_data_quiet:
  assumes "quiet n"
  shows "quiet (snd (snd (receive_data k buf n)))"
  using assms quiet_get [OF assms]
  by (auto simp: receive_data_def Let_def intro!: quiet_insert split: option.split)

lemma dequeue_pending_quiet:
  "\<forall>e \<in> set es. le_pending e = [] \<Longrightarrow> dequeue_pending i es = (None, es)"
  by (induction es) auto

lemma dequeue_quiet: "quiet n \<Longrightarrow> dequeue_pending_connection i n = (None, n)"
  by (simp add: dequeue_pending_connection_def dequeue_pending_quiet quiet_def)

lemma udp_send_fresh_fails:
  "udp_send_fresh v6 data dest n = (Err (KeInvalidState ''bound'' ''unbound''), n\<lparr>net_next_udp_id := net_next_udp_id n + 1\<rparr>)"
  by (simp add: udp_send_fresh_def udp_socket_new_def udp_send_to_def udp_socket_drop_def)

lemma udp_send_fresh_quiet: "quiet n \<Longrightarrow> quiet (snd (udp_send_fresh v6 data dest n))"
  by (rule quietI [of n]) (simp_all add: udp_send_fresh_fails)

lemma udp_receive_quiet: "quiet n \<Longrightarrow> udp_receive_from i buf n = (r, buf2, m) \<Longrightarrow> m = n \<and> r = Err (KeInvalidArgument ''socket_id'' ''not_found'')"
  by (auto simp: udp_receive_from_def quiet_def bt_get_def)

lemma listen_quiet: "quiet n \<Longrightarrow> quiet (snd (snd (socket_listen backlog s n)))"
  by (auto simp: socket_listen_def Let_def register_listening_socket_def quiet_def split: option.split)

lemma accept_quiet: "quiet n \<Longrightarrow> snd (socket_accept s n) = n \<and> (\<forall>x. fst (socket_accept s n) \<noteq> Ok x)"
  by (simp add: socket_accept_def dequeue_quiet)

lemma send_quiet: "quiet n \<Longrightarrow> quiet (snd (snd (socket_send v6 data s n)))"
  using udp_send_fresh_quiet [of n v6 data] transmit_data_quiet [of n]
  by (auto simp: socket_send_def Let_def split_beta split: option.split socket_type.split)

lemma send_to_quiet: "quiet n \<Longrightarrow> quiet (snd (socket_send_to v6 data dest s n))"
  using udp_send_fresh_quiet [of n v6 data dest] by (auto simp: socket_send_to_def)

lemma recv_quiet: "quiet n \<Longrightarrow> quiet (snd (snd (snd (socket_recv buf s n))))"
  using receive_data_quiet [of n "sk_id s" "[]"]
  by (auto simp: socket_recv_def Let_def split_beta)

lemma recv_from_quiet:
  assumes "quiet n"
  shows "quiet (snd (snd (snd (socket_recv_from buf s n))))"
proof -
  have "quiet m" if "socket_recv buf s n = (r, b, s2, m)" for r b s2 m
    using recv_quiet [OF assms, of buf s] that by simp
  moreover have "quiet m" if "udp_receive_from (sk_id s) buf n = (r, b, m)" for r b m
    using udp_receive_quiet [OF assms that] assms by simp
  ultimately show ?thesis using assms
    by (auto simp: socket_recv_from_def split: option.split prod.split result.split)
qed

lemma close_quiet: "quiet n \<Longrightarrow> quiet (snd (snd (socket_close s n)))"
  using set_bt_remove [of "sk_id s" "net_tcp n"] set_remove1_subset [of _ "net_listening n"]
  by (auto simp: socket_close_def close_connection_def unregister_listening_socket_def quiet_def
      split: socket_state.split option.split)

lemma sock_reachable_quiet:
  assumes "v6_send_quiet v6" and "sock_reachable v6 y"
  shows "quiet (sys_net y)"
  using assms(2)
proof induction
  case (sr_init eth0)
  then show ?case by (simp add: quiet_def net_init_def)
next
  case (sr_config y ip netmask gw)
  then show ?case by (auto simp: set_interface_config_def quiet_def)
next
  case (sr_create y d t p)
  then show ?case by (simp add: create_socket_def Let_def split: result.split option.split)
next
  case (sr_bind y i addr)
  then show ?case unfolding inet_bind_def by (intro with_socket_quiet) (simp_all add: split_beta)
next
  case (sr_listen y i backlog)
  then show ?case unfolding inet_listen_def by (intro with_socket_quiet listen_quiet)
next
  case (sr_connect y i addr)
  then show ?case unfolding inet_connect_def by (intro with_socket_quiet) (simp_all add: split_beta)
next
  case (sr_accept y i)
  then show ?case unfolding inet_accept_def by (intro with_socket_quiet) (simp_all add: split_beta accept_quiet)
next
  case (sr_send y i data)
  then show ?case unfolding inet_send_def by (intro with_socket_quiet send_quiet)
next
  case (sr_sendto y i data dest)
  have "quiet (snd (snd (case dest of Some addr \<Rightarrow> let (r, n2) = socket_send_to v6 data addr s n in (r, s, n2)
      | None \<Rightarrow> socket_send v6 data s n)))" if "quiet n" for s n
    using that by (cases dest) (simp_all add: split_beta send_quiet send_to_quiet)
  then show ?case unfolding sendto_def using sr_sendto by (intro with_socket_quiet)
next
  case (sr_recv y i buf)
  have "quiet (snd (snd (case socket_recv buf s n of (Ok len, buf2, s2, n2) \<Rightarrow> (Ok (len, buf2), s2, n2)
      | (Err e, buf2, s2, n2) \<Rightarrow> (Err e, s2, n2))))" if "quiet n" for s n
    using recv_quiet [OF that, of buf s] by (auto split: prod.split result.split)
  then show ?case unfolding inet_recv_def using sr_recv by (intro with_socket_quiet)
next
  case (sr_recvfrom y i buf)
  have "quiet (snd (snd (case socket_recv_from buf s n of (Ok (len, from), buf2, s2, n2) \<Rightarrow> (Ok (len, Some from, buf2), s2, n2)
      | (Err e, buf2, s2, n2) \<Rightarrow> (Err e, s2, n2))))" if "quiet n" for s n
    using recv_from_quiet [OF that, of buf s] by (auto split: prod.split result.split)
  then show ?case unfolding recvfrom_def using sr_recvfrom by (intro with_socket_quiet)
next
  case (sr_option y i opt)
  then show ?case unfolding inet_set_option_def by (intro with_socket_quiet) (simp_all add: split_beta)
next
  case (sr_close y i)
  then show ?case unfolding close_socket_def by (intro with_socket_quiet close_quiet)
next
  case (sr_frame y f ef mac r n)
  then show ?case using dispatch_quiet [OF assms(1)] by fastforce
qed

text \<open>A call on the table of sockets is the call on the socket that the number names, or an error.\<close>

lemma update_socket_found:
  "find (\<lambda>s. sk_id s = i) ss = Some s \<Longrightarrow>
     \<exists>ss2. update_socket i f ss n = (Some (fst (f s n)), ss2, snd (snd (f s n)))"
  by (induction ss) (auto simp: Let_def split_beta split: if_splits)

lemma update_socket_missing:
  "find (\<lambda>s. sk_id s = i) ss = None \<Longrightarrow> update_socket i f ss n = (None, ss, n)"
  by (induction ss) (auto split: if_splits)

lemma with_socket_found:
  assumes "find_socket i y = Ok s"
  shows "fst (with_socket_mut i f y) = fst (f s (sys_net y))"
    "sys_net (snd (with_socket_mut i f y)) = snd (snd (f s (sys_net y)))"
proof -
  obtain ss where ss: "sys_table y = Some ss" "find (\<lambda>s. sk_id s = i) ss = Some s"
    using assms by (auto simp: find_socket_def split: option.splits)
  obtain ss2 where "update_socket i f ss (sys_net y) = (Some (fst (f s (sys_net y))), ss2, snd (snd (f s (sys_net y))))"
    using update_socket_found [OF ss(2)] by blast
  then show "fst (with_socket_mut i f y) = fst (f s (sys_net y))"
    "sys_net (snd (with_socket_mut i f y)) = snd (snd (f s (sys_net y)))"
    using ss(1) by (simp_all add: with_socket_mut_def)
qed

lemma with_socket_missing: "find_socket i y = Err e \<Longrightarrow> with_socket_mut i f y = (Err e, y)"
  by (auto simp: find_socket_def with_socket_mut_def update_socket_missing split: option.splits)

lemma accept_never:
  assumes "quiet (sys_net y)"
  shows "fst (inet_accept i y) \<noteq> Ok x"
proof (cases "find_socket i y")
  case (Ok s)
  then show ?thesis using accept_quiet [OF assms, of s]
    by (cases x) (simp add: inet_accept_def with_socket_found split_beta)
qed (simp add: inet_accept_def with_socket_missing)

lemma transmit_data_tx: "net_tx (transmit_data k data remote n) = net_tx n"
  by (simp add: transmit_data_def Let_def generate_initial_seq_def split_beta split: option.split)

lemma socket_send_tx: "net_tx (snd (snd (socket_send v6 data s n))) = net_tx n"
  by (simp add: socket_send_def Let_def udp_send_fresh_fails transmit_data_tx split: option.split socket_type.split)

lemma socket_send_dgram: "sk_type s = Dgram \<Longrightarrow> fst (socket_send v6 data s n) \<noteq> Ok len"
  by (simp add: socket_send_def udp_send_fresh_fails split: option.split)

lemma sendto_tx: "net_tx (sys_net (snd (sendto v6 i data dest y))) = net_tx (sys_net y)"
proof (cases "find_socket i y")
  case (Ok s)
  then show ?thesis
    by (cases dest) (simp_all add: sendto_def with_socket_found socket_send_tx socket_send_to_def udp_send_fresh_fails)
qed (simp add: sendto_def with_socket_missing)

text \<open>
  C35. The socket layer is not connected to the network below it. In every state that its own calls and
  received ARP and IPv4 frames reach from the initial one: no \<open>accept\<close> returns a connection; no send on a
  datagram socket succeeds; no receive on a datagram socket that has no remote address returns a datagram; and
  no send at all, on a stream socket too, gives the device a frame.
\<close>

theorem socket_layer_disconnected:
  assumes "v6_send_quiet v6" and "sock_reachable v6 y" and "find_socket i y = Ok s"
  shows "(\<forall>x. fst (inet_accept i y) \<noteq> Ok x) \<and>
    (sk_type s = Dgram \<longrightarrow> (\<forall>data dest len. fst (sendto v6 i data dest y) \<noteq> Ok len)) \<and>
    (sk_type s = Dgram \<and> sk_remote_addr s = None \<longrightarrow> (\<forall>buf x. fst (recvfrom i buf y) \<noteq> Ok x)) \<and>
    (\<forall>data dest. net_tx (sys_net (snd (sendto v6 i data dest y))) = net_tx (sys_net y))"
proof (intro conjI allI impI)
  note q = sock_reachable_quiet [OF assms(1,2)]
  show "fst (inet_accept i y) \<noteq> Ok x" for x by (rule accept_never [OF q])
  show "net_tx (sys_net (snd (sendto v6 i data dest y))) = net_tx (sys_net y)" for data dest by (rule sendto_tx)
  show "fst (sendto v6 i data dest y) \<noteq> Ok len" if "sk_type s = Dgram" for data dest len
    using that assms(3) socket_send_dgram [OF that]
    by (cases dest) (simp_all add: sendto_def with_socket_found socket_send_to_def udp_send_fresh_fails)
  show "fst (recvfrom i buf y) \<noteq> Ok x" if "sk_type s = Dgram \<and> sk_remote_addr s = None" for buf x
    using that assms(3) udp_receive_quiet [OF q, of "sk_id s" buf]
    by (auto simp: recvfrom_def with_socket_found socket_recv_from_def split: prod.split)
qed

definition demo_sockets :: socket_system where
  "demo_sockets = snd (create_socket Inet Dgram Proto_Udp \<lparr>sys_net = net_init (Some demo_mac_a), sys_table = Some [], sys_next_id = 1\<rparr>)"

lemma demo_sockets_reachable: "sock_reachable demo_v6 demo_sockets" "v6_send_quiet demo_v6"
  unfolding demo_sockets_def by (intro sock_reachable.intros) (simp add: v6_send_quiet_def demo_v6_def)

lemma demo_sockets_first: "\<exists>s. find_socket 1 demo_sockets = Ok s \<and> sk_type s = Dgram \<and> sk_remote_addr s = None"
  by (simp add: demo_sockets_def create_socket_def socket_new_def socket_supported_def find_socket_def)

theorem socket_layer_disconnected_witness:
  "(\<forall>len. fst (sendto demo_v6 1 [1, 2, 3] (Some demo_udp_addr) demo_sockets) \<noteq> Ok len) \<and>
   (\<forall>x. fst (recvfrom 1 [0, 0, 0] demo_sockets) \<noteq> Ok x) \<and>
   net_tx (sys_net (snd (sendto demo_v6 1 [1, 2, 3] (Some demo_udp_addr) demo_sockets))) = net_tx (sys_net demo_sockets)"
proof -
  obtain s where s: "find_socket 1 demo_sockets = Ok s" "sk_type s = Dgram" "sk_remote_addr s = None"
    using demo_sockets_first by blast
  show ?thesis
    using socket_layer_disconnected [OF demo_sockets_reachable(2,1) s(1)] s(2,3) by simp
qed

end
