(* ===== verification/Sched_Core.thy ===== *)
theory Sched_Core
  imports Sched_Wait "HOL-Library.Multiset"
begin

text \<open>
  The scheduler of a processor (\<open>src/kernel/src/sched/scheduler.rs\<close>): choice of the next task, preemption,
  the timer tick and the switch to a task, with the parts of the task control block that they use
  (\<open>task.rs\<close>) and the balancing of the load between processors (\<open>load_balance.rs\<close>). The number of the
  processor and the tick counter, which the code reads from the hardware, are arguments. A call that does
  not return has the result \<open>None\<close>. Registers, page tables and metrics are not modelled: a context switch
  is the change of the current task.
\<close>

section \<open>Tasks\<close>

definition DEFAULT_TIME_SLICE :: u32 where "DEFAULT_TIME_SLICE = 10"
definition PRIORITY_BOOST_INTERVAL :: u64 where "PRIORITY_BOOST_INTERVAL = 100"

definition cpuset_all :: u64 where "cpuset_all = - 1"
definition cpuset_single :: "u8 \<Rightarrow> u64" where "cpuset_single c = push_bit (unat c mod 64) 1"
definition cpuset_contains :: "u64 \<Rightarrow> u8 \<Rightarrow> bool" where
  "cpuset_contains m c = (m AND push_bit (unat c mod 64) 1 \<noteq> 0)"
definition cpuset_add :: "u8 \<Rightarrow> u64 \<Rightarrow> u64" where "cpuset_add c m = m OR push_bit (unat c mod 64) 1"
definition cpuset_remove :: "u8 \<Rightarrow> u64 \<Rightarrow> u64" where "cpuset_remove c m = m AND NOT (push_bit (unat c mod 64) 1)"

definition task_new :: "u64 \<Rightarrow> u64 \<Rightarrow> task" where
  "task_new pid tid =
     \<lparr>t_pid = pid, t_tid = tid, t_state = PsReady, t_priority = UserNormal, t_sched_class = ScNormal,
      t_affinity = cpuset_all, t_current_cpu = None, t_vruntime = 0, t_blocked_on = None, t_thread_ref = None,
      t_time_slice = DEFAULT_TIME_SLICE, t_priority_boost = None, t_runtime = 0, t_run_count = 0,
      t_voluntary_switches = 0, t_involuntary_switches = 0, t_last_run = 0, t_last_cpu = None, t_migrations = 0\<rparr>"

definition task_update_runtime :: "u64 \<Rightarrow> u64 \<Rightarrow> task \<Rightarrow> task" where
  "task_update_runtime now ticks t = t\<lparr>t_runtime := t_runtime t + ticks, t_last_run := now\<rparr>"

definition mark_scheduled :: "bool \<Rightarrow> task \<Rightarrow> task" where
  "mark_scheduled voluntary t =
     (let t1 = t\<lparr>t_run_count := t_run_count t + 1\<rparr>
      in if voluntary then t1\<lparr>t_voluntary_switches := t_voluntary_switches t1 + 1\<rparr>
         else t1\<lparr>t_involuntary_switches := t_involuntary_switches t1 + 1\<rparr>)"

text \<open>The tick counter is subtracted with wrap-around; the code of a priority is below 100.\<close>

definition effective_priority :: "u64 \<Rightarrow> task \<Rightarrow> nat" where
  "effective_priority now t =
     (let base = priority_code (t_priority t);
          dynamic = (case t_sched_class t of
              ScRealTime \<Rightarrow> base
            | ScNormal \<Rightarrow> base - unat (min ((now - t_last_run t) div PRIORITY_BOOST_INTERVAL) 20)
            | ScIdle \<Rightarrow> priority_code IdlePriority)
      in case t_priority_boost t of
           Some p \<Rightarrow> if priority_code p < base then priority_code p else dynamic
         | None \<Rightarrow> dynamic)"

section \<open>The scheduler\<close>

datatype sched_algorithm = RoundRobin | PriorityBased | Cfs | Hybrid

record scheduler =
  sc_current :: "task_ptr option"
  sc_idle_task :: "task_ptr option"
  sc_algorithm :: sched_algorithm
  sc_preemption_enabled :: bool
  sc_lock_count :: u64
  sc_cpu_id :: u8
  sc_cfs_queue :: "cfs_run_queue option"

definition scheduler_new :: scheduler where
  "scheduler_new = \<lparr>sc_current = None, sc_idle_task = None, sc_algorithm = PriorityBased,
     sc_preemption_enabled = True, sc_lock_count = 0, sc_cpu_id = 0, sc_cfs_queue = None\<rparr>"

definition scheduler_init :: "task_ptr \<Rightarrow> scheduler \<Rightarrow> scheduler" where
  "scheduler_init idle_task sc =
     sc\<lparr>sc_idle_task := Some idle_task, sc_current := Some idle_task,
        sc_cfs_queue := (if sc_algorithm sc = Cfs \<or> sc_algorithm sc = Hybrid then Some cfs_new else sc_cfs_queue sc)\<rparr>"

definition disable_preemption :: "scheduler \<Rightarrow> scheduler" where
  "disable_preemption sc = sc\<lparr>sc_lock_count := sc_lock_count sc + 1, sc_preemption_enabled := False\<rparr>"

definition enable_preemption :: "scheduler \<Rightarrow> scheduler" where
  "enable_preemption sc =
     (let count = sc_lock_count sc; sc1 = sc\<lparr>sc_lock_count := count - 1\<rparr>
      in if count = 1 then sc1\<lparr>sc_preemption_enabled := True\<rparr> else sc1)"

definition is_preemptible :: "scheduler \<Rightarrow> bool" where
  "is_preemptible sc = sc_preemption_enabled sc"

text \<open>The counters of a processor when a task enters and leaves its queue.\<close>

definition count_up :: "cpu_info \<Rightarrow> cpu_info" where
  "count_up i = update_load (i\<lparr>cpu_nr_running := cpu_nr_running i + 1\<rparr>)"

definition count_down :: "cpu_info \<Rightarrow> cpu_info" where
  "count_down i = update_load (i\<lparr>cpu_nr_running := cpu_nr_running i - 1\<rparr>)"

definition set_cpu :: "u8 \<Rightarrow> cpu_info \<Rightarrow> sched_state \<Rightarrow> sched_state" where
  "set_cpu c i s = s\<lparr>ss_cpus := (ss_cpus s)(c \<mapsto> i)\<rparr>"

definition put_ready :: "task_store \<Rightarrow> task_ptr \<Rightarrow> ready_queue \<Rightarrow> ready_queue" where
  "put_ready store t q = snd (rq_enqueue store t q)"

definition enqueue_on_suitable_cpu :: "task_ptr \<Rightarrow> sched_state \<Rightarrow> sched_state" where
  "enqueue_on_suitable_cpu t s =
     (case find (can_run_on (ss_tasks s t)) cpu_ids of
        Some c \<Rightarrow> schedule_on_cpu c t s
      | None \<Rightarrow> s)"

definition cfs_put :: "task_store \<Rightarrow> task_ptr \<Rightarrow> scheduler \<Rightarrow> scheduler" where
  "cfs_put store t sc = sc\<lparr>sc_cfs_queue := map_option (cfs_enqueue store t) (sc_cfs_queue sc)\<rparr>"

definition sc_enqueue :: "task_ptr \<Rightarrow> scheduler \<Rightarrow> sched_state \<Rightarrow> scheduler \<times> sched_state" where
  "sc_enqueue t sc s =
     (if \<not> can_run_on (ss_tasks s t) (sc_cpu_id sc) then (sc, enqueue_on_suitable_cpu t s)
      else
        let s1 = set_task t ((ss_tasks s t)\<lparr>t_state := PsReady\<rparr>) s;
            store = ss_tasks s1;
            real_time = (t_sched_class (store t) = ScRealTime)
        in case ss_cpus s1 (sc_cpu_id sc) of
             Some i \<Rightarrow>
               let to_ready = i\<lparr>cpu_ready_queue := put_ready store t (cpu_ready_queue i)\<rparr>
               in (case sc_algorithm sc of
                     Cfs \<Rightarrow>
                       if sc_cfs_queue sc = None then (sc, s1)
                       else (cfs_put store t sc, set_cpu (sc_cpu_id sc) (count_up i) s1)
                   | Hybrid \<Rightarrow>
                       if real_time then (sc, set_cpu (sc_cpu_id sc) (count_up to_ready) s1)
                       else (cfs_put store t sc, set_cpu (sc_cpu_id sc) (count_up i) s1)
                   | _ \<Rightarrow> (sc, set_cpu (sc_cpu_id sc) (count_up to_ready) s1))
           | None \<Rightarrow>
               let to_ready = s1\<lparr>ss_ready_queue := put_ready store t (ss_ready_queue s1)\<rparr>
               in (case sc_algorithm sc of
                     Cfs \<Rightarrow> (cfs_put store t sc, s1)
                   | Hybrid \<Rightarrow> if real_time then (sc, to_ready) else (cfs_put store t sc, s1)
                   | _ \<Rightarrow> (sc, to_ready)))"

section \<open>The next task\<close>

text \<open>
  The loop of the round-robin and the fair choice: tasks are taken from a queue until one may run, the
  others are put back.
\<close>

partial_function (option) pick_loop ::
  "(task_ptr \<Rightarrow> bool) \<Rightarrow> ('q \<Rightarrow> task_ptr option \<times> 'q) \<Rightarrow> (task_ptr \<Rightarrow> 'q \<Rightarrow> 'q) \<Rightarrow> 'q \<Rightarrow> (task_ptr option \<times> 'q) option" where
  "pick_loop ok deq enq q =
     (case deq q of
        (None, q1) \<Rightarrow> Some (None, q1)
      | (Some p, q1) \<Rightarrow> if ok p then Some (Some p, q1) else pick_loop ok deq enq (enq p q1))"

text \<open>The loop of the priority choice, which puts back at most as many tasks as it has tries.\<close>

fun pick_tries :: "nat \<Rightarrow> (task_ptr \<Rightarrow> bool) \<Rightarrow> task_store \<Rightarrow> ready_queue \<Rightarrow> task_ptr option \<times> ready_queue" where
  "pick_tries 0 ok store q = (None, q)"
| "pick_tries (Suc n) ok store q =
     (case rq_dequeue q of
        (None, q1) \<Rightarrow> (None, q1)
      | (Some p, q1) \<Rightarrow> if ok p then (Some p, q1) else pick_tries n ok store (put_ready store p q1))"

definition MAX_ATTEMPTS :: nat where "MAX_ATTEMPTS = 10"

text \<open>Stealing from the busiest other processor.\<close>

definition busiest_cpu :: "u8 \<Rightarrow> sched_state \<Rightarrow> u8 option" where
  "busiest_cpu c s =
     snd (fold (\<lambda>d (best_load, best).
            (case ss_cpus s d of
               Some i \<Rightarrow> if d \<noteq> c \<and> cpu_nr_running i > best_load \<and> cpu_nr_running i \<ge> 2
                         then (cpu_nr_running i, Some d) else (best_load, best)
             | None \<Rightarrow> (best_load, best))) cpu_ids (0, None))"

definition steal_task :: "u8 \<Rightarrow> sched_state \<Rightarrow> task_ptr option \<times> sched_state" where
  "steal_task c s =
     (case busiest_cpu c s of
        None \<Rightarrow> (None, s)
      | Some v \<Rightarrow>
          (case ss_cpus s v of
             None \<Rightarrow> (None, s)
           | Some i \<Rightarrow>
               (case rq_dequeue (cpu_ready_queue i) of
                  (None, q) \<Rightarrow> (None, set_cpu v (i\<lparr>cpu_ready_queue := q\<rparr>) s)
                | (Some p, q) \<Rightarrow>
                    if can_run_on (ss_tasks s p) c
                    then (Some p, set_cpu v (i\<lparr>cpu_ready_queue := q, cpu_nr_running := cpu_nr_running i - 1\<rparr>) s)
                    else (None, set_cpu v (i\<lparr>cpu_ready_queue := put_ready (ss_tasks s) p q\<rparr>) s))))"

definition or_idle :: "scheduler \<Rightarrow> task_ptr option \<Rightarrow> task_ptr option" where
  "or_idle sc r = (case r of Some p \<Rightarrow> Some p | None \<Rightarrow> sc_idle_task sc)"

definition pick_next_rr :: "scheduler \<Rightarrow> sched_state \<Rightarrow> (task_ptr option \<times> sched_state) option" where
  "pick_next_rr sc s =
     (let c = sc_cpu_id sc; ok = (\<lambda>p. can_run_on (ss_tasks s p) c);
          steal = (\<lambda>s1. case steal_task c s1 of (r, s2) \<Rightarrow> (or_idle sc r, s2))
      in case ss_cpus s c of
           Some i \<Rightarrow>
             (case pick_loop ok rq_dequeue (put_ready (ss_tasks s)) (cpu_ready_queue i) of
                None \<Rightarrow> None
              | Some (Some p, q) \<Rightarrow> Some (Some p, set_cpu c (count_down (i\<lparr>cpu_ready_queue := q\<rparr>)) s)
              | Some (None, q) \<Rightarrow> Some (steal (set_cpu c (i\<lparr>cpu_ready_queue := q\<rparr>) s)))
         | None \<Rightarrow>
             (case pick_loop ok rq_dequeue (put_ready (ss_tasks s)) (ss_ready_queue s) of
                None \<Rightarrow> None
              | Some (Some p, q) \<Rightarrow> Some (Some p, s\<lparr>ss_ready_queue := q\<rparr>)
              | Some (None, q) \<Rightarrow> Some (steal (s\<lparr>ss_ready_queue := q\<rparr>))))"

definition pick_next_priority :: "scheduler \<Rightarrow> sched_state \<Rightarrow> task_ptr option \<times> sched_state" where
  "pick_next_priority sc s =
     (let c = sc_cpu_id sc; ok = (\<lambda>p. can_run_on (ss_tasks s p) c)
      in case ss_cpus s c of
           Some i \<Rightarrow>
             (case pick_tries MAX_ATTEMPTS ok (ss_tasks s) (cpu_ready_queue i) of
                (Some p, q) \<Rightarrow> (Some p, set_cpu c (count_down (i\<lparr>cpu_ready_queue := q\<rparr>)) s)
              | (None, q) \<Rightarrow> (sc_idle_task sc, set_cpu c (i\<lparr>cpu_ready_queue := q\<rparr>) s))
         | None \<Rightarrow>
             (case pick_tries MAX_ATTEMPTS ok (ss_tasks s) (ss_ready_queue s) of
                (r, q) \<Rightarrow> (or_idle sc r, s\<lparr>ss_ready_queue := q\<rparr>)))"

definition pick_next_cfs :: "scheduler \<Rightarrow> sched_state \<Rightarrow> (task_ptr option \<times> scheduler) option" where
  "pick_next_cfs sc s =
     (case sc_cfs_queue sc of
        None \<Rightarrow> Some (sc_idle_task sc, sc)
      | Some q \<Rightarrow>
          (case pick_loop (\<lambda>p. can_run_on (ss_tasks s p) (sc_cpu_id sc)) (cfs_dequeue (ss_tasks s))
                  (cfs_enqueue (ss_tasks s)) q of
             None \<Rightarrow> None
           | Some (r, q1) \<Rightarrow> Some (or_idle sc r, sc\<lparr>sc_cfs_queue := Some q1\<rparr>)))"

definition pick_next_hybrid :: "scheduler \<Rightarrow> sched_state \<Rightarrow> (task_ptr option \<times> scheduler \<times> sched_state) option" where
  "pick_next_hybrid sc s =
     (case pick_loop (\<lambda>p. can_run_on (ss_tasks s p) (sc_cpu_id sc)) rq_dequeue (put_ready (ss_tasks s)) (ss_ready_queue s) of
        None \<Rightarrow> None
      | Some (Some p, q) \<Rightarrow> Some (Some p, sc, s\<lparr>ss_ready_queue := q\<rparr>)
      | Some (None, q) \<Rightarrow>
          (case pick_next_cfs sc s of
             None \<Rightarrow> None
           | Some (r, sc1) \<Rightarrow> Some (r, sc1, s\<lparr>ss_ready_queue := q\<rparr>)))"

definition pick_next :: "scheduler \<Rightarrow> sched_state \<Rightarrow> (task_ptr option \<times> scheduler \<times> sched_state) option" where
  "pick_next sc s =
     (case sc_algorithm sc of
        RoundRobin \<Rightarrow> map_option (\<lambda>(r, s1). (r, sc, s1)) (pick_next_rr sc s)
      | PriorityBased \<Rightarrow> (case pick_next_priority sc s of (r, s1) \<Rightarrow> Some (r, sc, s1))
      | Cfs \<Rightarrow> map_option (\<lambda>(r, sc1). (r, sc1, s)) (pick_next_cfs sc s)
      | Hybrid \<Rightarrow> pick_next_hybrid sc s)"

section \<open>Scheduling decisions\<close>

definition should_preempt :: "u64 \<Rightarrow> task \<Rightarrow> task \<Rightarrow> bool" where
  "should_preempt now current next =
     (if t_sched_class current = ScIdle \<and> t_sched_class next \<noteq> ScIdle then True
      else if t_sched_class next = ScRealTime \<and> t_sched_class current \<noteq> ScRealTime then True
      else if t_sched_class next = t_sched_class current then
        let next_prio = effective_priority now next; curr_prio = effective_priority now current
        in (case t_sched_class current of
              ScRealTime \<Rightarrow> next_prio < curr_prio
            | ScNormal \<Rightarrow> next_prio < curr_prio \<or> next_prio = curr_prio \<and> t_time_slice current = 0
            | ScIdle \<Rightarrow> False)
      else False)"

definition switch_to :: "u8 \<Rightarrow> task_ptr \<Rightarrow> scheduler \<Rightarrow> sched_state \<Rightarrow> scheduler \<times> sched_state" where
  "switch_to hw next sc s =
     (if sc_current sc = Some next then (sc, s)
      else
        let voluntary = (case sc_current sc of
               Some c \<Rightarrow> t_state (ss_tasks s c) = PsBlocked \<or> t_state (ss_tasks s c) = PsSleeping
             | None \<Rightarrow> False);
            s1 = (case sc_current sc of
               Some c \<Rightarrow>
                 let t = ss_tasks s c
                 in set_task c (t\<lparr>t_state := (if t_state t = PsRunning then PsReady else t_state t),
                                  t_current_cpu := None\<rparr>) s
             | None \<Rightarrow> s);
            s2 = set_task next (mark_scheduled voluntary
                   ((ss_tasks s1 next)\<lparr>t_state := PsRunning, t_current_cpu := Some hw\<rparr>)) s1
        in (sc\<lparr>sc_current := Some next\<rparr>, s2))"

text \<open>What \<open>schedule\<close> does with the chosen task when the current one cannot go on.\<close>

definition switch_next :: "u8 \<Rightarrow> task_ptr option \<times> scheduler \<times> sched_state \<Rightarrow> scheduler \<times> sched_state" where
  "switch_next hw r = (case r of (Some next, sc, s) \<Rightarrow> switch_to hw next sc s | (None, sc, s) \<Rightarrow> (sc, s))"

definition preempt_next :: "u8 \<Rightarrow> u64 \<Rightarrow> task_ptr \<Rightarrow> task_ptr option \<times> scheduler \<times> sched_state \<Rightarrow> scheduler \<times> sched_state" where
  "preempt_next hw now cur r =
     (case r of
        (Some next, sc, s) \<Rightarrow>
          if should_preempt now (ss_tasks s cur) (ss_tasks s next)
          then let (sc1, s1) = sc_enqueue cur sc s in switch_to hw next sc1 s1
          else (sc, s)
      | (None, sc, s) \<Rightarrow> (sc, s))"

definition schedule :: "u8 \<Rightarrow> u64 \<Rightarrow> scheduler \<Rightarrow> sched_state \<Rightarrow> (scheduler \<times> sched_state) option" where
  "schedule hw now sc s =
     (if \<not> is_preemptible sc then Some (sc, s)
      else case sc_current sc of
             None \<Rightarrow> map_option (switch_next hw) (pick_next sc s)
           | Some cur \<Rightarrow>
               if t_state (ss_tasks s cur) = PsRunning
               then map_option (preempt_next hw now cur) (pick_next sc s)
               else map_option (switch_next hw) (pick_next sc s))"

definition sc_tick :: "u8 \<Rightarrow> u64 \<Rightarrow> scheduler \<Rightarrow> sched_state \<Rightarrow> (scheduler \<times> sched_state) option" where
  "sc_tick hw now sc s =
     (case sc_current sc of
        None \<Rightarrow> Some (sc, s)
      | Some cur \<Rightarrow>
          let t = ss_tasks s cur;
              t1 = t\<lparr>t_time_slice := (if 0 < t_time_slice t then t_time_slice t - 1 else t_time_slice t)\<rparr>
          in if t_time_slice t1 = 0 \<and> is_preemptible sc
             then schedule hw now sc (set_task cur (t1\<lparr>t_time_slice := DEFAULT_TIME_SLICE\<rparr>) s)
             else Some (sc, set_task cur t1 s))"

text \<open>The weights of \<open>scheduler.rs\<close> differ from those of the fair queue for real-time priorities.\<close>

fun vruntime_weight :: "priority \<Rightarrow> u64" where
  "vruntime_weight SystemHigh = 200"
| "vruntime_weight SystemNormal = 100"
| "vruntime_weight UserHigh = 50"
| "vruntime_weight UserNormal = 20"
| "vruntime_weight UserLow = 10"
| "vruntime_weight IdlePriority = 1"
| "vruntime_weight _ = 20"

definition sc_update_runtime :: "u64 \<Rightarrow> task_ptr \<Rightarrow> u64 \<Rightarrow> scheduler \<Rightarrow> sched_state \<Rightarrow> sched_state" where
  "sc_update_runtime now p runtime sc s =
     (let t = task_update_runtime now runtime (ss_tasks s p)
      in set_task p (if sc_algorithm sc = Cfs \<or> sc_algorithm sc = Hybrid \<and> t_sched_class t \<noteq> ScRealTime
                     then t\<lparr>t_vruntime := t_vruntime t + runtime * 1024 div vruntime_weight (t_priority t)\<rparr>
                     else t) s)"

text \<open>The registry of tasks by process identifier.\<close>

type_synonym task_registry = "(u64, task_ptr) btree_map option"

definition register_task :: "u64 \<Rightarrow> task_ptr \<Rightarrow> task_registry \<Rightarrow> task_registry" where
  "register_task pid t reg = Some (bt_insert pid t (case reg of None \<Rightarrow> [] | Some m \<Rightarrow> m))"

definition unregister_task :: "u64 \<Rightarrow> task_registry \<Rightarrow> task_registry" where
  "unregister_task pid reg = map_option (bt_remove pid) reg"

definition get_task_ptr :: "u64 \<Rightarrow> task_registry \<Rightarrow> task_ptr option" where
  "get_task_ptr pid reg = (case reg of None \<Rightarrow> None | Some m \<Rightarrow> bt_get m pid)"

section \<open>Load balancing\<close>

text \<open>Taking up to \<open>n\<close> tasks that may run on the target processor from a queue.\<close>

fun collect_tasks :: "nat \<Rightarrow> (task_ptr \<Rightarrow> bool) \<Rightarrow> task_store \<Rightarrow> ready_queue \<Rightarrow> task_ptr list \<times> ready_queue" where
  "collect_tasks 0 ok store q = ([], q)"
| "collect_tasks (Suc n) ok store q =
     (case rq_dequeue q of
        (None, q1) \<Rightarrow> collect_tasks n ok store q1
      | (Some p, q1) \<Rightarrow>
          if ok p then let (ps, q2) = collect_tasks n ok store q1 in (p # ps, q2)
          else collect_tasks n ok store (put_ready store p q1))"

fun settle_tasks :: "u8 \<Rightarrow> u8 \<Rightarrow> task_ptr list \<Rightarrow> sched_state \<Rightarrow> sched_state" where
  "settle_tasks source target [] s = s"
| "settle_tasks source target (p # ps) s =
     (let t = ss_tasks s p;
          s1 = set_task p (t\<lparr>t_last_cpu := Some source, t_migrations := t_migrations t + 1\<rparr>) s
      in case ss_cpus s1 target of
           None \<Rightarrow> settle_tasks source target ps s1
         | Some i \<Rightarrow> settle_tasks source target ps
             (set_cpu target (i\<lparr>cpu_ready_queue := put_ready (ss_tasks s1) p (cpu_ready_queue i)\<rparr>) s1))"

definition migrate_tasks :: "u8 \<Rightarrow> u8 \<Rightarrow> u32 \<Rightarrow> sched_state \<Rightarrow> sched_state" where
  "migrate_tasks source target n s =
     (case ss_cpus s source of
        None \<Rightarrow> s
      | Some i \<Rightarrow>
          (case collect_tasks (unat n) (\<lambda>p. can_run_on (ss_tasks s p) target) (ss_tasks s) (cpu_ready_queue i) of
             (ps, q) \<Rightarrow>
               let s1 = set_cpu source (update_load (i\<lparr>cpu_ready_queue := q,
                          cpu_nr_running := cpu_nr_running i - of_nat (length ps)\<rparr>)) s
               in case ss_cpus s1 target of
                    None \<Rightarrow> s1
                  | Some _ \<Rightarrow>
                      let s2 = settle_tasks source target ps s1
                      in (case ss_cpus s2 target of
                            None \<Rightarrow> s2
                          | Some j \<Rightarrow>
                              let s3 = set_cpu target (update_load (j\<lparr>cpu_nr_running := cpu_nr_running j + of_nat (length ps)\<rparr>)) s2
                              in if cpu_idle j then s3\<lparr>ss_ipis := ss_ipis s3 @ [target]\<rparr> else s3)))"

definition load_extremes :: "sched_state \<Rightarrow> (u8 \<times> u8) \<times> (u8 \<times> u8)" where
  "load_extremes s =
     fold (\<lambda>c ((max_load, busiest), (min_load, idlest)).
        (case ss_cpus s c of
           Some i \<Rightarrow>
             if cpu_online i then
               ((if cpu_load i > max_load then (cpu_load i, c) else (max_load, busiest)),
                (if cpu_load i < min_load then (cpu_load i, c) else (min_load, idlest)))
             else ((max_load, busiest), (min_load, idlest))
         | None \<Rightarrow> ((max_load, busiest), (min_load, idlest)))) cpu_ids ((0, 0), (100, 0))"

definition balance_load :: "sched_state \<Rightarrow> sched_state" where
  "balance_load s =
     (case load_extremes s of
        ((max_load, busiest), (min_load, idlest)) \<Rightarrow>
          let imbalance = (if min_load \<le> max_load then max_load - min_load else 0);
              n = min (ucast (imbalance div 20)) (3 :: u32)
          in if imbalance > 20 \<and> 0 < n then migrate_tasks busiest idlest n s else s)"

section \<open>The ready queue of a scheduler\<close>

definition ready_of :: "scheduler \<Rightarrow> sched_state \<Rightarrow> ready_queue" where
  "ready_of sc s = (case ss_cpus s (sc_cpu_id sc) of Some i \<Rightarrow> cpu_ready_queue i | None \<Rightarrow> ss_ready_queue s)"

definition ready_levels :: "scheduler \<Rightarrow> sched_state \<Rightarrow> task_ptr list list" where
  "ready_levels sc s = rq_levels (ready_of sc s)"

text \<open>The first level that holds a task.\<close>

fun top_level :: "'a list list \<Rightarrow> 'a list" where
  "top_level [] = []"
| "top_level (l # ls) = (if l = [] then top_level ls else l)"

lemma first_deq_top:
  "first_deq ls = (case top_level ls of [] \<Rightarrow> (None, ls) | x # xs \<Rightarrow> (Some x, snd (first_deq ls)))"
proof (induction ls rule: first_deq.induct)
  case (2 ls)
  then show ?case by (cases "top_level ls"; cases "first_deq ls") auto
qed auto

lemma first_deq_fst: "fst (first_deq ls) = (case top_level ls of [] \<Rightarrow> None | x # xs \<Rightarrow> Some x)"
  by (subst first_deq_top) (simp split: list.split)

lemma top_level_Nil: "top_level ls = [] \<longleftrightarrow> concat ls = []"
  by (induction ls) auto

lemma top_level_first:
  assumes "top_level ls = x # xs"
  shows "\<exists>i < length ls. (\<forall>j < i. ls ! j = []) \<and> ls ! i = x # xs \<and> first_deq ls = (Some x, ls[i := xs])"
proof -
  have d: "first_deq ls = (Some x, snd (first_deq ls))" using first_deq_top [of ls] assms by simp
  obtain i ys where i: "i < length ls" "\<forall>j < i. ls ! j = []" "ls ! i = x # ys" "snd (first_deq ls) = ls[i := ys]"
    using first_deq_first [OF d] by blast
  have "top_level ls = ls ! i" using i(1-3)
  proof (induction ls arbitrary: i)
    case (Cons l ls)
    show ?case
    proof (cases i)
      case (Suc k)
      then have "l = []" using Cons.prems(2) by (metis nth_Cons_0 zero_less_Suc)
      moreover have "\<forall>j < k. ls ! j = []" using Cons.prems(2) Suc by (metis Suc_less_eq nth_Cons_Suc)
      ultimately show ?thesis using Cons Suc by simp
    qed (use Cons.prems in auto)
  qed simp
  then show ?thesis using i assms d by (intro exI [of _ i]) auto
qed

lemma top_level_update:
  assumes "i < length ls" "\<forall>j < i. ls ! j = []" "ys \<noteq> []"
  shows "top_level (ls[i := ys]) = ys"
  using assms
proof (induction ls arbitrary: i)
  case (Cons l ls)
  show ?case
  proof (cases i)
    case (Suc k)
    then have "l = []" using Cons.prems(2) by (metis nth_Cons_0 zero_less_Suc)
    moreover have "\<forall>j < k. ls ! j = []" using Cons.prems(2) Suc by (metis Suc_less_eq nth_Cons_Suc)
    ultimately show ?thesis using Cons Suc by simp
  qed (use Cons.prems in auto)
qed simp

lemma mset_concat_update:
  "i < length ls \<Longrightarrow> mset (concat (ls[i := ys])) + mset (ls ! i) = mset (concat ls) + mset ys"
proof (induction ls arbitrary: i)
  case (Cons l ls)
  then show ?case by (cases i) (simp_all add: ac_simps)
qed simp

text \<open>Taking a task removes one occurrence, putting one back adds one unless the level is full.\<close>

lemma mset_first_deq:
  "mset (concat ls) = mset (concat (snd (first_deq ls))) + (case fst (first_deq ls) of None \<Rightarrow> {#} | Some x \<Rightarrow> {#x#})"
proof (cases "top_level ls")
  case Nil
  then show ?thesis using first_deq_top [of ls] by simp
next
  case (Cons x xs)
  then obtain i where "i < length ls" "ls ! i = x # xs" "first_deq ls = (Some x, ls[i := xs])"
    using top_level_first [OF Cons] by blast
  then show ?thesis using mset_concat_update [of i ls xs] by simp
qed

lemma mset_level_enq:
  assumes "i < length ls"
  shows "mset (concat (snd (level_enq i x ls))) = mset (concat ls) + (if fst (level_enq i x ls) then {#x#} else {#})"
  using mset_concat_update [OF assms, of "ls ! i @ [x]"] by (simp add: level_enq_def)

section \<open>Queues of tasks that stand at their level\<close>

definition rq_ok :: "task_store \<Rightarrow> ready_queue \<Rightarrow> bool" where
  "rq_ok store q = (rq_inv q \<and> levels_sorted store (rq_levels q))"

lemma rq_ok_length: "rq_ok store q \<Longrightarrow> length (rq_levels q) = 35"
  by (auto simp: rq_ok_def dest: levels_sorted_len)

lemma rq_ok_cong: "(\<And>u. level_of (store' u) = level_of (store u)) \<Longrightarrow> rq_ok store' q = rq_ok store q"
  by (simp add: rq_ok_def levels_sorted_def)

lemma rq_dequeue_levels:
  assumes "rq_ok store q"
  shows "\<exists>q1. rq_dequeue q = (fst (first_deq (rq_levels q)), q1) \<and> rq_ok store q1 \<and>
    rq_levels q1 = snd (first_deq (rq_levels q))"
proof -
  obtain r q1 where d: "rq_dequeue q = (r, q1)" by force
  have "rq_inv q1 \<and> first_deq (rq_levels q) = (r, rq_levels q1)"
    using rq_dequeue_spec [OF _ d] assms by (simp add: rq_ok_def)
  moreover have "levels_sorted store (rq_levels q1)"
    using spec_step_sorted [of store "rq_levels q" RqDequeue "RqTask r" "rq_levels q1"] assms calculation
    by (simp add: rq_ok_def)
  ultimately show ?thesis using d by (auto simp: rq_ok_def)
qed

lemma put_ready_levels:
  assumes "rq_ok store q"
  shows "rq_ok store (put_ready store t q)"
    "rq_levels (put_ready store t q) = snd (level_enq (level_of (store t)) t (rq_levels q))"
proof -
  obtain ok q1 where e: "rq_enqueue store t q = (ok, q1)" by force
  have l: "rq_inv q1 \<and> level_enq (level_of (store t)) t (rq_levels q) = (ok, rq_levels q1)"
    using rq_enqueue_spec [OF _ e] assms by (simp add: rq_ok_def)
  moreover have "levels_sorted store (rq_levels q1)"
    using spec_step_sorted [of store "rq_levels q" "RqEnqueue t" "RqFlag ok" "rq_levels q1"] assms l
    by (simp add: rq_ok_def)
  ultimately show "rq_ok store (put_ready store t q)"
    "rq_levels (put_ready store t q) = snd (level_enq (level_of (store t)) t (rq_levels q))"
    using e by (simp_all add: put_ready_def rq_ok_def)
qed

lemma level_capacity:
  assumes "rq_inv q" "l \<in> set (rq_levels q)"
  shows "length l \<le> MAX_TASKS_PER_QUEUE"
  using assms by (auto simp: rq_inv_def rq_levels_def levels_inv_def pq_inv_def)

text \<open>A task that is taken and put back goes to the end of its level, which always has room for it.\<close>

lemma rotate_top:
  assumes ok: "rq_ok store q" and top: "top_level (rq_levels q) = x # xs"
  shows "\<exists>q1. rq_dequeue q = (Some x, q1) \<and> rq_ok store (put_ready store x q1) \<and>
    top_level (rq_levels (put_ready store x q1)) = xs @ [x] \<and>
    mset (concat (rq_levels (put_ready store x q1))) = mset (concat (rq_levels q))"
proof -
  let ?ls = "rq_levels q"
  obtain i where i: "i < length ?ls" "\<forall>j < i. ?ls ! j = []" "?ls ! i = x # xs" "first_deq ?ls = (Some x, ?ls[i := xs])"
    using top_level_first [OF top] by blast
  obtain q1 where q1: "rq_dequeue q = (Some x, q1)" "rq_ok store q1" "rq_levels q1 = ?ls[i := xs]"
    using rq_dequeue_levels [OF ok] i(4) by auto
  have lv: "level_of (store x) = i"
    using levels_sortedD [of store ?ls i x] ok i by (simp add: rq_ok_def)
  have "length (?ls ! i) \<le> MAX_TASKS_PER_QUEUE"
    using level_capacity [of q "?ls ! i"] ok i(1) by (simp add: rq_ok_def)
  then have "level_enq i x (?ls[i := xs]) = (True, ?ls[i := xs @ [x]])" using i by (simp add: level_enq_def)
  then have "rq_levels (put_ready store x q1) = ?ls[i := xs @ [x]]"
    using put_ready_levels(2) [OF q1(2), of x] lv q1(3) by simp
  moreover have "mset (concat (?ls[i := xs @ [x]])) = mset (concat ?ls)"
    using mset_concat_update [OF i(1), of "xs @ [x]"] i(3) by simp
  ultimately show ?thesis using q1(1) put_ready_levels(1) [OF q1(2)] top_level_update [OF i(1,2), of "xs @ [x]"]
    by simp
qed

lemma dequeue_top:
  "rq_ok store q \<Longrightarrow> top_level (rq_levels q) = [] \<Longrightarrow> \<exists>q1. rq_dequeue q = (None, q1)"
  using rq_dequeue_levels [of store q] first_deq_top [of "rq_levels q"] by auto

section \<open>When the round-robin choice returns\<close>

lemma pick_loop_finds:
  assumes "rq_ok store q" "p \<in> set (top_level (rq_levels q))" "ok p"
  shows "\<exists>r. pick_loop ok rq_dequeue (put_ready store) q = Some r"
proof -
  obtain pre suf where "top_level (rq_levels q) = pre @ p # suf" using assms(2) by (meson split_list)
  with assms(1) show ?thesis
  proof (induction pre arbitrary: q suf)
    case Nil
    then obtain q1 where "rq_dequeue q = (Some p, q1)" using rotate_top [of store q p suf] by auto
    then show ?case using assms(3) by (subst pick_loop.simps) simp
  next
    case (Cons x pre)
    obtain q1 where q1: "rq_dequeue q = (Some x, q1)" "rq_ok store (put_ready store x q1)"
      "top_level (rq_levels (put_ready store x q1)) = pre @ p # (suf @ [x])"
      using rotate_top [OF Cons.prems(1), of x "pre @ p # suf"] Cons.prems(2) by auto
    show ?case
    proof (cases "ok x")
      case True
      then show ?thesis using q1(1) by (subst pick_loop.simps) simp
    next
      case False
      then show ?thesis using Cons.IH [OF q1(2,3)] q1(1) by (subst pick_loop.simps) simp
    qed
  qed
qed

lemma pick_loop_returned:
  assumes "pick_loop ok rq_dequeue (put_ready store) q = Some r"
  shows "rq_ok store q \<longrightarrow> top_level (rq_levels q) = [] \<or> (\<exists>p \<in> set (top_level (rq_levels q)). ok p)"
proof (rule pick_loop.raw_induct [where P = "\<lambda>ok' deq enq q r. ok' = ok \<longrightarrow> deq = rq_dequeue \<longrightarrow> enq = put_ready store \<longrightarrow>
    rq_ok store q \<longrightarrow> top_level (rq_levels q) = [] \<or> (\<exists>p \<in> set (top_level (rq_levels q)). ok p)", OF _ assms, THEN mp, THEN mp, THEN mp, OF _ refl refl refl], goal_cases)
  case (1 f ok' deq enq q r)
  show ?case
  proof (intro impI)
    assume eqs: "ok' = ok" "deq = rq_dequeue" "enq = put_ready store" and q: "rq_ok store q"
    show "top_level (rq_levels q) = [] \<or> (\<exists>p \<in> set (top_level (rq_levels q)). ok p)"
    proof (cases "top_level (rq_levels q)")
      case (Cons x xs)
      obtain q1 where q1: "rq_dequeue q = (Some x, q1)" "rq_ok store (put_ready store x q1)"
        "top_level (rq_levels (put_ready store x q1)) = xs @ [x]"
        using rotate_top [OF q Cons] by auto
      show ?thesis
      proof (cases "ok x")
        case False
        then have "f ok' deq enq (put_ready store x q1) = Some r" using 1(2) q1(1) by (simp add: eqs)
        then show ?thesis using 1(1) q1 eqs Cons by fastforce
      qed (simp add: Cons)
    qed simp
  qed
qed

section \<open>Choice and hand-over with the priority algorithm\<close>

lemma set_cpu_simps [simp]:
  "ss_tasks (set_cpu c i s) = ss_tasks s" "ss_cpus (set_cpu c i s) = (ss_cpus s)(c \<mapsto> i)"
  "ss_ready_queue (set_cpu c i s) = ss_ready_queue s"
  by (simp_all add: set_cpu_def)

lemma set_task_ready [simp]: "ss_ready_queue (set_task p t s) = ss_ready_queue s"
  by (simp add: set_task_def)

lemma count_simps [simp]:
  "cpu_ready_queue (count_up i) = cpu_ready_queue i" "cpu_ready_queue (count_down i) = cpu_ready_queue i"
  by (simp_all add: count_up_def count_down_def update_load_def)

lemma level_of_simps [simp]:
  "level_of (t\<lparr>t_state := x\<rparr>) = level_of t" "level_of (t\<lparr>t_current_cpu := y\<rparr>) = level_of t"
  "level_of (t\<lparr>t_time_slice := z\<rparr>) = level_of t" "level_of (mark_scheduled v t) = level_of t"
  by (cases "t_sched_class t"; simp add: level_of_def rt_index_def normal_index_def mark_scheduled_def Let_def)+

lemma can_run_simps [simp]:
  "can_run_on (t\<lparr>t_state := x\<rparr>) = can_run_on t" "can_run_on (t\<lparr>t_current_cpu := y\<rparr>) = can_run_on t"
  "can_run_on (t\<lparr>t_time_slice := z\<rparr>) = can_run_on t" "can_run_on (mark_scheduled v t) = can_run_on t"
  by (simp_all add: can_run_on_def fun_eq_iff mark_scheduled_def Let_def)

lemma mark_scheduled_state [simp]: "t_state (mark_scheduled v t) = t_state t"
  by (simp add: mark_scheduled_def Let_def)

lemma pick_tries_first:
  assumes "rq_ok store q" "\<forall>p \<in> set (concat (rq_levels q)). ok p"
  shows "\<exists>q1. pick_tries (Suc n) ok store q = (fst (first_deq (rq_levels q)), q1) \<and> rq_ok store q1 \<and>
    rq_levels q1 = snd (first_deq (rq_levels q))"
proof -
  obtain q1 where q1: "rq_dequeue q = (fst (first_deq (rq_levels q)), q1)" "rq_ok store q1"
    "rq_levels q1 = snd (first_deq (rq_levels q))"
    using rq_dequeue_levels [OF assms(1)] by blast
  have "ok p" if "fst (first_deq (rq_levels q)) = Some p" for p
    using mset_first_deq [of "rq_levels q"] that assms(2)
    by (metis (no_types, lifting) option.simps(5) set_mset_mset union_iff union_single_eq_member)
  then show ?thesis using q1 by (cases "fst (first_deq (rq_levels q))") simp_all
qed

lemma pick_next_spec:
  assumes "sc_algorithm sc = PriorityBased" "rq_ok (ss_tasks s) (ready_of sc s)"
    and "\<forall>p \<in> set (concat (ready_levels sc s)). can_run_on (ss_tasks s p) (sc_cpu_id sc)"
  shows "\<exists>s1. pick_next sc s = Some (or_idle sc (fst (first_deq (ready_levels sc s))), sc, s1) \<and>
    ss_tasks s1 = ss_tasks s \<and> rq_ok (ss_tasks s) (ready_of sc s1) \<and>
    ready_levels sc s1 = snd (first_deq (ready_levels sc s))"
proof -
  obtain q1 where q1: "pick_tries MAX_ATTEMPTS (\<lambda>p. can_run_on (ss_tasks s p) (sc_cpu_id sc)) (ss_tasks s) (ready_of sc s) =
      (fst (first_deq (ready_levels sc s)), q1)" "rq_ok (ss_tasks s) q1" "rq_levels q1 = snd (first_deq (ready_levels sc s))"
    using pick_tries_first [OF assms(2) assms(3) [unfolded ready_levels_def], of 9]
    by (auto simp: MAX_ATTEMPTS_def ready_levels_def simp flip: eval_nat_numeral)
  show ?thesis
  proof (cases "ss_cpus s (sc_cpu_id sc)")
    case None
    then show ?thesis using q1 assms(1)
      by (simp add: pick_next_def pick_next_priority_def ready_of_def ready_levels_def)
  next
    case (Some i)
    then show ?thesis using q1 assms(1)
      by (cases "fst (first_deq (ready_levels sc s))")
        (simp_all add: pick_next_def pick_next_priority_def ready_of_def ready_levels_def or_idle_def)
  qed
qed

lemma enqueue_spec:
  assumes "sc_algorithm sc = PriorityBased" "rq_ok (ss_tasks s) (ready_of sc s)"
    and "can_run_on (ss_tasks s t) (sc_cpu_id sc)"
  shows "\<exists>s1. sc_enqueue t sc s = (sc, s1) \<and> ss_tasks s1 = (ss_tasks s)(t := (ss_tasks s t)\<lparr>t_state := PsReady\<rparr>) \<and>
    rq_ok (ss_tasks s) (ready_of sc s1) \<and>
    ready_levels sc s1 = snd (level_enq (level_of (ss_tasks s t)) t (ready_levels sc s))"
proof -
  let ?store = "(ss_tasks s)(t := (ss_tasks s t)\<lparr>t_state := PsReady\<rparr>)"
  have lv: "level_of (?store u) = level_of (ss_tasks s u)" for u
    by simp
  have ok: "rq_ok ?store q = rq_ok (ss_tasks s) q" for q by (rule rq_ok_cong [OF lv])
  have "rq_ok ?store (ready_of sc s)" using assms(2) by (simp add: ok)
  note p = put_ready_levels [OF this, of t, unfolded ok lv]
  show ?thesis
  proof (cases "ss_cpus s (sc_cpu_id sc)")
    case None
    then show ?thesis using p assms(1,3) by (simp add: sc_enqueue_def ready_of_def ready_levels_def Let_def)
  next
    case (Some i)
    then show ?thesis using p assms(1,3) by (simp add: sc_enqueue_def ready_of_def ready_levels_def Let_def)
  qed
qed

text \<open>Collecting tasks for migration takes them out of the queue of their processor and changes nothing else in it.\<close>

lemma collect_tasks_conserves:
  assumes "rq_ok store q" "collect_tasks n ok store q = (ps, q')"
  shows "rq_ok store q' \<and> mset (concat (rq_levels q)) = mset ps + mset (concat (rq_levels q')) \<and> (\<forall>p \<in> set ps. ok p) \<and> length ps \<le> n"
  using assms
proof (induction n arbitrary: q ps)
  case (Suc n)
  obtain q1 where q1: "rq_dequeue q = (fst (first_deq (rq_levels q)), q1)" "rq_ok store q1"
    "rq_levels q1 = snd (first_deq (rq_levels q))"
    using rq_dequeue_levels [OF Suc.prems(1)] by blast
  note m = mset_first_deq [of "rq_levels q", folded q1(3)]
  show ?case
  proof (cases "fst (first_deq (rq_levels q))")
    case None
    then show ?thesis using Suc.IH [OF q1(2), of ps] Suc.prems(2) q1(1) m by auto
  next
    case (Some x)
    then obtain xs where top: "top_level (rq_levels q) = x # xs"
      by (auto simp: first_deq_fst split: list.splits)
    show ?thesis
    proof (cases "ok x")
      case True
      then obtain ps1 where "collect_tasks n ok store q1 = (ps1, q')" "ps = x # ps1"
        using Suc.prems(2) q1(1) Some by (auto split: prod.splits)
      then show ?thesis using Suc.IH [OF q1(2), of ps1] m Some True by auto
    next
      case False
      then show ?thesis using Suc.IH [of "put_ready store x q1" ps] rotate_top [OF Suc.prems(1) top] Suc.prems(2) q1(1) Some
        by auto
    qed
  qed
qed auto

section \<open>Where a task is\<close>

text \<open>The waiting tasks, the most urgent first.\<close>

definition queued :: "scheduler \<Rightarrow> sched_state \<Rightarrow> task_ptr list" where
  "queued sc s = concat (ready_levels sc s)"

definition places :: "scheduler \<Rightarrow> sched_state \<Rightarrow> task_ptr \<Rightarrow> nat" where
  "places sc s p = count_list (queued sc s) p + of_bool (sc_current sc = Some p)"

definition sched_inv :: "task_ptr \<Rightarrow> scheduler \<Rightarrow> sched_state \<Rightarrow> bool" where
  "sched_inv idle sc s \<longleftrightarrow>
     sc_algorithm sc = PriorityBased \<and> sc_idle_task sc = Some idle \<and> sc_current sc \<noteq> None \<and>
     rq_ok (ss_tasks s) (ready_of sc s) \<and> can_run_on (ss_tasks s idle) (sc_cpu_id sc) \<and>
     (\<forall>p. 0 < places sc s p \<longrightarrow> can_run_on (ss_tasks s p) (sc_cpu_id sc)) \<and>
     (\<forall>p. p \<noteq> idle \<longrightarrow> places sc s p \<le> 1) \<and>
     (\<forall>p \<in> set (queued sc s). p \<noteq> idle \<longrightarrow> t_state (ss_tasks s p) = PsReady)"

lemma switch_to_simps [simp]:
  "sc_current (fst (switch_to hw n sc s)) = Some n" "sc_cpu_id (fst (switch_to hw n sc s)) = sc_cpu_id sc"
  "sc_algorithm (fst (switch_to hw n sc s)) = sc_algorithm sc"
  "sc_idle_task (fst (switch_to hw n sc s)) = sc_idle_task sc"
  "ss_cpus (snd (switch_to hw n sc s)) = ss_cpus s" "ss_ready_queue (snd (switch_to hw n sc s)) = ss_ready_queue s"
  "level_of (ss_tasks (snd (switch_to hw n sc s)) u) = level_of (ss_tasks s u)"
  "can_run_on (ss_tasks (snd (switch_to hw n sc s)) u) = can_run_on (ss_tasks s u)"
  by (simp_all add: switch_to_def set_task_def Let_def split: option.split)

lemma switch_to_ready [simp]:
  "ready_levels (fst (switch_to hw n sc s)) (snd (switch_to hw n sc s)) = ready_levels sc s"
  "ready_of (fst (switch_to hw n sc s)) (snd (switch_to hw n sc s)) = ready_of sc s"
  "queued (fst (switch_to hw n sc s)) (snd (switch_to hw n sc s)) = queued sc s"
  by (simp_all add: queued_def ready_levels_def ready_of_def split: option.split)

lemma switch_to_keeps_ready:
  "p \<noteq> n \<Longrightarrow> t_state (ss_tasks s p) = PsReady \<Longrightarrow> t_state (ss_tasks (snd (switch_to hw n sc s)) p) = PsReady"
  by (auto simp: switch_to_def Let_def split: option.split)

lemma switch_to_runs:
  "sc_current sc \<noteq> Some n \<Longrightarrow> t_state (ss_tasks (snd (switch_to hw n sc s)) n) = PsRunning"
  by (simp add: switch_to_def Let_def)

lemma switch_inv:
  assumes "sc_algorithm sc = PriorityBased" "sc_idle_task sc = Some idle" "rq_ok (ss_tasks s) (ready_of sc s)"
    and run: "can_run_on (ss_tasks s idle) (sc_cpu_id sc)" "can_run_on (ss_tasks s n) (sc_cpu_id sc)"
      "\<forall>p \<in> set (queued sc s). can_run_on (ss_tasks s p) (sc_cpu_id sc)"
    and one: "\<forall>p. p \<noteq> idle \<longrightarrow> count_list (queued sc s) p + of_bool (n = p) \<le> 1"
    and ready: "\<forall>p \<in> set (queued sc s). p \<noteq> idle \<longrightarrow> t_state (ss_tasks s p) = PsReady"
  shows "sched_inv idle (fst (switch_to hw n sc s)) (snd (switch_to hw n sc s))"
proof -
  have pl: "places (fst (switch_to hw n sc s)) (snd (switch_to hw n sc s)) p =
      count_list (queued sc s) p + of_bool (n = p)" for p
    by (simp add: places_def)
  have "p \<noteq> n" if "p \<in> set (queued sc s)" "p \<noteq> idle" for p
    using one that by (auto simp: count_list_0_iff dest!: spec [of _ p])
  then have "t_state (ss_tasks (snd (switch_to hw n sc s)) p) = PsReady"
    if "p \<in> set (queued sc s)" "p \<noteq> idle" for p
    using that ready switch_to_keeps_ready by blast
  moreover have "can_run_on (ss_tasks s p) (sc_cpu_id sc)"
    if "0 < count_list (queued sc s) p + of_bool (n = p)" for p
    using that run(2,3) count_list_0_iff [of "queued sc s" p] by (cases "n = p") auto
  moreover have "rq_ok (ss_tasks (snd (switch_to hw n sc s))) q = rq_ok (ss_tasks s) q" for q
    by (rule rq_ok_cong) simp
  ultimately show ?thesis unfolding sched_inv_def pl using assms(1-3) run(1) one by simp
qed

lemma count_list_pos: "x \<in> set xs \<Longrightarrow> 0 < count_list xs x"
  using count_list_0_iff [of xs x] by (cases "count_list xs x") auto

lemma count_list_posD: "0 < count_list xs x \<Longrightarrow> x \<in> set xs"
  by (induction xs) (auto split: if_splits)

text \<open>What the choice of the next task leaves of the places of tasks.\<close>

definition picked :: "task_ptr \<Rightarrow> scheduler \<Rightarrow> sched_state \<Rightarrow> task_ptr \<Rightarrow> sched_state \<Rightarrow> bool" where
  "picked idle sc s n s1 \<longleftrightarrow>
     ss_tasks s1 = ss_tasks s \<and> rq_ok (ss_tasks s) (ready_of sc s1) \<and> can_run_on (ss_tasks s n) (sc_cpu_id sc) \<and>
     set (queued sc s1) \<subseteq> set (queued sc s) \<and>
     (\<forall>p. p \<noteq> idle \<longrightarrow> count_list (queued sc s1) p + of_bool (n = p) = count_list (queued sc s) p)"

lemma pick_inv:
  assumes inv: "sched_inv idle sc s"
  shows "\<exists>n s1. pick_next sc s = Some (Some n, sc, s1) \<and> or_idle sc (fst (first_deq (ready_levels sc s))) = Some n \<and>
    ready_levels sc s1 = snd (first_deq (ready_levels sc s)) \<and> picked idle sc s n s1"
proof -
  let ?Q = "ready_levels sc s"
  have run: "can_run_on (ss_tasks s p) (sc_cpu_id sc)" if "p \<in> set (queued sc s)" for p
    using inv count_list_pos [OF that] by (auto simp: sched_inv_def places_def)
  obtain s1 where s1: "pick_next sc s = Some (or_idle sc (fst (first_deq ?Q)), sc, s1)" "ss_tasks s1 = ss_tasks s"
      "rq_ok (ss_tasks s) (ready_of sc s1)" "ready_levels sc s1 = snd (first_deq ?Q)"
    using pick_next_spec [of sc s] inv run [unfolded queued_def] by (auto simp: sched_inv_def)
  show ?thesis
  proof (cases "fst (first_deq ?Q)")
    case None
    then have "first_deq ?Q = (None, snd (first_deq ?Q))" by (simp add: prod_eq_iff)
    from first_deq_noneD [OF this] have "queued sc s1 = queued sc s" using s1(4) by (simp add: queued_def)
    then show ?thesis using s1 inv None by (simp add: sched_inv_def or_idle_def picked_def)
  next
    case (Some x)
    then have mx: "mset (queued sc s) = add_mset x (mset (queued sc s1))"
      using mset_first_deq [of ?Q] s1(4) by (simp add: queued_def)
    have "count_list (queued sc s) p = count_list (queued sc s1) p + of_bool (x = p)" for p
      using arg_cong [OF mx, of "\<lambda>M. count M p"] by (simp add: count_mset)
    moreover have "set (queued sc s) = insert x (set (queued sc s1))"
      using arg_cong [OF mx, of set_mset] by simp
    ultimately show ?thesis using s1 run [of x] Some by (simp add: or_idle_def picked_def subset_insertI)
  qed
qed

lemma enqueue_count:
  assumes "rq_ok store q" "Q = rq_levels q"
  shows "count_list (concat (snd (level_enq (level_of (store t)) t Q))) p \<le> count_list (concat Q) p + of_bool (t = p)"
    "set (concat (snd (level_enq (level_of (store t)) t Q))) \<subseteq> insert t (set (concat Q))"
proof -
  have l: "level_of (store t) < length Q" using rq_ok_length [OF assms(1)] level_of_bound by (simp add: assms(2))
  let ?E = "level_enq (level_of (store t)) t Q"
  have m: "mset (concat (snd ?E)) = mset (concat Q) + (if fst ?E then {#t#} else {#})"
    by (rule mset_level_enq [OF l])
  show "count_list (concat (snd ?E)) p \<le> count_list (concat Q) p + of_bool (t = p)"
    using arg_cong [OF m, of "\<lambda>M. count M p"] by (simp add: count_mset split: if_splits)
  show "set (concat (snd ?E)) \<subseteq> insert t (set (concat Q))"
    using arg_cong [OF m, of set_mset] by (auto split: if_splits)
qed

lemma sched_invD:
  assumes "sched_inv idle sc s" "sc_current sc = Some cur"
  shows "p = cur \<or> p \<in> set (queued sc s) \<Longrightarrow> can_run_on (ss_tasks s p) (sc_cpu_id sc)"
    "p \<in> set (queued sc s) \<Longrightarrow> p \<noteq> idle \<Longrightarrow> t_state (ss_tasks s p) = PsReady"
    "p \<noteq> idle \<Longrightarrow> count_list (queued sc s) p + of_bool (cur = p) \<le> 1"
    "sc_algorithm sc = PriorityBased" "sc_idle_task sc = Some idle" "can_run_on (ss_tasks s idle) (sc_cpu_id sc)"
proof -
  show "can_run_on (ss_tasks s p) (sc_cpu_id sc)" if "p = cur \<or> p \<in> set (queued sc s)"
  proof -
    have "0 < places sc s p" using that assms(2) count_list_pos [of p "queued sc s"] by (auto simp: places_def)
    then show ?thesis using assms(1) by (simp add: sched_inv_def)
  qed
qed (use assms in \<open>auto simp: sched_inv_def places_def\<close>)

text \<open>The three outcomes of a scheduling decision.\<close>

lemma picked_switch:
  assumes inv: "sched_inv idle sc s" "sc_current sc = Some cur" and p: "picked idle sc s n s1"
  shows "sched_inv idle (fst (switch_to hw n sc s1)) (snd (switch_to hw n sc s1))"
    "p \<noteq> idle \<Longrightarrow> places (fst (switch_to hw n sc s1)) (snd (switch_to hw n sc s1)) p \<le> places sc s p"
proof -
  note d = sched_invD [OF inv]
  have "count_list (queued sc s) p \<le> 1" if "p \<noteq> idle" for p using d(3) [OF that] by simp
  then show "sched_inv idle (fst (switch_to hw n sc s1)) (snd (switch_to hw n sc s1))"
    using p d(1,2,4-6) by (intro switch_inv) (auto simp: picked_def subset_iff)
  show "places (fst (switch_to hw n sc s1)) (snd (switch_to hw n sc s1)) p \<le> places sc s p" if "p \<noteq> idle" for p
    using p that by (simp add: places_def picked_def)
qed

lemma picked_keep:
  assumes inv: "sched_inv idle sc s" "sc_current sc = Some cur" and p: "picked idle sc s n s1"
  shows "sched_inv idle sc s1" "p \<noteq> idle \<Longrightarrow> places sc s1 p \<le> places sc s p"
proof -
  note d = sched_invD [OF inv]
  have c: "count_list (queued sc s1) p \<le> count_list (queued sc s) p" if "p \<noteq> idle" for p
    using p that by (metis picked_def le_add1)
  show "sched_inv idle sc s1"
    unfolding sched_inv_def places_def using p [unfolded picked_def] d(4-6) inv(2)
  proof (intro conjI allI impI ballI, goal_cases)
    case (7 p)
    then show ?case using le_trans [OF add_le_mono1 [OF c] d(3)] by auto
  qed (use d(1,2) in \<open>auto dest!: count_list_posD split: if_splits\<close>)
  show "places sc s1 p \<le> places sc s p" if "p \<noteq> idle" for p using c [OF that] by (simp add: places_def)
qed

lemma picked_preempt:
  assumes inv: "sched_inv idle sc s" "sc_current sc = Some cur" and p: "picked idle sc s n s1"
  shows "\<exists>s2. sc_enqueue cur sc s1 = (sc, s2) \<and>
    ready_levels sc s2 = snd (level_enq (level_of (ss_tasks s cur)) cur (ready_levels sc s1)) \<and>
    sched_inv idle (fst (switch_to hw n sc s2)) (snd (switch_to hw n sc s2)) \<and>
    (\<forall>p. p \<noteq> idle \<longrightarrow> places (fst (switch_to hw n sc s2)) (snd (switch_to hw n sc s2)) p \<le> places sc s p)"
proof -
  note d = sched_invD [OF inv] and n = p [unfolded picked_def]
  obtain s2 where s2: "sc_enqueue cur sc s1 = (sc, s2)"
    "ss_tasks s2 = (ss_tasks s)(cur := (ss_tasks s cur)\<lparr>t_state := PsReady\<rparr>)" "rq_ok (ss_tasks s) (ready_of sc s2)"
    "ready_levels sc s2 = snd (level_enq (level_of (ss_tasks s cur)) cur (ready_levels sc s1))"
    using enqueue_spec [OF d(4), of s1 cur] n d(1) [of cur] by auto
  have ok1: "rq_ok (ss_tasks s) (ready_of sc s1)" using n by blast
  note e = enqueue_count [OF ok1 ready_levels_def, of cur, folded s2(4), folded queued_def]
  have c: "count_list (queued sc s2) p + of_bool (n = p) \<le> count_list (queued sc s) p + of_bool (cur = p)"
    if "p \<noteq> idle" for p
    using e(1) [of p] n that by fastforce
  have in_q: "p = cur \<or> p \<in> set (queued sc s)" if "p \<in> set (queued sc s2)" for p using e(2) n that by auto
  have "sched_inv idle (fst (switch_to hw n sc s2)) (snd (switch_to hw n sc s2))"
  proof (intro switch_inv)
    show "rq_ok (ss_tasks s2) (ready_of sc s2)" using s2(3) unfolding s2(2) by (subst rq_ok_cong) auto
    show "\<forall>p \<in> set (queued sc s2). can_run_on (ss_tasks s2 p) (sc_cpu_id sc)" using in_q d(1) by (auto simp: s2(2))
    show "\<forall>p. p \<noteq> idle \<longrightarrow> count_list (queued sc s2) p + of_bool (n = p) \<le> 1" using c d(3) le_trans by blast
    show "\<forall>p \<in> set (queued sc s2). p \<noteq> idle \<longrightarrow> t_state (ss_tasks s2 p) = PsReady" using in_q d(2) by (auto simp: s2(2))
  qed (use d(4-6) n in \<open>auto simp: s2(2)\<close>)
  moreover have "places (fst (switch_to hw n sc s2)) (snd (switch_to hw n sc s2)) p \<le> places sc s p" if "p \<noteq> idle" for p
    using c [OF that] inv(2) by (simp add: places_def)
  ultimately show ?thesis using s2(1,4) by blast
qed

text \<open>Every call of \<open>schedule\<close> returns, keeps the invariant and adds no place for any task.\<close>

lemma schedule_inv:
  assumes inv: "sched_inv idle sc s"
  shows "\<exists>sc1 s1. schedule hw now sc s = Some (sc1, s1) \<and> sched_inv idle sc1 s1 \<and>
    (\<forall>p. p \<noteq> idle \<longrightarrow> places sc1 s1 p \<le> places sc s p)"
proof (cases "is_preemptible sc")
  case False
  then show ?thesis using inv by (simp add: schedule_def)
next
  case True
  obtain cur where cur: "sc_current sc = Some cur" using inv by (auto simp: sched_inv_def)
  obtain n s1 where n: "pick_next sc s = Some (Some n, sc, s1)" "picked idle sc s n s1" using pick_inv [OF inv] by blast
  have tasks: "ss_tasks s1 = ss_tasks s" using n(2) by (simp add: picked_def)
  consider (switch) "t_state (ss_tasks s cur) \<noteq> PsRunning"
    | (keep) "t_state (ss_tasks s cur) = PsRunning" "\<not> should_preempt now (ss_tasks s cur) (ss_tasks s n)"
    | (preempt) "t_state (ss_tasks s cur) = PsRunning" "should_preempt now (ss_tasks s cur) (ss_tasks s n)"
    by blast
  then show ?thesis
  proof cases
    case switch
    then have "schedule hw now sc s = Some (switch_to hw n sc s1)"
      using True cur n(1) by (simp add: schedule_def switch_next_def)
    then show ?thesis using picked_switch [OF inv cur n(2), where hw = hw] by (metis prod.collapse)
  next
    case keep
    then have "schedule hw now sc s = Some (sc, s1)"
      using True cur n(1) tasks by (simp add: schedule_def preempt_next_def)
    then show ?thesis using picked_keep [OF inv cur n(2)] by blast
  next
    case preempt
    obtain s2 where "sc_enqueue cur sc s1 = (sc, s2)"
      "sched_inv idle (fst (switch_to hw n sc s2)) (snd (switch_to hw n sc s2))"
      "\<forall>p. p \<noteq> idle \<longrightarrow> places (fst (switch_to hw n sc s2)) (snd (switch_to hw n sc s2)) p \<le> places sc s p"
      using picked_preempt [OF inv cur n(2), where hw = hw] by blast
    moreover have "schedule hw now sc s = Some (switch_to hw n sc s2)"
      using True cur n(1) tasks preempt calculation(1) by (simp add: schedule_def preempt_next_def)
    ultimately show ?thesis by (metis prod.collapse)
  qed
qed

section \<open>Runs of a scheduler\<close>

definition block_current :: "scheduler \<Rightarrow> sched_state \<Rightarrow> sched_state" where
  "block_current sc s =
     (case sc_current sc of
        Some cur \<Rightarrow> set_task cur ((ss_tasks s cur)\<lparr>t_state := PsBlocked\<rparr>) s
      | None \<Rightarrow> s)"

datatype sched_event = EvTick u64 | EvYield u64 | EvBlock u64 | EvWake task_ptr | EvDisable | EvEnable

fun sched_step :: "u8 \<Rightarrow> sched_event \<Rightarrow> scheduler \<times> sched_state \<Rightarrow> (scheduler \<times> sched_state) option" where
  "sched_step hw (EvTick now) (sc, s) = sc_tick hw now sc s"
| "sched_step hw (EvYield now) (sc, s) = schedule hw now sc s"
| "sched_step hw (EvBlock now) (sc, s) = schedule hw now sc (block_current sc s)"
| "sched_step hw (EvWake p) (sc, s) = Some (sc_enqueue p sc s)"
| "sched_step hw EvDisable (sc, s) = Some (disable_preemption sc, s)"
| "sched_step hw EvEnable (sc, s) = Some (enable_preemption sc, s)"

text \<open>
  A task is made ready only when it is neither running nor ready, and only the scheduler runs the idle
  task, which does not block.
\<close>

fun sched_allowed :: "task_ptr \<Rightarrow> sched_event \<Rightarrow> scheduler \<times> sched_state \<Rightarrow> bool" where
  "sched_allowed idle (EvWake p) (sc, s) =
     (p \<noteq> idle \<and> places sc s p = 0 \<and> can_run_on (ss_tasks s p) (sc_cpu_id sc))"
| "sched_allowed idle (EvBlock now) (sc, s) = (sc_current sc \<noteq> Some idle)"
| "sched_allowed idle e (sc, s) = True"

fun sched_run :: "u8 \<Rightarrow> task_ptr \<Rightarrow> sched_event list \<Rightarrow> scheduler \<times> sched_state \<Rightarrow> (scheduler \<times> sched_state) option" where
  "sched_run hw idle [] y = Some y"
| "sched_run hw idle (e # es) y =
     (if sched_allowed idle e y
      then (case sched_step hw e y of Some y1 \<Rightarrow> sched_run hw idle es y1 | None \<Rightarrow> None)
      else None)"

text \<open>A scheduler that starts: its idle task is current and its queue is empty.\<close>

definition sched_start :: "task_ptr \<Rightarrow> scheduler \<Rightarrow> sched_state \<Rightarrow> bool" where
  "sched_start idle sc s \<longleftrightarrow>
     (\<exists>sc0. sc = scheduler_init idle sc0 \<and> sc_algorithm sc0 = PriorityBased) \<and>
     can_run_on (ss_tasks s idle) (sc_cpu_id sc) \<and> ready_of sc s = rq_new"

lemma sched_start_inv:
  assumes "sched_start idle sc s"
  shows "sched_inv idle sc s"
proof -
  have "rq_ok (ss_tasks s) rq_new" by (simp add: rq_ok_def rq_new_inv levels_sorted_empty)
  moreover have "ready_levels sc s = replicate 35 []" using assms by (simp add: sched_start_def ready_levels_def rq_new_inv)
  then have "queued sc s = []" by (simp add: queued_def)
  ultimately show ?thesis using assms
    by (auto simp: sched_start_def sched_inv_def scheduler_init_def places_def)
qed

lemma ready_set_task [simp]:
  "ready_of sc (set_task p t s) = ready_of sc s" "ready_levels sc (set_task p t s) = ready_levels sc s"
  "queued sc (set_task p t s) = queued sc s" "places sc (set_task p t s) = places sc s"
  by (simp_all add: ready_of_def ready_levels_def queued_def places_def fun_eq_iff split: option.split)

lemma set_task_inv:
  assumes "sched_inv idle sc s" "level_of t = level_of (ss_tasks s c)" "can_run_on t = can_run_on (ss_tasks s c)"
    and "t_state t = t_state (ss_tasks s c) \<or> c \<notin> set (queued sc s)"
  shows "sched_inv idle sc (set_task c t s)"
proof -
  have "rq_ok ((ss_tasks s)(c := t)) q = rq_ok (ss_tasks s) q" for q by (rule rq_ok_cong) (simp add: assms(2))
  then show ?thesis using assms by (auto simp: sched_inv_def)
qed

lemma block_current_inv:
  assumes "sched_inv idle sc s" "sc_current sc \<noteq> Some idle"
  shows "sched_inv idle sc (block_current sc s)" "places sc (block_current sc s) = places sc s"
proof -
  obtain cur where cur: "sc_current sc = Some cur" using assms(1) by (auto simp: sched_inv_def)
  have "count_list (queued sc s) cur = 0" using sched_invD(3) [OF assms(1) cur, of cur] assms(2) cur by auto
  then have "cur \<notin> set (queued sc s)" by (simp add: count_list_0_iff)
  then show "sched_inv idle sc (block_current sc s)" "places sc (block_current sc s) = places sc s"
    using set_task_inv [OF assms(1)] cur by (simp_all add: block_current_def)
qed

lemma wake_inv:
  assumes inv: "sched_inv idle sc s" and al: "sched_allowed idle (EvWake p) (sc, s)"
  shows "\<exists>s1. sc_enqueue p sc s = (sc, s1) \<and> sched_inv idle sc s1 \<and>
    (\<forall>u. u \<noteq> p \<longrightarrow> places sc s1 u \<le> places sc s u)"
proof -
  obtain cur where cur: "sc_current sc = Some cur" using inv by (auto simp: sched_inv_def)
  note d = sched_invD [OF inv cur]
  have ok: "rq_ok (ss_tasks s) (ready_of sc s)" using inv by (simp add: sched_inv_def)
  obtain s1 where s1: "sc_enqueue p sc s = (sc, s1)"
    "ss_tasks s1 = (ss_tasks s)(p := (ss_tasks s p)\<lparr>t_state := PsReady\<rparr>)" "rq_ok (ss_tasks s) (ready_of sc s1)"
    "ready_levels sc s1 = snd (level_enq (level_of (ss_tasks s p)) p (ready_levels sc s))"
    using enqueue_spec [OF d(4) ok, of p] al by auto
  note e = enqueue_count [OF ok ready_levels_def, of p, folded s1(4), folded queued_def]
  have c: "places sc s1 u \<le> places sc s u + of_bool (p = u)" for u using e(1) [of u] by (simp add: places_def)
  have in_q: "u = p \<or> u \<in> set (queued sc s)" if "u \<in> set (queued sc s1)" for u using e(2) that by auto
  have "sched_inv idle sc s1"
    unfolding sched_inv_def using d(4,5) cur
  proof (intro conjI allI impI ballI, goal_cases)
    case 4
    show ?case using s1(3) unfolding s1(2) by (subst rq_ok_cong) auto
  next
    case (6 u)
    have "u = p \<or> 0 < places sc s u" using c [of u] 6 by (cases "p = u") auto
    then show ?case using inv al by (auto simp: s1(2) sched_inv_def)
  next
    case (7 u)
    have "places sc s u \<le> 1 \<and> (u = p \<longrightarrow> places sc s u = 0)" using inv al 7 by (auto simp: sched_inv_def)
    then show ?case using c [of u] by (cases "p = u") auto
  next
    case (8 u)
    then show ?case using in_q d(2) by (auto simp: s1(2))
  qed (use d(6) in \<open>auto simp: s1(2)\<close>)
  then show ?thesis using s1(1) c by (metis add.right_neutral of_bool_eq(1))
qed

lemma preemption_inv:
  "sched_inv idle (disable_preemption sc) s = sched_inv idle sc s" "places (disable_preemption sc) s = places sc s"
  "sched_inv idle (enable_preemption sc) s = sched_inv idle sc s" "places (enable_preemption sc) s = places sc s"
  by (simp_all add: sched_inv_def places_def queued_def ready_levels_def ready_of_def disable_preemption_def
      enable_preemption_def Let_def fun_eq_iff)

lemma tick_inv:
  assumes inv: "sched_inv idle sc s"
  shows "\<exists>sc1 s1. sc_tick hw now sc s = Some (sc1, s1) \<and> sched_inv idle sc1 s1 \<and>
    (\<forall>p. p \<noteq> idle \<longrightarrow> places sc1 s1 p \<le> places sc s p)"
proof -
  obtain cur where cur: "sc_current sc = Some cur" using inv by (auto simp: sched_inv_def)
  have upd: "sched_inv idle sc (set_task cur ((ss_tasks s cur)\<lparr>t_time_slice := x\<rparr>) s)" for x
    by (rule set_task_inv [OF inv]) simp_all
  show ?thesis
    using schedule_inv [OF upd, of hw now DEFAULT_TIME_SLICE] upd cur by (simp add: sc_tick_def Let_def)
qed

lemma step_inv:
  assumes "sched_inv idle sc s" "sched_allowed idle e (sc, s)"
  shows "\<exists>sc1 s1. sched_step hw e (sc, s) = Some (sc1, s1) \<and> sched_inv idle sc1 s1 \<and>
    (\<forall>p. p \<noteq> idle \<and> e \<noteq> EvWake p \<longrightarrow> places sc1 s1 p \<le> places sc s p)"
proof (cases e)
  case (EvTick now)
  then show ?thesis using tick_inv [OF assms(1), of hw now] by simp
next
  case (EvYield now)
  then show ?thesis using schedule_inv [OF assms(1), of hw now] by simp
next
  case (EvBlock now)
  then have "sc_current sc \<noteq> Some idle" using assms(2) by simp
  note b = block_current_inv [OF assms(1) this]
  show ?thesis using schedule_inv [OF b(1), of hw now] EvBlock by (simp add: b(2))
next
  case (EvWake p)
  then show ?thesis using wake_inv [OF assms(1), of p] assms(2) by auto
qed (use assms(1) in \<open>simp_all add: preemption_inv\<close>)

lemma run_inv:
  assumes "sched_inv idle sc s" "sched_run hw idle es (sc, s) = Some (sc1, s1)"
  shows "sched_inv idle sc1 s1" "p \<noteq> idle \<Longrightarrow> EvWake p \<notin> set es \<Longrightarrow> places sc1 s1 p \<le> places sc s p"
proof -
  have "sched_inv idle sc1 s1 \<and> (p \<noteq> idle \<longrightarrow> EvWake p \<notin> set es \<longrightarrow> places sc1 s1 p \<le> places sc s p)"
    using assms
  proof (induction es arbitrary: sc s)
    case (Cons e es)
    then have al: "sched_allowed idle e (sc, s)" by (auto split: if_splits)
    obtain sc2 s2 where st: "sched_step hw e (sc, s) = Some (sc2, s2)" "sched_inv idle sc2 s2"
      "\<forall>p. p \<noteq> idle \<and> e \<noteq> EvWake p \<longrightarrow> places sc2 s2 p \<le> places sc s p"
      using step_inv [OF Cons.prems(1) al, of hw] by blast
    have "sched_run hw idle es (sc2, s2) = Some (sc1, s1)" using Cons.prems(2) al st(1) by simp
    from Cons.IH [OF st(2) this] st(3) show ?case by (auto intro: order_trans)
  qed simp
  then show "sched_inv idle sc1 s1" "p \<noteq> idle \<Longrightarrow> EvWake p \<notin> set es \<Longrightarrow> places sc1 s1 p \<le> places sc s p" by blast+
qed

section \<open>Properties\<close>


text \<open>The outcome of a scheduling decision in terms of the levels of the ready queue.\<close>

definition next_task :: "scheduler \<Rightarrow> sched_state \<Rightarrow> task_ptr \<Rightarrow> task_ptr" where
  "next_task sc s idle = (case top_level (ready_levels sc s) of [] \<Rightarrow> idle | n # ns \<Rightarrow> n)"

definition rest_levels :: "scheduler \<Rightarrow> sched_state \<Rightarrow> task_ptr list list" where
  "rest_levels sc s = snd (first_deq (ready_levels sc s))"

lemma schedule_outcome:
  assumes inv: "sched_inv idle sc s" and "is_preemptible sc" and cur: "sc_current sc = Some cur"
    and n: "n = next_task sc s idle"
  shows "\<exists>sc1 s1. schedule hw now sc s = Some (sc1, s1) \<and>
    (if t_state (ss_tasks s cur) \<noteq> PsRunning
     then sc_current sc1 = Some n \<and> ready_levels sc1 s1 = rest_levels sc s
     else if should_preempt now (ss_tasks s cur) (ss_tasks s n)
     then sc_current sc1 = Some n \<and>
       ready_levels sc1 s1 = snd (level_enq (level_of (ss_tasks s cur)) cur (rest_levels sc s))
     else sc_current sc1 = Some cur \<and> ready_levels sc1 s1 = rest_levels sc s)"
proof -
  obtain m s1 where p: "pick_next sc s = Some (Some m, sc, s1)" "or_idle sc (fst (first_deq (ready_levels sc s))) = Some m"
    "ready_levels sc s1 = rest_levels sc s" "picked idle sc s m s1"
    using pick_inv [OF inv] by (auto simp: rest_levels_def)
  have mn: "m = n" using p(2) sched_invD(5) [OF inv cur]
    by (auto simp: n next_task_def or_idle_def first_deq_fst split: list.splits)
  have tasks: "ss_tasks s1 = ss_tasks s" using p(4) by (simp add: picked_def)
  obtain s2 where s2: "sc_enqueue cur sc s1 = (sc, s2)"
    "ready_levels sc s2 = snd (level_enq (level_of (ss_tasks s cur)) cur (rest_levels sc s))"
    using picked_preempt [OF inv cur p(4)] p(3) by auto
  let ?a = "switch_to hw n sc s1" and ?b = "switch_to hw n sc s2"
  have "schedule hw now sc s =
      Some (if t_state (ss_tasks s cur) \<noteq> PsRunning then (fst ?a, snd ?a)
        else if should_preempt now (ss_tasks s cur) (ss_tasks s n) then (fst ?b, snd ?b) else (sc, s1))"
    using assms(2) cur p(1) tasks s2(1) by (simp add: schedule_def switch_next_def preempt_next_def mn)
  then show ?thesis using cur p(3) s2(2) unfolding prod.collapse
    by (intro exI [of _ "fst (the (schedule hw now sc s))"] exI [of _ "snd (the (schedule hw now sc s))"]) simp
qed

text \<open>
  C12. What \<open>schedule\<close> does, in every reachable state with preemption enabled. The candidate is the first
  task of the first non-empty level, no waiting task stands at a more urgent level, or the idle task when nothing waits.
  A current task that cannot go on is replaced by the candidate; a running one is replaced, and put at the end
  of its level, exactly when the candidate may preempt it. In each case the candidate is taken from the queue:
  when it does not preempt, it is dropped.
\<close>

theorem schedule_decision:
  assumes "sched_start idle sc0 s0" and "sched_run hw idle es (sc0, s0) = Some (sc, s)"
    and "is_preemptible sc" and "sc_current sc = Some cur" and "n = next_task sc s idle"
  shows "(\<forall>u. u \<in> set (queued sc s) \<longrightarrow> level_of (ss_tasks s n) \<le> level_of (ss_tasks s u)) \<and>
    (\<exists>sc1 s1. schedule hw now sc s = Some (sc1, s1) \<and>
      (if t_state (ss_tasks s cur) \<noteq> PsRunning
       then sc_current sc1 = Some n \<and> ready_levels sc1 s1 = rest_levels sc s
       else if should_preempt now (ss_tasks s cur) (ss_tasks s n)
       then sc_current sc1 = Some n \<and>
         ready_levels sc1 s1 = snd (level_enq (level_of (ss_tasks s cur)) cur (rest_levels sc s))
       else sc_current sc1 = Some cur \<and> ready_levels sc1 s1 = rest_levels sc s))"
proof -
  have inv: "sched_inv idle sc s" by (rule run_inv(1) [OF sched_start_inv [OF assms(1)] assms(2)])
  have sorted: "levels_sorted (ss_tasks s) (ready_levels sc s)" using inv by (simp add: sched_inv_def rq_ok_def ready_levels_def)
  have "level_of (ss_tasks s n) \<le> level_of (ss_tasks s u)" if "u \<in> set (queued sc s)" for u
  proof (cases "top_level (ready_levels sc s)")
    case Nil
    then show ?thesis using that unfolding queued_def top_level_Nil by auto
  next
    case (Cons x xs)
    then show ?thesis using first_deq_urgent [OF sorted _ that [unfolded queued_def]] first_deq_top [of "ready_levels sc s"]
      by (simp add: assms(5) next_task_def)
  qed
  then show ?thesis using schedule_outcome [OF inv assms(3-5), of hw now] by blast
qed

text \<open>A waiting task that is chosen and does not preempt the current one is nowhere afterwards.\<close>

lemma schedule_drops:
  assumes inv: "sched_inv idle sc s" and "is_preemptible sc" and cur: "sc_current sc = Some cur"
    and "t_state (ss_tasks s cur) = PsRunning" and n: "n = next_task sc s idle" "n \<noteq> idle"
    and "\<not> should_preempt now (ss_tasks s cur) (ss_tasks s n)"
  shows "\<exists>sc1 s1. schedule hw now sc s = Some (sc1, s1) \<and> sched_inv idle sc1 s1 \<and> sc_current sc1 = Some cur \<and> places sc1 s1 n = 0"
proof -
  obtain sc1 s1 where r: "schedule hw now sc s = Some (sc1, s1)" "sc_current sc1 = Some cur"
    "ready_levels sc1 s1 = rest_levels sc s"
    using schedule_outcome [OF inv assms(2) cur n(1), of hw now] assms(4,7) by auto
  have "fst (first_deq (ready_levels sc s)) = Some n"
    using n by (auto simp: next_task_def first_deq_fst split: list.splits)
  then have "mset (queued sc s) = add_mset n (mset (queued sc1 s1))"
    using mset_first_deq [of "ready_levels sc s"] r(3) by (simp add: queued_def rest_levels_def)
  from arg_cong [OF this, of "\<lambda>M. count M n"]
  have "count_list (queued sc s) n = Suc (count_list (queued sc1 s1) n)" by (simp add: count_mset)
  then have "places sc1 s1 n = 0" using sched_invD(3) [OF inv cur n(2)] r(2) by (auto simp: places_def split: if_splits)
  moreover have "sched_inv idle sc1 s1" using schedule_inv [OF inv, of hw now] r(1) by auto
  ultimately show ?thesis using r by blast
qed

lemma equal_no_preempt:
  assumes "t_sched_class cur = ScNormal" "t_sched_class n = ScNormal" "t_time_slice cur \<noteq> 0"
    and "effective_priority now cur \<le> effective_priority now n"
  shows "\<not> should_preempt now cur n"
  using assms by (auto simp: should_preempt_def Let_def)

lemma slice_priority [simp]: "effective_priority now (t\<lparr>t_time_slice := x\<rparr>) = effective_priority now t"
  by (cases "t_sched_class t"; simp add: effective_priority_def Let_def split: option.split)

text \<open>
  C33. The scheduler loses tasks. When the current task runs with a last tick of its time slice and the most urgent
  waiting task is another normal task of the same or a lower effective priority, then a timer tick, and as well
  a call that yields the processor, leaves the current task running and takes the waiting task out of the queue.
  It is then nowhere, and stays nowhere through every later run in which nobody makes it ready again.
\<close>

theorem waiting_task_lost:
  assumes "sched_start idle sc0 s0" and "sched_run hw idle es (sc0, s0) = Some (sc, s)"
    and "is_preemptible sc" and "sc_current sc = Some cur" and "t_state (ss_tasks s cur) = PsRunning"
    and "n = next_task sc s idle" and "n \<noteq> idle"
    and "t_sched_class (ss_tasks s cur) = ScNormal" and "t_sched_class (ss_tasks s n) = ScNormal"
    and "effective_priority now (ss_tasks s cur) \<le> effective_priority now (ss_tasks s n)"
    and "t_time_slice (ss_tasks s cur) = 1" and "e = EvTick now \<or> e = EvYield now"
  shows "\<exists>sc1 s1. sched_step hw e (sc, s) = Some (sc1, s1) \<and> sc_current sc1 = Some cur \<and> places sc1 s1 n = 0 \<and>
    (\<forall>es2 sc2 s2. EvWake n \<notin> set es2 \<and> sched_run hw idle es2 (sc1, s1) = Some (sc2, s2) \<longrightarrow> places sc2 s2 n = 0)"
proof -
  have inv: "sched_inv idle sc s" by (rule run_inv(1) [OF sched_start_inv [OF assms(1)] assms(2)])
  have "n \<in> set (queued sc s)" using assms(6,7) top_level_first [of "ready_levels sc s"]
    by (auto simp: next_task_def queued_def split: list.splits) (metis list.set_intros(1) nth_mem)
  then have ne: "cur \<noteq> n" using sched_invD(3) [OF inv assms(4,7)] count_list_pos [of n "queued sc s"] by auto
  have keep: "\<exists>sc1 s1. schedule hw now sc s' = Some (sc1, s1) \<and> sched_inv idle sc1 s1 \<and> sc_current sc1 = Some cur \<and> places sc1 s1 n = 0"
    if "s' = set_task cur ((ss_tasks s cur)\<lparr>t_time_slice := x\<rparr>) s" "x \<noteq> 0" for s' x
  proof (rule schedule_drops [OF _ assms(3,4) _ _ assms(7)])
    show "sched_inv idle sc s'" unfolding that(1) by (rule set_task_inv [OF inv]) simp_all
    show "n = next_task sc s' idle" using assms(6) by (simp add: next_task_def that(1))
    show "\<not> should_preempt now (ss_tasks s' cur) (ss_tasks s' n)"
      using assms(8-10) that ne by (intro equal_no_preempt) simp_all
  qed (use assms(5) in \<open>simp add: that(1)\<close>)
  have "(ss_tasks s cur)\<lparr>t_time_slice := 1\<rparr> = ss_tasks s cur" using assms(11) by (cases "ss_tasks s cur") simp
  then have "set_task cur ((ss_tasks s cur)\<lparr>t_time_slice := 1\<rparr>) s = s" by (cases s) (simp add: set_task_def)
  then have "\<exists>sc1 s1. sched_step hw e (sc, s) = Some (sc1, s1) \<and> sched_inv idle sc1 s1 \<and> sc_current sc1 = Some cur \<and> places sc1 s1 n = 0"
    using assms(3,4,11,12) keep [OF refl, of 1] keep [OF refl, of DEFAULT_TIME_SLICE]
    by (auto simp: sc_tick_def Let_def DEFAULT_TIME_SLICE_def)
  then show ?thesis using run_inv(2) [OF _ _ assms(7)] by (metis le_zero_eq)
qed

text \<open>
  C34. When the round-robin choice of the next task returns. In every queue that enqueueing, dequeueing and removing
  tasks produces, it returns exactly when the first non-empty level has a task that may run on the processor, or
  nothing waits. Otherwise it takes and puts back the tasks of that level for ever, with the queue locked, even if
  tasks of other levels could run.
\<close>

theorem round_robin_returns:
  assumes "run_steps (rq_step (ss_tasks s)) ops rq_new = (rs, ready_of sc s)"
  shows "pick_next_rr sc s \<noteq> None \<longleftrightarrow>
    top_level (ready_levels sc s) = [] \<or>
    (\<exists>p \<in> set (top_level (ready_levels sc s)). can_run_on (ss_tasks s p) (sc_cpu_id sc))"
proof -
  let ?ok = "\<lambda>p. can_run_on (ss_tasks s p) (sc_cpu_id sc)"
  let ?loop = "pick_loop ?ok rq_dequeue (put_ready (ss_tasks s)) (ready_of sc s)"
  have ok: "rq_ok (ss_tasks s) (ready_of sc s)" using rq_run_new(1,2) [OF assms] by (simp add: rq_ok_def)
  have "pick_next_rr sc s \<noteq> None \<longleftrightarrow> ?loop \<noteq> None"
    by (cases "ss_cpus s (sc_cpu_id sc)")
      (simp_all add: pick_next_rr_def ready_of_def Let_def split: option.split)
  also have "\<dots> \<longleftrightarrow> top_level (ready_levels sc s) = [] \<or> (\<exists>p \<in> set (top_level (ready_levels sc s)). ?ok p)"
  proof
    assume "?loop \<noteq> None"
    then obtain r where "?loop = Some r" by blast
    then show "top_level (ready_levels sc s) = [] \<or> (\<exists>p \<in> set (top_level (ready_levels sc s)). ?ok p)"
      using pick_loop_returned [of ?ok "ss_tasks s"] ok by (simp add: ready_levels_def)
  next
    assume a: "top_level (ready_levels sc s) = [] \<or> (\<exists>p \<in> set (top_level (ready_levels sc s)). ?ok p)"
    show "?loop \<noteq> None"
    proof (cases "top_level (ready_levels sc s)")
      case Nil
      then obtain q1 where "rq_dequeue (ready_of sc s) = (None, q1)"
        using dequeue_top [OF ok] by (auto simp: ready_levels_def)
      then show ?thesis by (subst pick_loop.simps) simp
    next
      case (Cons x xs)
      then show ?thesis using a pick_loop_finds [OF ok, of _ ?ok] by (auto simp: ready_levels_def)
    qed
  qed
  finally show ?thesis .
qed

section \<open>A concrete scheduler\<close>

text \<open>Task 0 is the idle task; the others are normal tasks at the last tick of their time slice.\<close>

definition demo_tasks :: task_store where
  "demo_tasks p = (if p = 0 then (task_new 0 0)\<lparr>t_priority := IdlePriority, t_sched_class := ScIdle\<rparr>
                   else (task_new (of_nat p) (of_nat p))\<lparr>t_time_slice := 1\<rparr>)"

definition demo_state :: sched_state where
  "demo_state = demo_sched\<lparr>ss_tasks := demo_tasks\<rparr>"

definition demo_events :: "sched_event list" where
  "demo_events = [EvWake 3, EvYield 0, EvWake 2]"

definition demo_scheduler :: scheduler where
  "demo_scheduler = scheduler_init 0 scheduler_new"

lemma demo_start: "sched_start 0 demo_scheduler demo_state"
proof -
  have "sc_algorithm scheduler_new = PriorityBased" by (simp add: scheduler_new_def)
  then show ?thesis unfolding sched_start_def demo_scheduler_def
    by (auto simp: scheduler_init_def scheduler_new_def can_run_on_def demo_state_def demo_tasks_def
      task_new_def cpuset_all_def ready_of_def demo_sched_def demo_cpu_def intro!: exI [of _ scheduler_new])
qed

text \<open>After the events task 3 runs and task 2 waits.\<close>

definition demo_view :: "scheduler \<times> sched_state \<Rightarrow> (bool \<times> task_ptr option \<times> task_ptr list \<times> task_ptr) \<times> task \<times> task" where
  "demo_view y = ((is_preemptible (fst y), sc_current (fst y), queued (fst y) (snd y), next_task (fst y) (snd y) 0),
     ss_tasks (snd y) 3, ss_tasks (snd y) 2)"

lemma demo_run:
  "\<exists>sc s. sched_run 0 0 demo_events (demo_scheduler, demo_state) = Some (sc, s) \<and> is_preemptible sc \<and>
     sc_current sc = Some 3 \<and> queued sc s = [2] \<and> next_task sc s 0 = 2 \<and>
     ss_tasks s 3 = (task_new 3 3)\<lparr>t_time_slice := 1, t_state := PsRunning, t_current_cpu := Some 0,
       t_run_count := 1, t_involuntary_switches := 1\<rparr> \<and>
     ss_tasks s 2 = (task_new 2 2)\<lparr>t_time_slice := 1\<rparr>"
proof -
  have "map_option demo_view (sched_run 0 0 demo_events (demo_scheduler, demo_state)) =
      Some ((True, Some 3, [2], 2), (task_new 3 3)\<lparr>t_time_slice := 1, t_state := PsRunning, t_current_cpu := Some 0,
        t_run_count := 1, t_involuntary_switches := 1\<rparr>, (task_new 2 2)\<lparr>t_time_slice := 1\<rparr>)"
    by code_simp
  then show ?thesis by (auto simp: demo_view_def)
qed


theorem schedule_decision_witness:
  "\<exists>sc s sc1 s1. sched_run 0 0 demo_events (demo_scheduler, demo_state) = Some (sc, s) \<and> queued sc s = [2] \<and>
     schedule 0 0 sc s = Some (sc1, s1) \<and> sc_current sc1 = Some 3 \<and> ready_levels sc1 s1 = rest_levels sc s"
proof -
  obtain sc s where r: "sched_run 0 0 demo_events (demo_scheduler, demo_state) = Some (sc, s)" "is_preemptible sc"
    "sc_current sc = Some 3" "queued sc s = [2]" "next_task sc s 0 = 2"
    "ss_tasks s 3 = (task_new 3 3)\<lparr>t_time_slice := 1, t_state := PsRunning, t_current_cpu := Some 0,
       t_run_count := 1, t_involuntary_switches := 1\<rparr>" "ss_tasks s 2 = (task_new 2 2)\<lparr>t_time_slice := 1\<rparr>"
    using demo_run by blast
  have "\<not> should_preempt 0 (ss_tasks s 3) (ss_tasks s 2)"
    by (simp add: r(6,7) should_preempt_def task_new_def effective_priority_def)
  then show ?thesis using schedule_decision [OF demo_start r(1,2,3) refl, of 0] r by auto
qed

theorem waiting_task_lost_witness:
  "\<exists>sc s sc1 s1. sched_run 0 0 demo_events (demo_scheduler, demo_state) = Some (sc, s) \<and> queued sc s = [2] \<and>
     sched_step 0 (EvTick 0) (sc, s) = Some (sc1, s1) \<and> places sc1 s1 2 = 0"
proof -
  obtain sc s where r: "sched_run 0 0 demo_events (demo_scheduler, demo_state) = Some (sc, s)" "is_preemptible sc"
    "sc_current sc = Some 3" "queued sc s = [2]" "next_task sc s 0 = 2"
    "ss_tasks s 3 = (task_new 3 3)\<lparr>t_time_slice := 1, t_state := PsRunning, t_current_cpu := Some 0,
       t_run_count := 1, t_involuntary_switches := 1\<rparr>" "ss_tasks s 2 = (task_new 2 2)\<lparr>t_time_slice := 1\<rparr>"
    using demo_run by blast
  then show ?thesis
    using waiting_task_lost [OF demo_start r(1-3) _ r(5) [symmetric], of 0 "EvTick 0"]
    by (auto simp: task_new_def effective_priority_def)
qed

text \<open>A queue on processor 0 whose only task may run on processor 1 alone.\<close>

definition demo_pinned :: task_store where
  "demo_pinned p = (task_new 3 3)\<lparr>t_affinity := cpuset_single 1\<rparr>"

definition demo_pinned_queue :: ready_queue where
  "demo_pinned_queue = snd (run_steps (rq_step demo_pinned) [RqEnqueue 3] rq_new)"

lemma demo_pinned_top: "top_level (rq_levels demo_pinned_queue) = [3]"
  by code_simp

theorem round_robin_returns_witness:
  "pick_next_rr scheduler_new (demo_sched\<lparr>ss_tasks := demo_pinned,
     ss_cpus := [0 \<mapsto> demo_cpu\<lparr>cpu_ready_queue := demo_pinned_queue\<rparr>]\<rparr>) = None"
proof -
  let ?s = "demo_sched\<lparr>ss_tasks := demo_pinned, ss_cpus := [0 \<mapsto> demo_cpu\<lparr>cpu_ready_queue := demo_pinned_queue\<rparr>]\<rparr>"
  have q: "ready_of scheduler_new ?s = demo_pinned_queue" by (simp add: ready_of_def scheduler_new_def)
  have "run_steps (rq_step demo_pinned) [RqEnqueue 3] rq_new =
      (fst (run_steps (rq_step demo_pinned) [RqEnqueue 3] rq_new), demo_pinned_queue)"
    unfolding demo_pinned_queue_def by (rule prod.collapse [symmetric])
  then have "run_steps (rq_step (ss_tasks ?s)) [RqEnqueue 3] rq_new =
      (fst (run_steps (rq_step demo_pinned) [RqEnqueue 3] rq_new), ready_of scheduler_new ?s)"
    unfolding q by (simp del: run_steps.simps)
  note r = round_robin_returns [OF this, unfolded ready_levels_def q demo_pinned_top]
  have "\<not> can_run_on (demo_pinned p) (sc_cpu_id scheduler_new)" for p
    by (simp add: demo_pinned_def can_run_on_def cpuset_single_def scheduler_new_def)
  then show ?thesis using r by (simp del: not_None_eq split_paired_Ex)
qed

end
