(* ===== verification/Spec2Isabelle.thy ===== *)
theory Spec2Isabelle
  imports Cap_Inheritance Cap_Revocation Ipc_Async Ipc_Rate_Limit Ipc_Registry Mm_Boot Fs_Flock Fs_Pipe Net_Socket Sched_Core
begin

text \<open>
  A verification library for the VeridianOS kernel (\<open>src/kernel/src\<close>).
\<close>

end
